(* ===== verification/Prelude.thy ===== *)
theory Prelude
  imports Main "HOL-Library.Word" "HOL-Library.List_Lexorder" "HOL-Library.Sublist"
begin

unbundle bit_operations_syntax

text \<open>
  Shared vocabulary of the development: the machine types of the C++ code, byte strings,
  string literals as byte strings, and the generic facts on lists, options and words that
  several components use.  C++ \<open>char\<close>/\<open>uint8_t\<close> data is a list of \<open>8 word\<close>;
  \<open>uint32_t\<close> and \<open>uint64_t\<close> are words of that width, so arithmetic on them wraps
  as in the code.  A failed \<open>assert\<close>, an out-of-range access and a function that flows off
  its end are all the value \<open>None\<close> of an option: the run has no defined continuation.
\<close>

type_synonym byte = "8 word"
type_synonym bytes = "8 word list"
type_synonym u32 = "32 word"
type_synonym u64 = "64 word"

section \<open>Fact collections\<close>

named_theorems layout_simps \<open>lengths and shapes of encoded byte strings\<close>
named_theorems decode_simps \<open>a decoder applied to what the encoder produced\<close>

section \<open>String literals\<close>

definition cstr :: "string \<Rightarrow> bytes" where
  "cstr s = map of_char s"

lemma cstr_Nil [simp]: "cstr [] = []"
  by (simp add: cstr_def)

lemma cstr_Cons [simp]: "cstr (c # s) = of_char c # cstr s"
  by (simp add: cstr_def)

lemma length_cstr [simp]: "length (cstr s) = length s"
  by (simp add: cstr_def)

section \<open>Lists\<close>

lemma take_drop_exact:
  "length xs = n \<Longrightarrow> take n (xs @ ys) = xs \<and> drop n (xs @ ys) = ys"
  by simp

section \<open>Words\<close>

lemma unat_ucast_widen:
  assumes "LENGTH('a) \<le> LENGTH('b)"
  shows "unat (ucast (w :: 'a::len word) :: 'b::len word) = unat w"
proof -
  have "unat w < 2 ^ LENGTH('a)" by (rule unsigned_less)
  also have "\<dots> \<le> 2 ^ LENGTH('b)" using assms by (simp add: power_increasing)
  finally show ?thesis by (simp add: unsigned_ucast_eq take_bit_nat_eq_self)
qed

lemma unat_ucast_u8_u32 [simp]: "unat (ucast (b :: byte) :: u32) = unat b"
  by (simp add: unat_ucast_widen)

lemma unat_ucast_u8_u64 [simp]: "unat (ucast (b :: byte) :: u64) = unat b"
  by (simp add: unat_ucast_widen)

lemma unat_ucast_u32_u64 [simp]: "unat (ucast (b :: u32) :: u64) = unat b"
  by (simp add: unat_ucast_widen)

lemma unat_byte_less [simp]: "unat (b :: byte) < 256"
proof -
  have "unat b < 2 ^ LENGTH(8)" by (rule unsigned_less)
  then show ?thesis by simp
qed

lemma unat_u32_less [simp]: "unat (v :: u32) < 4294967296"
proof -
  have "unat v < 2 ^ LENGTH(32)" by (rule unsigned_less)
  then show ?thesis by simp
qed

lemma unat_u64_less [simp]: "unat (w :: u64) < 18446744073709551616"
proof -
  have "unat w < 2 ^ LENGTH(64)" by (rule unsigned_less)
  then show ?thesis by simp
qed

section \<open>Bit arithmetic of the encoders\<close>

text \<open>Masks of the source as truncations, and a word split into its low bits and the rest.\<close>

lemma and_127 [simp]: "(w :: 'a::len word) AND 127 = take_bit 7 w"
  by (simp add: take_bit_eq_mask mask_eq_exp_minus_1)

lemma and_255 [simp]: "(w :: 'a::len word) AND 255 = take_bit 8 w"
  by (simp add: take_bit_eq_mask mask_eq_exp_minus_1)

lemma and_128_eq_0 [simp]: "(w :: 'a::len word) AND 128 = 0 \<longleftrightarrow> \<not> bit w 7"
  using and_exp_eq_0_iff_not_bit [of w 7] by simp

lemma bit_128 [simp]:
  "bit (128 :: 'a::len word) n \<longleftrightarrow> n = 7 \<and> n < LENGTH('a)"
  "bit (128 :: int) n \<longleftrightarrow> n = 7"
  "bit (128 :: nat) n \<longleftrightarrow> n = 7"
  using bit_exp_iff [where 'a = "'a word", of 7 n] bit_exp_iff [where 'a = int, of 7 n]
    bit_exp_iff [where 'a = nat, of 7 n] by auto

lemma take_bit_or_push_take:
  "take_bit m v OR push_bit m (take_bit k (drop_bit m v)) = take_bit (m + k) (v :: 'a::len word)"
  by (rule bit_word_eqI) (auto simp: bit_simps)

lemma take_bit_or_push_drop: "take_bit k v OR push_bit k (drop_bit k v) = (v :: 'a::len word)"
  by (rule bit_word_eqI) (auto simp: bit_simps, metis le_add_diff_inverse not_less)

lemma push_bit_split:
  "push_bit s (take_bit k v) OR push_bit (s + k) (drop_bit k v) = push_bit s (v :: 'a::len word)"
  by (simp add: push_bit_or [symmetric] take_bit_or_push_drop flip: push_bit_push_bit)

lemma ucast_ucast_byte:
  "8 \<le> LENGTH('a) \<Longrightarrow> ucast (ucast (w :: 'a::len word) :: byte) = take_bit 8 w"
  by (rule bit_word_eqI) (auto simp: bit_simps)

lemma take_bit_word_self:
  fixes w :: "'a::len word"
  assumes "unat w < 2 ^ k"
  shows "take_bit k w = w"
proof (rule word_unat_eq_iff [THEN iffD2])
  show "unat (take_bit k w) = unat w"
    using assms by (simp add: unsigned_take_bit_eq take_bit_nat_eq_self)
qed

lemma not_bit_of_less:
  fixes w :: "'a::len word"
  assumes "unat w < 2 ^ k"
  shows "\<not> bit w k"
  using take_bit_word_self [OF assms] by (metis bit_take_bit_iff order_less_irrefl)

lemma take_bit_full [simp]:
  "take_bit 32 (v :: u32) = v" "take_bit 64 (w :: u64) = w" "take_bit 8 (b :: byte) = b"
  by (simp_all add: take_bit_word_eq_self)

lemma unat_drop_bit: "unat (drop_bit k (v :: 'a::len word)) = unat v div 2 ^ k"
proof -
  have "unat (drop_bit k v) = drop_bit k (unat v)" by (simp add: unsigned_drop_bit_eq take_bit_nat_eq_self [OF unsigned_less])
  then show ?thesis by (simp only: drop_bit_eq_div)
qed

lemma drop_bit_less:
  assumes "unat (v :: 'a::len word) < 2 ^ (m + k)"
  shows "unat (drop_bit k v) < 2 ^ m"
  using assms by (simp add: unat_drop_bit less_mult_imp_div_less power_add del: drop_bit_eq_div)

end
