(* ===== verification/Slice.thy ===== *)
theory Slice
  imports Prelude
begin

text \<open>
  \<open>include/leveldb/slice.h\<close>: the class \<open>slice\<close>, a pointer and a length.  A slice is
  modelled by the bytes it refers to, \<open>data_[0 .. size_-1]\<close>; the pointer itself is never
  observed by the code except through them.  \<open>memcmp\<close> of the C library fixes only the sign
  of its result, so the model's \<open>memcmp\<close> returns that sign.
\<close>

type_synonym slice = bytes

section \<open>Constructors and accessors\<close>

definition slice_empty_ctor :: slice where
  "slice_empty_ctor = []"

definition slice_of_ptr :: "bytes \<Rightarrow> nat \<Rightarrow> slice" where
  "slice_of_ptr d n = take n d"

definition slice_of_string :: "bytes \<Rightarrow> slice" where
  "slice_of_string s = s"

definition slice_of_cstr :: "bytes \<Rightarrow> slice" where
  "slice_of_cstr s = takeWhile (\<lambda>b. b \<noteq> 0) s"

definition slice_size :: "slice \<Rightarrow> nat" where
  "slice_size s = length s"

definition slice_empty :: "slice \<Rightarrow> bool" where
  "slice_empty s \<longleftrightarrow> slice_size s = 0"

definition slice_at :: "slice \<Rightarrow> nat \<Rightarrow> byte option" where
  "slice_at s n = (if n < slice_size s then Some (s ! n) else None)"

definition slice_clear :: "slice \<Rightarrow> slice" where
  "slice_clear s = []"

definition slice_remove_prefix :: "slice \<Rightarrow> nat \<Rightarrow> slice option" where
  "slice_remove_prefix s n = (if n \<le> slice_size s then Some (drop n s) else None)"

definition slice_to_string :: "slice \<Rightarrow> bytes" where
  "slice_to_string s = s"

section \<open>Comparison\<close>

fun memcmp :: "bytes \<Rightarrow> bytes \<Rightarrow> nat \<Rightarrow> int" where
  "memcmp (x # xs) (y # ys) (Suc n) =
     (if x < y then -1 else if y < x then 1 else memcmp xs ys n)"
| "memcmp _ _ _ = 0"

definition slice_starts_with :: "slice \<Rightarrow> slice \<Rightarrow> bool" where
  "slice_starts_with s x \<longleftrightarrow> slice_size x \<le> slice_size s \<and> memcmp s x (slice_size x) = 0"

definition slice_eq :: "slice \<Rightarrow> slice \<Rightarrow> bool" where
  "slice_eq x y \<longleftrightarrow> slice_size x = slice_size y \<and> memcmp x y (slice_size x) = 0"

definition slice_ne :: "slice \<Rightarrow> slice \<Rightarrow> bool" where
  "slice_ne x y \<longleftrightarrow> \<not> slice_eq x y"

definition slice_compare :: "slice \<Rightarrow> slice \<Rightarrow> int" where
  "slice_compare a b =
     (let min_len = (if slice_size a < slice_size b then slice_size a else slice_size b);
          r = memcmp a b min_len
      in if r = 0
         then (if slice_size a < slice_size b then -1
               else if slice_size b < slice_size a then 1 else r)
         else r)"

section \<open>What the comparison operators compute\<close>

lemma memcmp_prefix_iff:
  "length x \<le> length s \<Longrightarrow> memcmp s x (length x) = 0 \<longleftrightarrow> prefix x s"
proof (induction x arbitrary: s)
  case Nil
  then show ?case by simp
next
  case (Cons b x)
  then obtain c t where "s = c # t" by (cases s) auto
  with Cons show ?case by (auto simp: not_less_iff_gr_or_eq)
qed

lemma slice_starts_with_prefix [simp]: "slice_starts_with s x \<longleftrightarrow> prefix x s"
  using memcmp_prefix_iff[of x s] prefix_length_le[of x s]
  by (auto simp: slice_starts_with_def slice_size_def)

lemma slice_eq_iff [simp]: "slice_eq x y \<longleftrightarrow> x = y"
proof -
  have "x = y" if "length x = length y" "memcmp x y (length x) = 0"
    using memcmp_prefix_iff[of y x] that by (auto simp: prefix_def)
  moreover have "memcmp x x (length x) = 0" using memcmp_prefix_iff[of x x] by simp
  ultimately show ?thesis by (auto simp: slice_eq_def slice_size_def)
qed

lemma slice_compare_Nil [simp]:
  "slice_compare [] b = (if b = [] then 0 else -1)"
  "slice_compare (x # xs) [] = 1"
  by (auto simp: slice_compare_def slice_size_def)

lemma slice_compare_Cons [simp]:
  "slice_compare (x # xs) (y # ys) =
     (if x < y then -1 else if y < x then 1 else slice_compare xs ys)"
  by (simp add: slice_compare_def slice_size_def Let_def)

lemma slice_compare_order:
  "slice_compare a b = (if a < b then -1 else if a = b then 0 else 1)"
proof (induction a arbitrary: b)
  case Nil
  then show ?case by (cases b) auto
next
  case (Cons x xs)
  then show ?case by (cases b) auto
qed

end
