(* ===== verification/Coding.thy ===== *)
theory Coding
  imports Slice
begin

text \<open>
  \<open>src/util/coding.cc\<close> and the inline decoders of \<open>include/util/coding.h\<close>: fixed-width
  little-endian integers, base-128 varints and length-prefixed slices.  An encoder writing
  through a pointer is the list of bytes it writes; \<open>put_*\<close> append to a string; a decoder that
  reads from a pointer range returns the value with the bytes after the last one it consumed,
  or \<open>None\<close> for the null pointer.
\<close>

section \<open>Fixed-width integers\<close>

definition encode_fixed32 :: "u32 \<Rightarrow> bytes" where
  "encode_fixed32 value =
     [ucast value, ucast (drop_bit 8 value), ucast (drop_bit 16 value), ucast (drop_bit 24 value)]"

definition encode_fixed64 :: "u64 \<Rightarrow> bytes" where
  "encode_fixed64 value =
     [ucast value, ucast (drop_bit 8 value), ucast (drop_bit 16 value), ucast (drop_bit 24 value),
      ucast (drop_bit 32 value), ucast (drop_bit 40 value), ucast (drop_bit 48 value),
      ucast (drop_bit 56 value)]"

fun decode_fixed32 :: "bytes \<Rightarrow> u32 option" where
  "decode_fixed32 (b0 # b1 # b2 # b3 # _) =
     Some (ucast b0 OR push_bit 8 (ucast b1) OR push_bit 16 (ucast b2) OR push_bit 24 (ucast b3))"
| "decode_fixed32 _ = None"

fun decode_fixed64 :: "bytes \<Rightarrow> u64 option" where
  "decode_fixed64 (b0 # b1 # b2 # b3 # b4 # b5 # b6 # b7 # _) =
     Some (ucast b0 OR push_bit 8 (ucast b1) OR push_bit 16 (ucast b2) OR push_bit 24 (ucast b3) OR
       push_bit 32 (ucast b4) OR push_bit 40 (ucast b5) OR push_bit 48 (ucast b6) OR
       push_bit 56 (ucast b7))"
| "decode_fixed64 _ = None"

definition put_fixed32 :: "bytes \<Rightarrow> u32 \<Rightarrow> bytes" where
  "put_fixed32 dst value = dst @ encode_fixed32 value"

definition put_fixed64 :: "bytes \<Rightarrow> u64 \<Rightarrow> bytes" where
  "put_fixed64 dst value = dst @ encode_fixed64 value"

section \<open>Varints\<close>

definition encode_varint32 :: "u32 \<Rightarrow> bytes" where
  "encode_varint32 value =
     (if value < push_bit 7 1 then [ucast value]
      else if value < push_bit 14 1 then
        [ucast (value OR 128), ucast (drop_bit 7 value)]
      else if value < push_bit 21 1 then
        [ucast (value OR 128), ucast (drop_bit 7 value OR 128), ucast (drop_bit 14 value)]
      else if value < push_bit 28 1 then
        [ucast (value OR 128), ucast (drop_bit 7 value OR 128), ucast (drop_bit 14 value OR 128),
         ucast (drop_bit 21 value)]
      else
        [ucast (value OR 128), ucast (drop_bit 7 value OR 128), ucast (drop_bit 14 value OR 128),
         ucast (drop_bit 21 value OR 128), ucast (drop_bit 28 value)])"

function encode_varint64 :: "u64 \<Rightarrow> bytes" where
  "encode_varint64 v =
     (if 128 \<le> v then ucast (v OR 128) # encode_varint64 (drop_bit 7 v) else [ucast v])"
  by pat_completeness auto
termination
proof (relation "measure unat", goal_cases)
  case 1
  then show ?case by simp
next
  case (2 v)
  then have "128 \<le> unat v" by (simp add: word_le_nat_alt)
  then show ?case by (simp add: unat_drop_bit)
qed

declare encode_varint64.simps [simp del]

definition put_varint32 :: "bytes \<Rightarrow> u32 \<Rightarrow> bytes" where
  "put_varint32 dst value = dst @ encode_varint32 value"

definition put_varint64 :: "bytes \<Rightarrow> u64 \<Rightarrow> bytes" where
  "put_varint64 dst value = dst @ encode_varint64 value"

fun varint32_loop :: "nat \<Rightarrow> u32 \<Rightarrow> bytes \<Rightarrow> (u32 \<times> bytes) option" where
  "varint32_loop shift result [] = None"
| "varint32_loop shift result (b # p) =
     (if shift \<le> 28 then
        (let byte = (ucast b :: u32) in
         if byte AND 128 \<noteq> 0
         then varint32_loop (shift + 7) (result OR push_bit shift (byte AND 127)) p
         else Some (result OR push_bit shift byte, p))
      else None)"

definition get_varint32ptr_fallback :: "bytes \<Rightarrow> (u32 \<times> bytes) option" where
  "get_varint32ptr_fallback p = varint32_loop 0 0 p"

fun get_varint32ptr :: "bytes \<Rightarrow> (u32 \<times> bytes) option" where
  "get_varint32ptr [] = get_varint32ptr_fallback []"
| "get_varint32ptr (b # p) =
     (let result = (ucast b :: u32) in
      if result AND 128 = 0 then Some (result, p) else get_varint32ptr_fallback (b # p))"

fun varint64_loop :: "nat \<Rightarrow> u64 \<Rightarrow> bytes \<Rightarrow> (u64 \<times> bytes) option" where
  "varint64_loop shift result [] = None"
| "varint64_loop shift result (b # p) =
     (if shift \<le> 63 then
        (let byte = (ucast b :: u64) in
         if byte AND 128 \<noteq> 0
         then varint64_loop (shift + 7) (result OR push_bit shift (byte AND 127)) p
         else Some (result OR push_bit shift byte, p))
      else None)"

definition get_varint64ptr :: "bytes \<Rightarrow> (u64 \<times> bytes) option" where
  "get_varint64ptr p = varint64_loop 0 0 p"

definition get_varint32 :: "slice \<Rightarrow> (u32 \<times> slice) option" where
  "get_varint32 input = get_varint32ptr input"

definition get_varint64 :: "slice \<Rightarrow> (u64 \<times> slice) option" where
  "get_varint64 input = get_varint64ptr input"

section \<open>Length-prefixed slices\<close>

text \<open>
  The size is passed to a \<open>uint32_t\<close> parameter, so it is truncated.  The reader returns the
  slice found, if any, and the input as it is left: on failure after the length was read the
  length has been consumed.
\<close>

definition put_length_prefixed_slice :: "bytes \<Rightarrow> slice \<Rightarrow> bytes" where
  "put_length_prefixed_slice dst value =
     put_varint32 dst (word_of_nat (slice_size value)) @ value"

definition get_length_prefixed_slice :: "slice \<Rightarrow> slice option \<times> slice" where
  "get_length_prefixed_slice input =
     (case get_varint32 input of
        None \<Rightarrow> (None, input)
      | Some (len, input') \<Rightarrow>
          if unat len \<le> slice_size input'
          then (Some (take (unat len) input'), drop (unat len) input')
          else (None, input'))"

section \<open>Fixed-width round trips\<close>

lemma decode_encode_fixed32 [decode_simps]: "decode_fixed32 (encode_fixed32 v @ rest) = Some v"
  by (simp add: encode_fixed32_def ucast_ucast_byte take_bit_or_push_take flip: or.assoc)

lemma decode_encode_fixed64 [decode_simps]: "decode_fixed64 (encode_fixed64 v @ rest) = Some v"
  by (simp add: encode_fixed64_def ucast_ucast_byte take_bit_or_push_take flip: or.assoc)

lemma length_encode_fixed [layout_simps, simp]:
  "length (encode_fixed32 v) = 4" "length (encode_fixed64 w) = 8"
  by (simp_all add: encode_fixed32_def encode_fixed64_def)

section \<open>Varint round trips\<close>

text \<open>The first byte of a long varint carries seven payload bits below a set top bit.\<close>

lemma varint_head64:
  "bit (ucast (ucast (v OR 128 :: u64) :: byte) :: u64) 7"
  "take_bit 7 (ucast (ucast (v OR 128 :: u64) :: byte) :: u64) = take_bit 7 v"
  by (simp add: bit_simps, rule bit_word_eqI, auto simp: bit_simps)

lemma varint_head32:
  "bit (ucast (ucast (v OR 128 :: u32) :: byte) :: u32) 7"
  "take_bit 7 (ucast (ucast (v OR 128 :: u32) :: byte) :: u32) = take_bit 7 v"
  by (simp add: bit_simps, rule bit_word_eqI, auto simp: bit_simps)

lemma ucast_le_128: "(128 :: u64) \<le> ucast v \<longleftrightarrow> 128 \<le> (v :: u32)"
  by (simp add: word_le_nat_alt)

text \<open>The 64-bit loop on a zero-extended 32-bit value, one round at a time.\<close>

lemma encode_varint64_step32:
  fixes v :: u32
  assumes "128 \<le> v"
  shows "encode_varint64 (ucast v) = ucast (v OR 128) # encode_varint64 (ucast (drop_bit 7 v))"
proof -
  have "drop_bit 7 (ucast v :: u64) = ucast (drop_bit 7 v)"
    by (rule bit_word_eqI) (auto simp: bit_simps dest: bit_imp_le_length)
  moreover have "(ucast (ucast v OR 128 :: u64) :: byte) = ucast (v OR 128)"
    by (rule bit_word_eqI) (auto simp: bit_simps)
  ultimately show ?thesis
    using assms by (simp add: encode_varint64.simps[of "ucast v"] ucast_le_128)
qed

lemma encode_varint64_last32:
  fixes v :: u32
  assumes "\<not> 128 \<le> v"
  shows "encode_varint64 (ucast v) = [ucast v]"
proof -
  have "(ucast (ucast v :: u64) :: byte) = ucast v"
    by (rule bit_word_eqI) (auto simp: bit_simps)
  then show ?thesis using assms by (simp add: encode_varint64.simps[of "ucast v"] ucast_le_128)
qed

lemma varint64_loop_encode:
  "unat v < 2 ^ (70 - 7 * k) \<Longrightarrow> k \<le> 9 \<Longrightarrow>
   varint64_loop (7 * k) r (encode_varint64 v @ rest) = Some (r OR push_bit (7 * k) v, rest)"
proof (induction v arbitrary: k r rule: encode_varint64.induct)
  case (1 v)
  show ?case
  proof (cases "128 \<le> v")
    case True
    then have v: "128 \<le> unat v" by (simp add: word_le_nat_alt)
    have "k \<noteq> 9" using "1.prems" v by auto
    then have k: "Suc k \<le> 9" using "1.prems" by simp
    then have "unat (drop_bit 7 v) < 2 ^ (70 - 7 * Suc k)"
      using "1.prems" drop_bit_less[of v "70 - 7 * Suc k" 7] by simp
    note IH = "1.IH"[OF True this k, of "r OR push_bit (7 * k) (take_bit 7 v)"]
    have "push_bit (7 * k) (take_bit 7 v) OR push_bit (7 + 7 * k) (drop_bit 7 v) = push_bit (7 * k) v"
      using push_bit_split[of "7 * k" 7 v] by (simp add: add.commute)
    with IH show ?thesis using True k varint_head64
      by (simp add: encode_varint64.simps[of v] or.assoc add.commute Let_def)
  next
    case False
    then have v: "unat v < 128" by (simp add: word_less_nat_alt not_le)
    then have "\<not> bit (ucast (ucast v :: byte) :: u64) 7" "ucast (ucast v :: byte) = v"
      by (auto simp: ucast_ucast_byte take_bit_word_self[of v 8] not_bit_of_less[of v 7])
    then show ?thesis using False "1.prems" by (simp add: encode_varint64.simps[of v] Let_def)
  qed
qed

lemma varint32_loop_encode:
  "unat v < 2 ^ (35 - 7 * k) \<Longrightarrow> k \<le> 4 \<Longrightarrow>
   varint32_loop (7 * k) r (encode_varint64 (ucast v) @ rest) = Some (r OR push_bit (7 * k) v, rest)"
proof (induction "unat v" arbitrary: v k r rule: less_induct)
  case (less v)
  show ?case
  proof (cases "128 \<le> v")
    case True
    then have v: "128 \<le> unat v" by (simp add: word_le_nat_alt)
    have "k \<noteq> 4" using less.prems v by auto
    then have k: "Suc k \<le> 4" using less.prems by simp
    have small: "unat (drop_bit 7 v) < 2 ^ (35 - 7 * Suc k)"
      using less.prems k drop_bit_less[of v "35 - 7 * Suc k" 7] by simp
    have "unat (drop_bit 7 v) < unat v" using v by (simp add: unat_drop_bit)
    note IH = less.hyps[OF this small k, of "r OR push_bit (7 * k) (take_bit 7 v)"]
    have "push_bit (7 * k) (take_bit 7 v) OR push_bit (7 + 7 * k) (drop_bit 7 v) = push_bit (7 * k) v"
      using push_bit_split[of "7 * k" 7 v] by (simp add: add.commute)
    with IH show ?thesis using True k varint_head32
      by (simp add: encode_varint64_step32 or.assoc add.commute Let_def)
  next
    case False
    then have v: "unat v < 128" by (simp add: word_less_nat_alt not_le)
    then have "\<not> bit (ucast (ucast v :: byte) :: u32) 7" "ucast (ucast v :: byte) = v"
      by (auto simp: ucast_ucast_byte take_bit_word_self[of v 8] not_bit_of_less[of v 7])
    then show ?thesis using False less.prems by (simp add: encode_varint64_last32 Let_def)
  qed
qed

lemma encode_varint32_eq_loop: "encode_varint32 v = encode_varint64 (ucast v)"
proof -
  have le: "128 \<le> unat (drop_bit k v) \<longleftrightarrow> 128 * 2 ^ k \<le> unat v" for k
    by (simp add: unat_drop_bit less_eq_div_iff_mult_less_eq)
  have "\<not> 34359738368 \<le> unat v"
    using unat_u32_less [of v] by linarith
  then show ?thesis
  unfolding encode_varint32_def
  by (simp add: encode_varint64_step32 encode_varint64_last32 le word_le_nat_alt word_less_nat_alt)
qed

lemma get_varint32ptr_fast_path: "get_varint32ptr p = get_varint32ptr_fallback p"
  by (cases p) (simp_all add: get_varint32ptr_fallback_def Let_def)

lemma get_varint32_encode [decode_simps, simp]:
  "get_varint32 (encode_varint32 v @ rest) = Some (v, rest)"
  using varint32_loop_encode [of v 0 0 rest] unat_u32_less [of v]
  by (simp add: get_varint32_def get_varint32ptr_fast_path get_varint32ptr_fallback_def
      encode_varint32_eq_loop order_less_trans [OF unat_u32_less])

lemma get_varint64_encode [decode_simps, simp]:
  "get_varint64 (encode_varint64 v @ rest) = Some (v, rest)"
  using varint64_loop_encode [of v 0 0 rest] unat_u64_less [of v]
  by (simp add: get_varint64_def get_varint64ptr_def order_less_trans [OF unat_u64_less])

section \<open>Sizes and consumption\<close>

lemma length_encode_varint64: "unat v < 2 ^ (7 * Suc k) \<Longrightarrow> length (encode_varint64 v) \<le> Suc k"
proof (induction v arbitrary: k rule: encode_varint64.induct)
  case (1 v)
  show ?case
  proof (cases "128 \<le> v")
    case True
    then have v: "128 \<le> unat v" by (simp add: word_le_nat_alt)
    then obtain j where k: "k = Suc j" using "1.prems" by (cases k) auto
    then have "unat (drop_bit 7 v) < 2 ^ (7 * Suc j)"
      using "1.prems" drop_bit_less[of v "7 * Suc j" 7] by (simp add: add.commute)
    from "1.IH"[OF True this] k True show ?thesis by (simp add: encode_varint64.simps[of v])
  qed (simp add: encode_varint64.simps[of v])
qed

lemma length_encode_varint64_le: "length (encode_varint64 v) \<le> 10"
  using length_encode_varint64 [of v 9] by (simp add: order_less_trans [OF unat_u64_less])

lemma length_encode_varint32_le: "length (encode_varint32 v) \<le> 5"
  by (simp add: encode_varint32_def)

lemma encode_varint64_nonempty [simp]: "encode_varint64 v \<noteq> []"
  by (simp add: encode_varint64.simps[of v])

lemma encode_varint32_nonempty [simp]: "encode_varint32 v \<noteq> []"
  by (simp add: encode_varint32_eq_loop)

lemma varint32_loop_suffix:
  "varint32_loop s r p = Some (v, q) \<Longrightarrow> \<exists>b bs. p = (b # bs) @ q \<and> length bs < 5 - s div 7"
proof (induction s r p rule: varint32_loop.induct)
  case (2 s r b p)
  show ?case
  proof (cases "bit (ucast b :: u32) 7")
    case True
    with 2 obtain c cs where "p = (c # cs) @ q" "length cs < 5 - (s + 7) div 7" "s \<le> 28"
      by (auto simp: Let_def split: if_splits)
    then show ?thesis by (intro exI[of _ b] exI[of _ "c # cs"]) auto
  next
    case False
    with "2.prems" show ?thesis by (auto simp: Let_def split: if_splits)
  qed
qed simp

lemma get_varint32_consumes:
  assumes "get_varint32 input = Some (v, rest)"
  shows "\<exists>b bs. input = (b # bs) @ rest \<and> length bs < 5"
  using assms varint32_loop_suffix[of 0 0 input v rest]
  by (simp add: get_varint32_def get_varint32ptr_fast_path get_varint32ptr_fallback_def)

lemma varint64_loop_suffix:
  "varint64_loop s r p = Some (v, q) \<Longrightarrow> \<exists>b bs. p = (b # bs) @ q \<and> length bs < 10 - s div 7"
proof (induction s r p rule: varint64_loop.induct)
  case (2 s r b p)
  show ?case
  proof (cases "bit (ucast b :: u64) 7")
    case True
    with 2 obtain c cs where "p = (c # cs) @ q" "length cs < 10 - (s + 7) div 7" "s \<le> 63"
      by (auto simp: Let_def split: if_splits)
    then show ?thesis by (intro exI[of _ b] exI[of _ "c # cs"]) auto
  next
    case False
    with "2.prems" show ?thesis by (auto simp: Let_def split: if_splits)
  qed
qed simp

lemma get_varint64_consumes:
  assumes "get_varint64 input = Some (v, rest)"
  shows "\<exists>b bs. input = (b # bs) @ rest \<and> length bs < 10"
  using assms varint64_loop_suffix[of 0 0 input v rest]
  by (simp add: get_varint64_def get_varint64ptr_def)

lemma get_varint_shrinks:
  "get_varint32 input = Some (v, rest) \<Longrightarrow> length rest < length input"
  "get_varint64 input = Some (w, rest) \<Longrightarrow> length rest < length input"
  by (auto dest: get_varint32_consumes get_varint64_consumes)

lemma get_length_prefixed_shrinks:
  "get_length_prefixed_slice input = (r, rest) \<Longrightarrow> length rest \<le> length input"
  by (fastforce simp: get_length_prefixed_slice_def split: option.splits if_splits
      dest: get_varint_shrinks)

section \<open>Length-prefixed round trip\<close>

lemma get_put_length_prefixed [decode_simps]:
  assumes "length s < 2 ^ 32"
  shows "get_length_prefixed_slice (put_length_prefixed_slice [] s @ rest) = (Some s, rest)"
proof -
  have "unat (word_of_nat (length s) :: u32) = length s"
    using assms by (simp add: unat_of_nat take_bit_nat_eq_self)
  then show ?thesis
    by (simp add: get_length_prefixed_slice_def put_length_prefixed_slice_def put_varint32_def slice_size_def)
qed

lemma put_length_prefixed_append:
  "put_length_prefixed_slice dst s = dst @ put_length_prefixed_slice [] s"
  by (simp add: put_length_prefixed_slice_def put_varint32_def)

section \<open>Properties\<close>

text \<open>
  C40. Every integer the code writes with \<open>put_fixed32/64\<close> or \<open>put_varint32/64\<close> is read back
  by the matching reader, whatever follows it in the input, and the varint readers leave exactly
  the bytes that follow.
\<close>

theorem integer_roundtrip:
  "decode_fixed32 (put_fixed32 [] a @ rest) = Some a
   \<and> decode_fixed64 (put_fixed64 [] b @ rest) = Some b
   \<and> get_varint32 (put_varint32 [] c @ rest) = Some (c, rest)
   \<and> get_varint64 (put_varint64 [] d @ rest) = Some (d, rest)"
  by (simp add: put_fixed32_def put_fixed64_def put_varint32_def put_varint64_def decode_simps)

end
