(* ===== verification/Crc32c.thy ===== *)
theory Crc32c
  imports Crc32c_Tables Coding
begin

text \<open>
  \<open>src/util/crc32c.cc\<close> and \<open>include/util/crc32c.h\<close>: the table-driven CRC32C with its
  four interleaved partial results, and the masking of stored CRCs.  The main result is that the
  strided algorithm computes the plain byte-at-a-time CRC, for every alignment of the buffer.
  The address of the buffer is a natural number \<open>p\<close>: the code uses it to align its word reads
  and no object reaches the top of the address space.  The CRC library behind
  \<open>HAVE_CRC32C\<close> is not part of the repository: it is the parameter \<open>lib\<close>, \<open>None\<close> in the
  configuration the repository builds.
\<close>

section \<open>The macros of the inner loops\<close>

definition kCRC32Xor :: u32 where
  "kCRC32Xor = 0xffffffff"

definition read_uint32_le :: "bytes \<Rightarrow> u32" where
  "read_uint32_le buffer = the (decode_fixed32 buffer)"

definition round_up4 :: "nat \<Rightarrow> nat" where
  "round_up4 pointer = (pointer + 3) div 4 * 4"

definition step1 :: "u32 \<Rightarrow> byte \<Rightarrow> u32" where
  "step1 l b =
     (let c = (l AND 0xff) XOR ucast b in kByteExtensionTable ! unat c XOR drop_bit 8 l)"

definition step4 :: "u32 \<Rightarrow> u32 \<Rightarrow> u32" where
  "step4 w crc =
     w XOR kStrideExtensionTable3 ! unat (crc AND 0xff)
       XOR kStrideExtensionTable2 ! unat (drop_bit 8 crc AND 0xff)
       XOR kStrideExtensionTable1 ! unat (drop_bit 16 crc AND 0xff)
       XOR kStrideExtensionTable0 ! unat (drop_bit 24 crc)"

type_synonym strides = "u32 \<times> u32 \<times> u32 \<times> u32"

fun step16 :: "bytes \<Rightarrow> strides \<Rightarrow> strides" where
  "step16 p (crc0, crc1, crc2, crc3) =
     (step4 (read_uint32_le p) crc0, step4 (read_uint32_le (drop 4 p)) crc1,
      step4 (read_uint32_le (drop 8 p)) crc2, step4 (read_uint32_le (drop 12 p)) crc3)"

definition step4w_round :: "u32 \<Rightarrow> u32" where
  "step4w_round w = drop_bit 8 w XOR kByteExtensionTable ! unat (w AND 0xff)"

definition step4w :: "u32 \<Rightarrow> u32 \<Rightarrow> u32" where
  "step4w w l = (step4w_round ^^ 4) (w XOR l)"

section \<open>The loops of \<open>Extend\<close>\<close>

function swaths :: "bytes \<Rightarrow> strides \<Rightarrow> strides \<times> bytes" where
  "swaths p s = (if 16 \<le> length p then swaths (drop 16 p) (step16 p s) else (s, p))"
  by pat_completeness auto
termination
  by (relation "measure (\<lambda>(p, s). length p)") auto

declare swaths.simps [simp del]

function words :: "bytes \<Rightarrow> strides \<Rightarrow> strides \<times> bytes" where
  "words p (crc0, crc1, crc2, crc3) =
     (if 4 \<le> length p
      then words (drop 4 p) (crc1, crc2, crc3, step4 (read_uint32_le p) crc0)
      else ((crc0, crc1, crc2, crc3), p))"
  by pat_completeness auto
termination
  by (relation "measure (\<lambda>(p, s). length p)") auto

declare words.simps [simp del]

definition combine :: "strides \<Rightarrow> u32" where
  "combine s =
     (case s of (crc0, crc1, crc2, crc3) \<Rightarrow> step4w crc3 (step4w crc2 (step4w crc1 (step4w crc0 0))))"

definition strided :: "u32 \<Rightarrow> bytes \<Rightarrow> u32 \<times> bytes" where
  "strided l p =
     (if 16 \<le> length p then
        (let s0 = (read_uint32_le p XOR l, read_uint32_le (drop 4 p),
                   read_uint32_le (drop 8 p), read_uint32_le (drop 12 p));
             (s1, p1) = swaths (drop 16 p) s0;
             (s2, p2) = words p1 s1
         in (combine s2, p2))
      else (l, p))"

definition extend_tables :: "nat \<Rightarrow> u32 \<Rightarrow> bytes \<Rightarrow> u32" where
  "extend_tables p crc data =
     (let l = crc XOR kCRC32Xor;
          x = round_up4 p;
          lead = (if x \<le> p + length data then x - p else 0);
          l1 = foldl step1 l (take lead data);
          (l2, rest) = strided l1 (drop lead data)
      in foldl step1 l2 rest XOR kCRC32Xor)"

section \<open>Entry points\<close>

definition accelerated_crc32c :: "(u32 \<Rightarrow> bytes \<Rightarrow> u32) option \<Rightarrow> u32 \<Rightarrow> bytes \<Rightarrow> u32" where
  "accelerated_crc32c lib crc buf = (case lib of Some ext \<Rightarrow> ext crc buf | None \<Rightarrow> 0)"

definition can_accelerate_crc32c :: "(u32 \<Rightarrow> bytes \<Rightarrow> u32) option \<Rightarrow> bool" where
  "can_accelerate_crc32c lib \<longleftrightarrow> accelerated_crc32c lib 0 (cstr ''TestCRCBuffer'') = 0xdcbc59fa"

definition crc_extend ::
    "(u32 \<Rightarrow> bytes \<Rightarrow> u32) option \<Rightarrow> nat \<Rightarrow> u32 \<Rightarrow> bytes \<Rightarrow> u32" where
  "crc_extend lib p crc data =
     (if can_accelerate_crc32c lib then accelerated_crc32c lib crc data
      else extend_tables p crc data)"

definition crc_value :: "(u32 \<Rightarrow> bytes \<Rightarrow> u32) option \<Rightarrow> nat \<Rightarrow> bytes \<Rightarrow> u32" where
  "crc_value lib p data = crc_extend lib p 0 data"

definition kMaskDelta :: u32 where
  "kMaskDelta = 0xa282ead8"

definition crc_mask :: "u32 \<Rightarrow> u32" where
  "crc_mask crc = (drop_bit 15 crc OR push_bit 17 crc) + kMaskDelta"

definition crc_unmask :: "u32 \<Rightarrow> u32" where
  "crc_unmask masked_crc =
     (let rot = masked_crc - kMaskDelta in drop_bit 17 rot OR push_bit 15 rot)"

section \<open>The reference: CRC32C as a shift register\<close>

text \<open>
  The specification the tables implement: the register is shifted right bit by bit and the
  reflected Castagnoli polynomial is subtracted whenever a one is shifted out.
\<close>

definition crc_shift :: "u32 \<Rightarrow> u32" where
  "crc_shift x = (if bit x 0 then drop_bit 1 x XOR 0x82f63b78 else drop_bit 1 x)"

definition crc_shift8 :: "u32 \<Rightarrow> u32" where
  "crc_shift8 x =
     crc_shift (crc_shift (crc_shift (crc_shift (crc_shift (crc_shift (crc_shift (crc_shift x)))))))"

definition crc32c_spec :: "u32 \<Rightarrow> bytes \<Rightarrow> u32" where
  "crc32c_spec crc data = foldl (\<lambda>l b. crc_shift8 (l XOR ucast b)) (crc XOR 0xffffffff) data XOR 0xffffffff"

section \<open>Linear tables\<close>

text \<open>
  A table generated from a basis: starting with the entry of 0, each basis element doubles the
  table.  Every table of the source has this form, so its lookup is linear over XOR.
\<close>

fun grow :: "u32 list \<Rightarrow> u32 list \<Rightarrow> u32 list" where
  "grow acc [] = acc"
| "grow acc (b # bs) = grow (acc @ map (\<lambda>x. x XOR b) acc) bs"

definition linear :: "(u32 \<Rightarrow> u32) \<Rightarrow> bool" where
  "linear f \<longleftrightarrow> (\<forall>x y. f (x XOR y) = f x XOR f y)"

lemma linear_0: "linear f \<Longrightarrow> f 0 = 0"
  unfolding linear_def by (metis xor_self_eq)

lemma linear_funpow: "linear f \<Longrightarrow> linear (f ^^ n)"
  by (induction n) (auto simp: linear_def)

lemma of_nat_xor_exp:
  assumes "i < 2 ^ k"
  shows "(word_of_nat (2 ^ k + i) :: u32) = word_of_nat i XOR 2 ^ k"
proof -
  have "\<not> bit i k" using assms by (metis bit_take_bit_iff less_irrefl take_bit_nat_eq_self)
  then have "2 ^ k + i = i XOR 2 ^ k"
    by (subst add.commute) (intro disjunctive_add_eq_xor bit_eqI, auto simp: bit_simps)
  then show ?thesis by (simp only: of_nat_xor_eq of_nat_power of_nat_numeral)
qed

definition tabulate :: "(u32 \<Rightarrow> u32) \<Rightarrow> nat \<Rightarrow> u32 list" where
  "tabulate f k = map (\<lambda>i. f (word_of_nat i)) [0..<2 ^ k]"

lemma tabulate_double:
  assumes "linear f"
  shows "tabulate f (Suc k) = tabulate f k @ map (\<lambda>x. x XOR f (2 ^ k)) (tabulate f k)"
proof (rule nth_equalityI)
  fix i assume "i < length (tabulate f (Suc k))"
  then have i: "i < 2 ^ Suc k" by (simp add: tabulate_def)
  show "tabulate f (Suc k) ! i = (tabulate f k @ map (\<lambda>x. x XOR f (2 ^ k)) (tabulate f k)) ! i"
  proof (cases "i < 2 ^ k")
    case True
    then show ?thesis using i by (simp add: tabulate_def nth_append)
  next
    case False
    then obtain j where j: "i = 2 ^ k + j" using le_Suc_ex not_less by blast
    with i have "j < 2 ^ k" by simp
    then show ?thesis using i of_nat_xor_exp[of j k] assms unfolding j
      by (simp add: tabulate_def nth_append linear_def del: of_nat_add)
  qed
qed (simp add: tabulate_def)

lemma grow_tabulate:
  assumes "linear f"
  shows "grow (tabulate f m) (map (\<lambda>k. f (2 ^ k)) [m..<m + n]) = tabulate f (m + n)"
proof (induction n arbitrary: m)
  case (Suc n)
  have "[m..<m + Suc n] = m # [Suc m..<Suc m + n]" by (simp add: upt_conv_Cons)
  then show ?case using Suc.IH[of "Suc m"] by (simp only: list.map grow.simps tabulate_double[OF assms, symmetric]) simp
qed simp

lemma table_lookup:
  assumes "linear f"
    and "t = grow [0] [f 1, f 2, f 4, f 8, f 16, f 32, f 64, f 128]"
    and "unat c < 256"
  shows "t ! unat c = f c"
proof -
  have "[f 1, f 2, f 4, f 8, f 16, f 32, f 64, f 128] = map (\<lambda>k. f (2 ^ k)) [0..<8]"
    by (simp add: upt_rec)
  moreover have "tabulate f 0 = [0]" by (simp add: tabulate_def linear_0[OF assms(1)])
  ultimately have "t = tabulate f 8"
    using grow_tabulate[OF assms(1), of 0 8] assms(2) by simp
  then show ?thesis using assms(3) by (simp add: tabulate_def)
qed

lemma linear_crc_shift: "linear crc_shift"
  unfolding linear_def crc_shift_def
  by (auto simp: bit_xor_iff drop_bit_xor xor.assoc xor.left_commute xor.commute)

lemma linear_crc_shift8: "linear crc_shift8"
  using linear_crc_shift by (simp add: linear_def crc_shift8_def)

lemma byte_table: "unat c < 256 \<Longrightarrow> kByteExtensionTable ! unat c = crc_shift8 c"
  by (rule table_lookup[OF linear_crc_shift8])
    (simp_all add: kByteExtensionTable_def crc_shift8_def crc_shift_def)

lemma step4w_round_bits: "step4w_round w = drop_bit 8 w XOR crc_shift8 (take_bit 8 w)"
proof -
  have "unat (take_bit 8 w) < 256"
    using take_bit_nat_less_exp[of 8 "unat w"] by (simp add: unsigned_take_bit_eq)
  then show ?thesis by (simp add: step4w_round_def byte_table)
qed

lemma linear_round: "linear step4w_round"
  using linear_crc_shift8
  by (simp add: linear_def step4w_round_bits xor.assoc xor.left_commute xor.commute)

definition round4 :: "u32 \<Rightarrow> u32" where
  "round4 x = step4w_round (step4w_round (step4w_round (step4w_round x)))"

lemma linear_round4: "linear round4"
  using linear_round by (simp add: linear_def round4_def)


text \<open>
  The effect of 13 zero bytes; the four stride tables tabulate it and one, two and three more.
\<close>

definition zeros13 :: "u32 \<Rightarrow> u32" where
  "zeros13 x = round4 (round4 (round4 (step4w_round x)))"

definition zeros14 :: "u32 \<Rightarrow> u32" where
  "zeros14 x = step4w_round (zeros13 x)"

definition zeros15 :: "u32 \<Rightarrow> u32" where
  "zeros15 x = step4w_round (zeros14 x)"

definition zeros16 :: "u32 \<Rightarrow> u32" where
  "zeros16 x = step4w_round (zeros15 x)"

lemma linear_zeros: "linear zeros13" "linear zeros14" "linear zeros15" "linear zeros16"
  using linear_round4 linear_round
  by (simp_all add: linear_def zeros13_def zeros14_def zeros15_def zeros16_def)

lemmas bit_eval = step4w_round_bits crc_shift8_def crc_shift_def

lemma zeros13_basis:
  "zeros13 1 = 0x30d23865" "zeros13 2 = 0x61a470ca" "zeros13 4 = 0xc348e194" "zeros13 8 = 0x837db5d9" "zeros13 16 = 0x03171d43" "zeros13 32 = 0x062e3a86" "zeros13 64 = 0x0c5c750c" "zeros13 128 = 0x18b8ea18"
  by (simp_all add: zeros13_def round4_def bit_eval)

lemma stride_tables:
  assumes "unat c < 256"
  shows "kStrideExtensionTable0 ! unat c = zeros13 c"
    and "kStrideExtensionTable1 ! unat c = zeros14 c"
    and "kStrideExtensionTable2 ! unat c = zeros15 c"
    and "kStrideExtensionTable3 ! unat c = zeros16 c"
proof -
  show "kStrideExtensionTable0 ! unat c = zeros13 c"
    by (rule table_lookup[OF linear_zeros(1) _ assms])
      (simp add: kStrideExtensionTable0_def zeros13_basis)
  show "kStrideExtensionTable1 ! unat c = zeros14 c"
    by (rule table_lookup[OF linear_zeros(2) _ assms])
      (simp add: kStrideExtensionTable1_def zeros14_def zeros13_basis bit_eval)
  show "kStrideExtensionTable2 ! unat c = zeros15 c"
    by (rule table_lookup[OF linear_zeros(3) _ assms])
      (simp add: kStrideExtensionTable2_def zeros15_def zeros14_def zeros13_basis bit_eval)
  show "kStrideExtensionTable3 ! unat c = zeros16 c"
    by (rule table_lookup[OF linear_zeros(4) _ assms])
      (simp add: kStrideExtensionTable3_def zeros16_def zeros15_def zeros14_def zeros13_basis bit_eval)
qed

section \<open>One stride and one word\<close>

lemma unat_take_bit8_less: "unat (take_bit 8 (w :: u32)) < 256"
  using take_bit_nat_less_exp[of 8 "unat w"] by (simp add: unsigned_take_bit_eq)

lemma round_push: "step4w_round (push_bit 8 x) = take_bit 24 x" for x :: u32
proof -
  have "drop_bit 8 (push_bit 8 x) = take_bit 24 x"
    by (rule bit_word_eqI) (auto simp: bit_simps)
  moreover have "take_bit 8 (push_bit 8 x) = 0"
    by (rule bit_word_eqI) (auto simp: bit_simps)
  ultimately show ?thesis using linear_0[OF linear_crc_shift8] by (simp add: step4w_round_bits)
qed

lemma bytes_of_word:
  "(w :: u32) = take_bit 8 w XOR push_bit 8 (take_bit 8 (drop_bit 8 w))
     XOR push_bit 16 (take_bit 8 (drop_bit 16 w)) XOR push_bit 24 (drop_bit 24 w)"
  by (rule bit_word_eqI) (auto simp: bit_simps)

lemmas round_linear = linear_round[unfolded linear_def, rule_format]
lemmas round4_linear = linear_round4[unfolded linear_def, rule_format]
lemmas zeros16_linear = linear_zeros(4)[unfolded linear_def, rule_format]

lemma zeros16_shift: "zeros16 x = zeros15 (step4w_round x)" "zeros15 x = zeros14 (step4w_round x)"
  "zeros14 x = zeros13 (step4w_round x)"
  by (simp_all add: zeros16_def zeros15_def zeros14_def zeros13_def round4_def)

lemma round_push_byte:
  "step4w_round (push_bit 8 (take_bit 8 x)) = take_bit 8 x"
  "step4w_round (push_bit 16 (take_bit 8 x)) = push_bit 8 (take_bit 8 x)"
  "step4w_round (push_bit 24 (take_bit 8 x)) = push_bit 16 (take_bit 8 x)"
proof -
  have *: "push_bit 16 y = push_bit 8 (push_bit 8 y)" "push_bit 24 y = push_bit 8 (push_bit 16 y)" for y :: u32
    by simp_all
  have "take_bit 24 (take_bit 8 x) = take_bit 8 x"
    "take_bit 24 (push_bit 8 (take_bit 8 x)) = push_bit 8 (take_bit 8 x)"
    "take_bit 24 (push_bit 16 (take_bit 8 x)) = push_bit 16 (take_bit 8 x)"
    by (rule bit_word_eqI, auto simp: bit_simps)+
  then show "step4w_round (push_bit 8 (take_bit 8 x)) = take_bit 8 x"
    "step4w_round (push_bit 16 (take_bit 8 x)) = push_bit 8 (take_bit 8 x)"
    "step4w_round (push_bit 24 (take_bit 8 x)) = push_bit 16 (take_bit 8 x)"
    unfolding * by (simp_all only: round_push)
qed

lemma step4_zeros: "step4 w crc = w XOR zeros16 crc"
proof -
  let ?b = "\<lambda>k. take_bit 8 (drop_bit k crc)"
  have d24: "drop_bit 24 crc = ?b 24"
    by (rule bit_word_eqI) (auto simp: bit_simps dest: bit_imp_le_length)
  have "zeros16 crc = zeros16 (take_bit 8 crc) XOR zeros16 (push_bit 8 (?b 8))
      XOR zeros16 (push_bit 16 (?b 16)) XOR zeros16 (push_bit 24 (?b 24))"
    unfolding d24[symmetric] by (subst bytes_of_word[of crc]) (simp only: zeros16_linear)
  also have "\<dots> = zeros16 (take_bit 8 crc) XOR zeros15 (?b 8) XOR zeros14 (?b 16) XOR zeros13 (drop_bit 24 crc)"
    by (simp only: zeros16_shift round_push_byte, simp only: d24[symmetric])
  finally have split: "zeros16 crc = \<dots>" .
  have "unat (drop_bit 24 crc) < 256" using drop_bit_less[of crc 8 24] by simp
  then show ?thesis
    using stride_tables[OF unat_take_bit8_less] by (simp add: step4_def stride_tables split xor.assoc)
qed

lemma step1_round: "step1 l b = step4w_round (l XOR ucast b)"
proof -
  have "drop_bit 8 (ucast b :: u32) = 0" "take_bit 8 (ucast b :: u32) = ucast b"
    by (rule bit_word_eqI, auto simp: bit_simps dest: bit_imp_le_length)+
  then show ?thesis by (simp add: step1_def step4w_round_def xor.commute)
qed

lemma read_uint32_le_xor:
  "read_uint32_le (b0 # b1 # b2 # b3 # r) =
     ucast b0 XOR push_bit 8 (ucast b1) XOR push_bit 16 (ucast b2) XOR push_bit 24 (ucast b3)"
  unfolding read_uint32_le_def
  by (rule bit_word_eqI) (auto simp: bit_simps dest: bit_imp_le_length)

lemma four_steps:
  assumes "4 \<le> length p"
  shows "foldl step1 l (take 4 p) = round4 (l XOR read_uint32_le p)"
proof -
  obtain b0 b1 b2 b3 r where p: "p = b0 # b1 # b2 # b3 # r"
    using assms by (auto simp: numeral_eq_Suc Suc_le_length_iff)
  have byte: "(ucast b :: u32) = take_bit 8 (ucast b)" for b :: byte
    by (rule bit_word_eqI) (auto simp: bit_simps dest: bit_imp_le_length)
  have "step4w_round (push_bit 8 (ucast b)) = ucast b"
    "step4w_round (push_bit 16 (ucast b)) = push_bit 8 (ucast b)"
    "step4w_round (push_bit 24 (ucast b)) = push_bit 16 (ucast b)" for b :: byte
    using round_push_byte[of "ucast b"] by (simp_all only: byte[symmetric])
  then show ?thesis
    by (simp add: p read_uint32_le_xor step1_round round4_def round_linear xor.assoc)
qed

section \<open>The strided algorithm computes the byte-wise CRC\<close>

lemma zeros16_round4: "zeros16 x = round4 (round4 (round4 (round4 x)))"
  by (simp add: zeros16_shift zeros13_def round4_def)

lemma combine_linear:
  "combine (crc0, crc1, crc2, crc3) =
     round4 (round4 (round4 (round4 crc0))) XOR round4 (round4 (round4 crc1))
       XOR round4 (round4 crc2) XOR round4 crc3"
proof -
  have "step4w w l = round4 w XOR round4 l" for w l
    by (simp add: step4w_def round_linear round4_def eval_nat_numeral)
  moreover have "round4 0 = 0" by (rule linear_0[OF linear_round4])
  ultimately show ?thesis
    by (simp add: combine_def round4_linear xor.assoc xor.commute xor.left_commute)
qed

lemma sixteen_steps:
  assumes "16 \<le> length p"
  shows "foldl step1 l (take 16 p) =
    combine (read_uint32_le p XOR l, read_uint32_le (drop 4 p),
             read_uint32_le (drop 8 p), read_uint32_le (drop 12 p))"
proof -
  have "take 16 p = take 4 p @ take 4 (drop 4 p) @ take 4 (drop 8 p) @ take 4 (drop 12 p)"
    using take_add[of 4 12 p] take_add[of 4 8 "drop 4 p"] take_add[of 4 4 "drop 8 p"] by simp
  then show ?thesis using assms
    by (simp add: four_steps combine_linear round4_linear xor.assoc xor.commute xor.left_commute)
qed

lemma combine_step16:
  assumes "16 \<le> length p"
  shows "combine (step16 p s) = foldl step1 (combine s) (take 16 p)"
proof -
  obtain crc0 crc1 crc2 crc3 where s: "s = (crc0, crc1, crc2, crc3)" by (cases s)
  show ?thesis unfolding sixteen_steps[OF assms] s step16.simps combine_linear step4_zeros
    by (simp add: zeros16_round4 round4_linear xor.assoc xor.commute xor.left_commute)
qed

lemma combine_word:
  assumes "4 \<le> length p"
  shows "combine (crc1, crc2, crc3, step4 (read_uint32_le p) crc0) =
    foldl step1 (combine (crc0, crc1, crc2, crc3)) (take 4 p)"
  unfolding four_steps[OF assms] combine_linear step4_zeros
  by (simp add: zeros16_round4 round4_linear xor.assoc xor.commute xor.left_commute)

lemma foldl_take_drop: "foldl f (foldl f a (take n p)) (drop n p) = foldl f a p"
  by (simp flip: foldl_append)

lemma swaths_run: "swaths p s = (s', p') \<Longrightarrow> foldl step1 (combine s') p' = foldl step1 (combine s) p"
proof (induction p s rule: swaths.induct)
  case (1 p s)
  show ?case
  proof (cases "16 \<le> length p")
    case True
    then have "swaths (drop 16 p) (step16 p s) = (s', p')" using "1.prems" by (simp add: swaths.simps[of p])
    from "1.IH"[OF True this] True show ?thesis by (simp add: combine_step16 foldl_take_drop)
  qed (use "1.prems" in \<open>simp add: swaths.simps[of p]\<close>)
qed

lemma words_run: "words p s = (s', p') \<Longrightarrow> foldl step1 (combine s') p' = foldl step1 (combine s) p"
proof (induction p s rule: words.induct)
  case (1 p crc0 crc1 crc2 crc3)
  show ?case
  proof (cases "4 \<le> length p")
    case True
    then have "words (drop 4 p) (crc1, crc2, crc3, step4 (read_uint32_le p) crc0) = (s', p')"
      using "1.prems" by (simp add: words.simps[of p])
    from "1.IH"[OF True this] True show ?thesis by (simp add: combine_word foldl_take_drop)
  qed (use "1.prems" in \<open>simp add: words.simps[of p]\<close>)
qed

lemma strided_run: "strided l p = (l', p') \<Longrightarrow> foldl step1 l' p' = foldl step1 l p"
  by (auto simp: strided_def Let_def words_run swaths_run sixteen_steps[symmetric] foldl_take_drop
      split: if_splits prod.splits)

lemma extend_tables_bytewise:
  "extend_tables p crc data = foldl step1 (crc XOR kCRC32Xor) data XOR kCRC32Xor"
  by (auto simp: extend_tables_def Let_def strided_run foldl_take_drop split: prod.splits)

section \<open>The byte table is eight shifts\<close>

lemma crc_shift_push:
  assumes "j = k + 1" "k < 8"
  shows "crc_shift (push_bit j (take_bit 24 z)) = push_bit k (take_bit 24 z)"
proof -
  have "drop_bit 1 (push_bit j (take_bit 24 z)) = push_bit k (take_bit 24 z)"
  proof (rule bit_word_eqI)
    fix n
    show "bit (drop_bit 1 (push_bit j (take_bit 24 z))) n = bit (push_bit k (take_bit 24 z)) n"
      using assms by (cases "k \<le> n") (auto simp: bit_push_bit_iff bit_drop_bit_eq bit_take_bit_iff simp del: push_bit_Suc)
  qed
  moreover have "\<not> bit (push_bit j (take_bit 24 z)) 0"
    using assms by (simp add: bit_push_bit_iff del: push_bit_Suc)
  ultimately show ?thesis by (simp add: crc_shift_def)
qed

lemma crc_shift8_push: "crc_shift8 (push_bit 8 (take_bit 24 z)) = take_bit 24 z"
proof -
  have "crc_shift (push_bit 8 (take_bit 24 z)) = push_bit 7 (take_bit 24 z)"
    "crc_shift (push_bit 7 (take_bit 24 z)) = push_bit 6 (take_bit 24 z)"
    "crc_shift (push_bit 6 (take_bit 24 z)) = push_bit 5 (take_bit 24 z)"
    "crc_shift (push_bit 5 (take_bit 24 z)) = push_bit 4 (take_bit 24 z)"
    "crc_shift (push_bit 4 (take_bit 24 z)) = push_bit 3 (take_bit 24 z)"
    "crc_shift (push_bit 3 (take_bit 24 z)) = push_bit 2 (take_bit 24 z)"
    "crc_shift (push_bit 2 (take_bit 24 z)) = push_bit 1 (take_bit 24 z)"
    "crc_shift (push_bit 1 (take_bit 24 z)) = push_bit 0 (take_bit 24 z)"
    by (rule crc_shift_push; simp)+
  then show ?thesis by (simp only: crc_shift8_def push_bit_0_id id_apply)
qed

lemma round_shift8: "step4w_round x = crc_shift8 x"
proof -
  have "x = push_bit 8 (take_bit 24 (drop_bit 8 x)) XOR take_bit 8 x"
    by (rule bit_word_eqI) (auto simp: bit_simps dest: bit_imp_le_length)
  then have "crc_shift8 x = crc_shift8 (push_bit 8 (take_bit 24 (drop_bit 8 x))) XOR crc_shift8 (take_bit 8 x)"
    using linear_crc_shift8 unfolding linear_def by metis
  also have "\<dots> = take_bit 24 (drop_bit 8 x) XOR crc_shift8 (take_bit 8 x)"
    by (simp only: crc_shift8_push)
  also have "take_bit 24 (drop_bit 8 x) = drop_bit 8 x"
    by (rule bit_word_eqI) (auto simp: bit_simps dest: bit_imp_le_length)
  finally show ?thesis by (simp add: step4w_round_bits)
qed

lemma extend_tables_spec: "extend_tables p crc data = crc32c_spec crc data"
  by (simp add: extend_tables_bytewise crc32c_spec_def kCRC32Xor_def step1_round [abs_def]
      round_shift8)

lemma cannot_accelerate [simp]: "\<not> can_accelerate_crc32c None"
  by (simp add: can_accelerate_crc32c_def accelerated_crc32c_def)

lemma crc_pieces: "crc_extend None p (crc_value None q a) b = crc_value None r (a @ b)"
  by (simp add: crc_extend_def crc_value_def extend_tables_bytewise xor.assoc)

lemma rotate_back:
  fixes x :: u32
  assumes "k + m = 32"
  shows "drop_bit m (drop_bit k x OR push_bit m x) OR push_bit k (drop_bit k x OR push_bit m x) = x"
proof (rule bit_word_eqI)
  fix n assume "n < LENGTH(32)"
  then show "bit (drop_bit m (drop_bit k x OR push_bit m x) OR push_bit k (drop_bit k x OR push_bit m x)) n
      = bit x n"
    using assms by (cases "k \<le> n") (auto simp: bit_simps dest: bit_imp_le_length)
qed

lemma unmask_mask: "crc_unmask (crc_mask crc) = crc"
  using rotate_back [of 15 17 crc] by (simp add: crc_mask_def crc_unmask_def Let_def)

lemma mask_unmask: "crc_mask (crc_unmask masked) = masked"
  using rotate_back [of 17 15 "masked - kMaskDelta"] by (simp add: crc_mask_def crc_unmask_def Let_def)

section \<open>Properties\<close>

text \<open>
  C27. In the configuration the repository builds, the strided, table-driven \<open>Extend\<close> computes
  the bit-serial CRC32C of the data, whatever the alignment of the buffer and whatever the length.
\<close>

theorem crc_extend_is_crc32c: "crc_extend None p crc data = crc32c_spec crc data"
  by (simp add: crc_extend_def extend_tables_spec)

text \<open>
  \<open>Extend\<close> maintains the CRC of a stream: extending the CRC of A by B is the CRC of A
  followed by B, even when the pieces lie at differently aligned addresses.
\<close>

theorem crc_extend_append:
  "crc_extend None p (crc_extend None q (crc_value None r a) b) c = crc_value None s (a @ b @ c)"
  by (simp add: crc_extend_def crc_value_def extend_tables_bytewise xor.assoc)

text \<open>\<open>Mask\<close> and \<open>Unmask\<close> are inverse to each other on all 32-bit values.\<close>

theorem crc_mask_roundtrip:
  "crc_unmask (crc_mask crc) = crc \<and> crc_mask (crc_unmask masked) = masked"
  by (simp add: mask_unmask unmask_mask)

end
