(* ===== verification/Murmur_Hash.thy ===== *)
theory Murmur_Hash
  imports Coding
begin

text \<open>
  \<open>src/util/hash.cc\<close>: the hash of cache keys, a murmur-style loop over four-byte words and a
  fall-through switch over the remaining bytes.
\<close>

definition hash_m :: u32 where
  "hash_m = 0xc6a4a793"

definition hash_word :: "u32 \<Rightarrow> u32 \<Rightarrow> u32" where
  "hash_word h w =
     (let h1 = h + w; h2 = h1 * hash_m in h2 XOR drop_bit 16 h2)"

definition hash_tail :: "u32 \<Rightarrow> bytes \<Rightarrow> u32" where
  "hash_tail h data =
     (let add2 = (\<lambda>h. h + push_bit 16 (ucast (data ! 2)));
          add1 = (\<lambda>h. h + push_bit 8 (ucast (data ! 1)));
          add0 = (\<lambda>h. let h1 = (h + ucast (data ! 0)) * hash_m in h1 XOR drop_bit 24 h1)
      in if length data = 3 then add0 (add1 (add2 h))
         else if length data = 2 then add0 (add1 h)
         else if length data = 1 then add0 h
         else h)"

function hash_loop :: "u32 \<Rightarrow> bytes \<Rightarrow> u32" where
  "hash_loop h data =
     (if 4 \<le> length data
      then hash_loop (hash_word h (the (decode_fixed32 data))) (drop 4 data)
      else hash_tail h data)"
  by pat_completeness auto
termination
  by (relation "measure (\<lambda>(h, data). length data)") auto

declare hash_loop.simps [simp del]

definition Hash :: "bytes \<Rightarrow> u32 \<Rightarrow> u32" where
  "Hash data seed = hash_loop (seed XOR (word_of_nat (length data) * hash_m)) data"

text \<open>The word loop can be cut at any multiple of four bytes.\<close>

lemma hash_loop_append:
  "length xs = 4 * n \<Longrightarrow> \<exists>h'. \<forall>ys. hash_loop h (xs @ ys) = hash_loop h' ys"
proof (induction n arbitrary: h xs)
  case (Suc n)
  then obtain h' where "hash_loop (hash_word h (the (decode_fixed32 xs))) (drop 4 xs @ ys) = hash_loop h' ys" for ys
    using Suc.IH[of "drop 4 xs"] by fastforce
  moreover have "decode_fixed32 (xs @ ys) = decode_fixed32 xs" for ys
  proof -
    have "4 \<le> length xs" using Suc.prems by simp
    then obtain a b c d r where "xs = a # b # c # d # r"
      by (auto simp: numeral_eq_Suc Suc_le_length_iff)
    then show ?thesis by simp
  qed
  ultimately show ?case using Suc.prems by (auto simp: hash_loop.simps[of h])
qed auto

end
