(* ===== verification/Lehmer_Random.thy ===== *)
theory Lehmer_Random
  imports Prelude
begin

text \<open>
  \<open>include/util/random.h\<close>: the pseudo-random generator of the skip list.  The class holds one
  \<open>uint32_t\<close>, so its state is that word; \<open>next\<close> returns the new state.  An \<open>int\<close> argument is
  given by its 32 bits, as the unsigned remainder of the code uses it; a remainder by zero and an
  over-wide shift have no defined result.
\<close>

definition random_ctor :: "u32 \<Rightarrow> u32" where
  "random_ctor s =
     (let seed = s AND 0x7fffffff in if seed = 0 \<or> seed = 2147483647 then 1 else seed)"

definition random_next :: "u32 \<Rightarrow> u32" where
  "random_next seed =
     (let m = (2147483647 :: u32);
          a = (16807 :: u64);
          product = ucast seed * a;
          seed' = (ucast (drop_bit 31 product + (product AND ucast m)) :: u32)
      in if m < seed' then seed' - m else seed')"

definition random_uniform :: "u32 \<Rightarrow> u32 \<Rightarrow> (u32 \<times> u32) option" where
  "random_uniform seed n =
     (let seed' = random_next seed in if n = 0 then None else Some (seed' mod n, seed'))"

definition random_one_in :: "u32 \<Rightarrow> u32 \<Rightarrow> (bool \<times> u32) option" where
  "random_one_in seed n =
     (let seed' = random_next seed in if n = 0 then None else Some (seed' mod n = 0, seed'))"

definition random_skewed :: "u32 \<Rightarrow> u32 \<Rightarrow> (u32 \<times> u32) option" where
  "random_skewed seed max_log =
     (case random_uniform seed (max_log + 1) of
        None \<Rightarrow> None
      | Some (k, seed') \<Rightarrow>
          if unat k < 32 then random_uniform seed' (push_bit (unat k) 1) else None)"

section \<open>The generator multiplies modulo a Mersenne prime\<close>

definition good_seed :: "u32 \<Rightarrow> bool" where
  "good_seed seed \<longleftrightarrow> 0 < unat seed \<and> unat seed < 2147483647"

lemma random_ctor_good: "good_seed (random_ctor s)"
proof -
  have eq: "s AND 0x7fffffff = take_bit 31 s"
    by (simp add: take_bit_eq_mask mask_eq_exp_minus_1)
  have "unat (take_bit 31 s) < 2 ^ 31"
    using take_bit_nat_less_exp [of 31 "unat s"] by (simp add: unsigned_take_bit_eq)
  moreover have "unat (take_bit 31 s) \<noteq> 2147483647" if "take_bit 31 s \<noteq> 2147483647"
    using that word_unat_eq_iff [of "take_bit 31 s" 2147483647] by simp
  moreover have "0 < unat (take_bit 31 s)" if "take_bit 31 s \<noteq> 0"
    using that by (simp add: unat_gt_0)
  ultimately show ?thesis
    unfolding random_ctor_def good_seed_def eq Let_def by fastforce
qed

lemma mersenne_fold:
  fixes p :: nat
  shows "(p div 2147483648 + p mod 2147483648) mod 2147483647 = p mod 2147483647"
proof -
  have "p = (p div 2147483648 + p mod 2147483648) + 2147483647 * (p div 2147483648)"
    using div_mult_mod_eq [of p 2147483648] by linarith
  then show ?thesis by (metis mod_mult_self2)
qed

lemma random_next_lehmer:
  assumes "good_seed seed"
  shows "unat (random_next seed) = 16807 * unat seed mod 2147483647 \<and> good_seed (random_next seed)"
proof -
  let ?p = "16807 * unat seed"
  let ?q = "?p div 2147483648 + ?p mod 2147483648"
  have s: "0 < unat seed" "unat seed < 2147483647" using assms by (auto simp: good_seed_def)
  have prod: "unat (ucast seed * 16807 :: u64) = ?p"
    using s by (simp add: unat_word_ariths)
  have "(ucast seed * 16807 :: u64) AND 2147483647 = take_bit 31 (ucast seed * 16807)"
    by (simp add: take_bit_eq_mask mask_eq_exp_minus_1)
  then have low: "unat ((ucast seed * 16807 :: u64) AND 2147483647) = ?p mod 2147483648"
    by (simp only: unsigned_take_bit_eq prod) (simp add: take_bit_eq_mod)
  have high: "unat (drop_bit 31 (ucast seed * 16807 :: u64)) = ?p div 2147483648"
    using unat_drop_bit [of 31 "ucast seed * 16807 :: u64"] by (simp only: prod) simp
  have q: "?q < 2 * 2147483647" using s by linarith
  have "unat (drop_bit 31 (ucast seed * 16807 :: u64) + ((ucast seed * 16807) AND 2147483647)) = ?q"
    using q by (simp add: unat_word_ariths high low del: and_numerals)
  then have fold: "unat (ucast (drop_bit 31 (ucast seed * 16807 :: u64)
      + ((ucast seed * 16807) AND 2147483647)) :: u32) = ?q"
    using q by (simp add: unsigned_ucast_eq take_bit_nat_eq_self)
  have "\<not> 2147483647 dvd ?p"
  proof
    assume "2147483647 dvd ?p"
    moreover have "coprime (2147483647 :: nat) 16807"
    proof -
      have "coprime (2147483647 :: nat) 7"
        using coprime_mod_left_iff [of "7 :: nat" 2147483647] by simp
      then have "coprime (2147483647 :: nat) (7 ^ 5)" by (simp only: coprime_power_right_iff simp_thms)
      then show ?thesis by simp
    qed
    ultimately have "2147483647 dvd unat seed" by (simp add: coprime_dvd_mult_right_iff)
    then show False using s by (auto dest: dvd_imp_le)
  qed
  then have nz: "?q mod 2147483647 \<noteq> 0" by (simp add: mersenne_fold dvd_eq_mod_eq_0)
  have M: "unat (2147483647 :: u32) = 2147483647" by simp
  show ?thesis
  proof (cases "?q > 2147483647")
    case True
    then have "unat (random_next seed) = ?q - 2147483647"
      unfolding random_next_def Let_def
      by (simp add: word_less_nat_alt fold unat_sub_if' del: and_numerals)
    moreover have "?q - 2147483647 = ?q mod 2147483647"
    proof -
      have "?q mod 2147483647 = (?q - 2147483647) mod 2147483647"
        using True by (intro le_mod_geq) simp
      then show ?thesis using q by (simp only: mod_less less_diff_conv2 True less_imp_le)
    qed
    ultimately show ?thesis using nz by (simp add: good_seed_def mersenne_fold)
  next
    case False
    moreover have "?q \<noteq> 2147483647" using nz by auto
    ultimately have "?q = ?q mod 2147483647" by simp
    moreover have "unat (random_next seed) = ?q" using False
      unfolding random_next_def Let_def
      by (simp add: word_less_nat_alt fold del: and_numerals)
    ultimately show ?thesis using nz by (simp add: good_seed_def mersenne_fold)
  qed
qed


lemma random_stream_good: "good_seed ((random_next ^^ k) (random_ctor s))"
  by (induction k) (auto simp: random_ctor_good random_next_lehmer)

section \<open>Properties\<close>

text \<open>
  Whatever value it is constructed with, the generator runs through the Lehmer sequence: the
  k-th state is the k-th power of 16807 times the first state modulo the Mersenne prime
  2147483647, computed without a division, and it never reaches the absorbing states 0 and
  2147483647.
\<close>

theorem random_stream_lehmer:
  "unat ((random_next ^^ k) (random_ctor s)) = 16807 ^ k * unat (random_ctor s) mod 2147483647
   \<and> good_seed ((random_next ^^ k) (random_ctor s))"
proof (induction k)
  case 0
  then show ?case using random_ctor_good [of s] by (simp add: good_seed_def)
next
  case (Suc k)
  let ?r = "(random_next ^^ k) (random_ctor s)"
  have "unat (random_next ?r) = 16807 * unat ?r mod 2147483647"
    using random_next_lehmer random_stream_good by blast
  also have "\<dots> = 16807 * (16807 ^ k * unat (random_ctor s)) mod 2147483647"
    using Suc by (simp add: mod_mult_right_eq)
  finally show ?case using random_stream_good [of "Suc k" s] by (simp add: mult.assoc)
qed

end
