(* ===== verification/Status.thy ===== *)
theory Status
  imports Coding
begin

text \<open>
  \<open>include/leveldb/status.h\<close> and \<open>src/leveldb/status.cc\<close>.  The other components use the
  abstract \<open>status\<close>: success, or a code with a message.  The class itself stores a null pointer
  for success and otherwise a heap array of four length bytes, a code byte and the message; that
  layout is modelled below it and shown to implement the abstract one.  The four length bytes
  are in the order of a little-endian host.
\<close>

datatype code = kOk | kNotFound | kCorruption | kNotSupported | kInvalidArgument | kIOError

datatype status = Status_Ok | Status_Err code bytes

section \<open>Abstract status\<close>

definition status_message :: "slice \<Rightarrow> slice \<Rightarrow> bytes" where
  "status_message msg msg2 = msg @ (if slice_empty msg2 then [] else cstr '': '' @ msg2)"

definition not_found :: "slice \<Rightarrow> slice \<Rightarrow> status" where
  "not_found msg msg2 = Status_Err kNotFound (status_message msg msg2)"

definition corruption :: "slice \<Rightarrow> slice \<Rightarrow> status" where
  "corruption msg msg2 = Status_Err kCorruption (status_message msg msg2)"

definition not_supported :: "slice \<Rightarrow> slice \<Rightarrow> status" where
  "not_supported msg msg2 = Status_Err kNotSupported (status_message msg msg2)"

definition invalid_argument :: "slice \<Rightarrow> slice \<Rightarrow> status" where
  "invalid_argument msg msg2 = Status_Err kInvalidArgument (status_message msg msg2)"

definition io_error :: "slice \<Rightarrow> slice \<Rightarrow> status" where
  "io_error msg msg2 = Status_Err kIOError (status_message msg msg2)"

fun status_code :: "status \<Rightarrow> code" where
  "status_code Status_Ok = kOk"
| "status_code (Status_Err c m) = c"

definition is_ok :: "status \<Rightarrow> bool" where
  "is_ok s \<longleftrightarrow> s = Status_Ok"

definition is_not_found :: "status \<Rightarrow> bool" where
  "is_not_found s \<longleftrightarrow> status_code s = kNotFound"

definition is_corruption :: "status \<Rightarrow> bool" where
  "is_corruption s \<longleftrightarrow> status_code s = kCorruption"

definition is_io_error :: "status \<Rightarrow> bool" where
  "is_io_error s \<longleftrightarrow> status_code s = kIOError"

definition is_not_supported :: "status \<Rightarrow> bool" where
  "is_not_supported s \<longleftrightarrow> status_code s = kNotSupported"

definition is_invalid_argument :: "status \<Rightarrow> bool" where
  "is_invalid_argument s \<longleftrightarrow> status_code s = kInvalidArgument"

fun type_prefix :: "code \<Rightarrow> bytes" where
  "type_prefix kOk = cstr ''OK''"
| "type_prefix kNotFound = cstr ''NotFound: ''"
| "type_prefix kCorruption = cstr ''Corruption: ''"
| "type_prefix kNotSupported = cstr ''Not Implemented: ''"
| "type_prefix kInvalidArgument = cstr ''Invalid Argument: ''"
| "type_prefix kIOError = cstr ''IO Error: ''"

fun status_to_string :: "status \<Rightarrow> bytes" where
  "status_to_string Status_Ok = cstr ''OK''"
| "status_to_string (Status_Err c m) = type_prefix c @ m"

lemma is_ok_simps [simp]:
  "is_ok Status_Ok" "\<not> is_ok (Status_Err c m)" "\<not> is_ok (corruption a b)" "\<not> is_ok (not_found a b)"
  "\<not> is_ok (not_supported a b)" "\<not> is_ok (invalid_argument a b)" "\<not> is_ok (io_error a b)"
  by (simp_all add: is_ok_def corruption_def not_found_def not_supported_def
      invalid_argument_def io_error_def)

section \<open>The heap representation\<close>

type_synonym status_rep = "bytes option"

fun code_byte :: "code \<Rightarrow> byte" where
  "code_byte kOk = 0"
| "code_byte kNotFound = 1"
| "code_byte kCorruption = 2"
| "code_byte kNotSupported = 3"
| "code_byte kInvalidArgument = 4"
| "code_byte kIOError = 5"

definition byte_code :: "byte \<Rightarrow> code option" where
  "byte_code b =
     (if b = 0 then Some kOk else if b = 1 then Some kNotFound
      else if b = 2 then Some kCorruption else if b = 3 then Some kNotSupported
      else if b = 4 then Some kInvalidArgument else if b = 5 then Some kIOError else None)"

text \<open>
  The constructor computes the array length in 32 bits.  When the true length does not fit an
  \<open>int32_t\<close> the allocation fails or is too short for what is copied into it: \<open>None\<close>.  The
  assertion on the code is the other way to have no result.
\<close>

definition rep_make :: "code \<Rightarrow> slice \<Rightarrow> slice \<Rightarrow> status_rep option" where
  "rep_make c msg msg2 =
     (if c = kOk then None
      else
        (let len1 = (word_of_nat (slice_size msg) :: u32);
             len2 = (word_of_nat (slice_size msg2) :: u32);
             sz = len1 + (if len2 \<noteq> 0 then 2 + len2 else 0)
         in if unat len1 + (if len2 \<noteq> 0 then 2 + unat len2 else 0) + 5 < 2 ^ 31
            then Some (Some (encode_fixed32 sz @ [code_byte c] @ take (unat len1) msg
                   @ (if len2 \<noteq> 0 then cstr '': '' @ take (unat len2) msg2 else [])))
            else None))"

definition copy_state :: "bytes \<Rightarrow> bytes option" where
  "copy_state state =
     (case decode_fixed32 state of
        None \<Rightarrow> None
      | Some sz \<Rightarrow>
          if unat (sz + 5) \<le> length state then Some (take (unat (sz + 5)) state) else None)"

fun rep_code :: "status_rep \<Rightarrow> code option" where
  "rep_code None = Some kOk"
| "rep_code (Some state) = (if 4 < length state then byte_code (state ! 4) else None)"

text \<open>
  In the \<open>default\<close> branch the code formats a message into \<open>tmp\<close> but never points \<open>type\<close> at
  it, so the string is built from an uninitialised pointer: \<open>None\<close>.
\<close>

fun rep_to_string :: "status_rep \<Rightarrow> bytes option" where
  "rep_to_string None = Some (cstr ''OK'')"
| "rep_to_string (Some state) =
     (case rep_code (Some state) of
        None \<Rightarrow> None
      | Some c \<Rightarrow>
          (case decode_fixed32 state of
             None \<Rightarrow> None
           | Some len \<Rightarrow> Some (type_prefix c @ take (unat len) (drop 5 state))))"

lemma byte_code_byte [simp]: "byte_code (code_byte c) = Some c"
  by (cases c) (simp_all add: byte_code_def)

definition status_array :: "code \<Rightarrow> bytes \<Rightarrow> bytes" where
  "status_array c m = encode_fixed32 (word_of_nat (length m)) @ [code_byte c] @ m"

text \<open>Reading and copying the array of a message that fits.\<close>

lemma status_array_reads:
  assumes "length m + 5 < 2 ^ 31"
  shows "rep_code (Some (status_array c m)) = Some c"
    "rep_to_string (Some (status_array c m)) = Some (status_to_string (Status_Err c m))"
    "copy_state (status_array c m) = Some (status_array c m)"
proof -
  let ?n = "word_of_nat (length m) :: u32"
  have n: "unat ?n = length m" "unat (?n + 5) = length m + 5"
    using assms by (simp_all add: unat_of_nat unat_word_ariths take_bit_nat_eq_self)
  show code: "rep_code (Some (status_array c m)) = Some c" by (simp add: status_array_def nth_append)
  then show "rep_to_string (Some (status_array c m)) = Some (status_to_string (Status_Err c m))"
    by (simp add: status_array_def decode_encode_fixed32 n)
  show "copy_state (status_array c m) = Some (status_array c m)"
    by (simp add: status_array_def copy_state_def decode_encode_fixed32 n)
qed

lemma rep_make_layout:
  assumes "c \<noteq> kOk" and "slice_size msg + slice_size msg2 + 7 < 2 ^ 31"
  shows "rep_make c msg msg2 = Some (Some (status_array c (status_message msg msg2)))"
proof -
  have small: "length msg < 2 ^ 32" "length msg2 < 2 ^ 32"
    using assms by (auto simp: slice_size_def)
  then have u: "unat (word_of_nat (length msg) :: u32) = length msg"
    "unat (word_of_nat (length msg2) :: u32) = length msg2"
    by (simp_all add: unat_of_nat take_bit_nat_eq_self)
  then have "(word_of_nat (length msg2) :: u32) = 0 \<longleftrightarrow> msg2 = []"
    by (metis length_0_conv unat_0 unat_eq_0 word_of_nat_eq_0_iff)
  with u assms show ?thesis
    by (simp add: rep_make_def Let_def slice_size_def slice_empty_def status_message_def status_array_def)
qed


section \<open>Properties\<close>

text \<open>
  The heap array implements the abstract status: whenever the message fits, the constructor
  builds an array whose code, text and copy are those of the status it stands for.
\<close>

theorem status_rep_implements:
  assumes "c \<noteq> kOk" and "slice_size msg + slice_size msg2 + 7 < 2 ^ 31"
  shows "\<exists>state. rep_make c msg msg2 = Some (Some state)
    \<and> rep_code (Some state) = Some c
    \<and> rep_to_string (Some state) = Some (status_to_string (Status_Err c (status_message msg msg2)))
    \<and> copy_state state = Some state"
proof -
  have "length (status_message msg msg2) + 5 < 2 ^ 31" using assms(2) by (simp add: status_message_def slice_size_def)
  then show ?thesis using rep_make_layout[OF assms] status_array_reads by blast
qed

theorem status_rep_implements_witness:
  "\<exists>state. rep_make kNotFound (cstr ''db/000007.log'') (cstr ''missing'') = Some (Some state)
    \<and> rep_code (Some state) = Some kNotFound
    \<and> rep_to_string (Some state) = Some (status_to_string
        (Status_Err kNotFound (status_message (cstr ''db/000007.log'') (cstr ''missing''))))
    \<and> copy_state state = Some state"
  by (rule status_rep_implements) (simp_all add: slice_size_def)

end
