(* ===== verification/Status_Memory.thy ===== *)
theory Status_Memory
  imports Status
begin

text \<open>
  The memory of the class \<open>status\<close> (\<open>include/leveldb/status.h\<close>): its constructors, assignments and
  destructor over a heap of arrays and the status objects that are alive.  A status owns the array
  its \<open>state_\<close> points to.  Deleting or reading an array that is not there is \<open>None\<close>.  The address
  \<open>new\<close> returns is an argument; it may be that of an array that has just been deleted.
\<close>

record status_mem =
  arrays :: "nat \<Rightarrow> bytes option"
  objects :: "nat \<Rightarrow> nat option option"

section \<open>Operations\<close>

definition delete_array :: "nat option \<Rightarrow> status_mem \<Rightarrow> status_mem option" where
  "delete_array p m =
     (case p of
        None \<Rightarrow> Some m
      | Some a \<Rightarrow> if arrays m a = None then None else Some (m\<lparr>arrays := (arrays m)(a := None)\<rparr>))"

definition set_state :: "nat \<Rightarrow> nat option \<Rightarrow> status_mem \<Rightarrow> status_mem" where
  "set_state v p m = m\<lparr>objects := (objects m)(v \<mapsto> p)\<rparr>"

text \<open>\<open>state_ = ( rhs.state_ == nullptr ) ? nullptr : copy_state( rhs.state_ )\<close>.\<close>

definition store_copy :: "nat \<Rightarrow> nat option \<Rightarrow> nat \<Rightarrow> status_mem \<Rightarrow> status_mem option" where
  "store_copy v p a m =
     (case p of
        None \<Rightarrow> Some (set_state v None m)
      | Some b \<Rightarrow>
          Option.bind (arrays m b) (\<lambda>state.
          Option.bind (copy_state state) (\<lambda>result.
            Some (set_state v (Some a) (m\<lparr>arrays := (arrays m)(a \<mapsto> result)\<rparr>)))))"

definition status_ctor :: "nat \<Rightarrow> status_mem \<Rightarrow> status_mem option" where
  "status_ctor v m = Some (set_state v None m)"

definition status_make :: "nat \<Rightarrow> code \<Rightarrow> slice \<Rightarrow> slice \<Rightarrow> nat \<Rightarrow> status_mem \<Rightarrow> status_mem option" where
  "status_make v c msg msg2 a m =
     Option.bind (Option.bind (rep_make c msg msg2) id) (\<lambda>state.
       Some (set_state v (Some a) (m\<lparr>arrays := (arrays m)(a \<mapsto> state)\<rparr>)))"

definition status_dtor :: "nat \<Rightarrow> status_mem \<Rightarrow> status_mem option" where
  "status_dtor v m =
     Option.bind (objects m v) (\<lambda>p.
       map_option (\<lambda>m1. m1\<lparr>objects := (objects m1)(v := None)\<rparr>) (delete_array p m))"

definition status_copy :: "nat \<Rightarrow> nat \<Rightarrow> nat \<Rightarrow> status_mem \<Rightarrow> status_mem option" where
  "status_copy v rhs a m = Option.bind (objects m rhs) (\<lambda>p. store_copy v p a m)"

definition status_assign :: "nat \<Rightarrow> nat \<Rightarrow> nat \<Rightarrow> status_mem \<Rightarrow> status_mem option" where
  "status_assign v rhs a m =
     Option.bind (objects m v) (\<lambda>p.
     Option.bind (objects m rhs) (\<lambda>q.
       if p \<noteq> q then Option.bind (delete_array p m) (store_copy v q a) else Some m))"

definition status_move :: "nat \<Rightarrow> nat \<Rightarrow> status_mem \<Rightarrow> status_mem option" where
  "status_move v rhs m =
     Option.bind (objects m rhs) (\<lambda>p. Some (set_state rhs None (set_state v p m)))"

definition status_move_assign :: "nat \<Rightarrow> nat \<Rightarrow> status_mem \<Rightarrow> status_mem option" where
  "status_move_assign v rhs m =
     Option.bind (objects m v) (\<lambda>p.
     Option.bind (objects m rhs) (\<lambda>q. Some (set_state rhs p (set_state v q m))))"

text \<open>The array of an object, for \<open>code\<close> and \<open>to_string\<close>.\<close>

definition object_rep :: "status_mem \<Rightarrow> nat \<Rightarrow> status_rep option" where
  "object_rep m v =
     Option.bind (objects m v) (\<lambda>p. case p of None \<Rightarrow> Some None | Some a \<Rightarrow> map_option Some (arrays m a))"

section \<open>Programs\<close>

datatype status_op =
    Ctor nat
  | Make nat code slice slice nat
  | Dtor nat
  | Copy nat nat nat
  | Assign nat nat nat
  | Move nat nat
  | Move_Assign nat nat

fun status_exec :: "status_op \<Rightarrow> status_mem \<Rightarrow> status_mem option" where
  "status_exec (Ctor v) = status_ctor v"
| "status_exec (Make v c msg msg2 a) = status_make v c msg msg2 a"
| "status_exec (Dtor v) = status_dtor v"
| "status_exec (Copy v w a) = status_copy v w a"
| "status_exec (Assign v w a) = status_assign v w a"
| "status_exec (Move v w) = status_move v w"
| "status_exec (Move_Assign v w) = status_move_assign v w"

text \<open>What they do to the values: a status is a value, and one that was moved from is OK.\<close>

fun value_exec :: "status_op \<Rightarrow> (nat \<Rightarrow> status option) \<Rightarrow> nat \<Rightarrow> status option" where
  "value_exec (Ctor v) vals = vals(v \<mapsto> Status_Ok)"
| "value_exec (Make v c msg msg2 a) vals = vals(v \<mapsto> Status_Err c (status_message msg msg2))"
| "value_exec (Dtor v) vals = vals(v := None)"
| "value_exec (Copy v w a) vals = vals(v := vals w)"
| "value_exec (Assign v w a) vals = vals(v := vals w)"
| "value_exec (Move v w) vals = vals(v := vals w, w \<mapsto> Status_Ok)"
| "value_exec (Move_Assign v w) vals = vals(v := vals w, w := vals v)"

text \<open>
  What the language asks of a program: an object is constructed once before it is used, and \<open>new\<close>
  returns memory that is free when it is called.  The messages fit the \<open>int32_t\<close> of the constructor.
\<close>

fun permitted :: "status_op \<Rightarrow> (nat \<Rightarrow> status option) \<Rightarrow> bool" where
  "permitted (Ctor v) vals \<longleftrightarrow> vals v = None"
| "permitted (Make v c msg msg2 a) vals \<longleftrightarrow> vals v = None \<and> c \<noteq> kOk \<and> slice_size msg + slice_size msg2 + 7 < 2 ^ 31"
| "permitted (Dtor v) vals \<longleftrightarrow> vals v \<noteq> None"
| "permitted (Copy v w a) vals \<longleftrightarrow> vals v = None \<and> vals w \<noteq> None"
| "permitted (Assign v w a) vals \<longleftrightarrow> vals v \<noteq> None \<and> vals w \<noteq> None"
| "permitted (Move v w) vals \<longleftrightarrow> vals v = None \<and> vals w \<noteq> None"
| "permitted (Move_Assign v w) vals \<longleftrightarrow> vals v \<noteq> None \<and> vals w \<noteq> None"

fun new_is_free :: "status_op \<Rightarrow> status_mem \<Rightarrow> bool" where
  "new_is_free (Make v c msg msg2 a) m \<longleftrightarrow> arrays m a = None"
| "new_is_free (Copy v w a) m \<longleftrightarrow> arrays m a = None"
| "new_is_free (Assign v w a) m \<longleftrightarrow> arrays m a = None \<or> objects m v = Some (Some a)"
| "new_is_free _ m \<longleftrightarrow> True"

inductive status_reach :: "status_mem \<Rightarrow> (nat \<Rightarrow> status option) \<Rightarrow> bool" where
  none: "status_reach \<lparr>arrays = \<lambda>_. None, objects = \<lambda>_. None\<rparr> (\<lambda>_. None)"
| run: "status_reach m vals \<Longrightarrow> permitted opn vals \<Longrightarrow> new_is_free opn m \<Longrightarrow> status_exec opn m = Some m' \<Longrightarrow>
    status_reach m' (value_exec opn vals)"

section \<open>Ownership\<close>

definition represents :: "bytes \<Rightarrow> status \<Rightarrow> bool" where
  "represents state s \<longleftrightarrow> (\<exists>c m. s = Status_Err c m \<and> length m + 5 < 2 ^ 31 \<and> state = status_array c m)"

lemma representsD:
  assumes "represents state s"
  shows "rep_code (Some state) = Some (status_code s)" "rep_to_string (Some state) = Some (status_to_string s)"
    "copy_state state = Some state"
proof -
  obtain c m where "s = Status_Err c m" "length m + 5 < 2 ^ 31" "state = status_array c m"
    using assms unfolding represents_def by blast
  then show "rep_code (Some state) = Some (status_code s)" "rep_to_string (Some state) = Some (status_to_string s)"
    "copy_state state = Some state"
    using status_array_reads[of m c] by (simp_all only: status_code.simps)
qed

lemma rep_make_represents:
  assumes "c \<noteq> kOk" and "slice_size msg + slice_size msg2 + 7 < 2 ^ 31"
  shows "\<exists>state. rep_make c msg msg2 = Some (Some state) \<and> represents state (Status_Err c (status_message msg msg2))"
proof -
  have "length (status_message msg msg2) + 5 < 2 ^ 31" using assms(2) by (simp add: status_message_def slice_size_def)
  then show ?thesis using rep_make_layout[OF assms] by (auto simp: represents_def)
qed

definition owns :: "(nat \<Rightarrow> bytes option) \<Rightarrow> nat option \<Rightarrow> status \<Rightarrow> bool" where
  "owns arr p s \<longleftrightarrow> (case p of None \<Rightarrow> s = Status_Ok | Some a \<Rightarrow> \<exists>state. arr a = Some state \<and> represents state s)"

text \<open>Every object has its value in an array of its own, and every array has its object.\<close>

definition holds :: "status_mem \<Rightarrow> (nat \<Rightarrow> status option) \<Rightarrow> bool" where
  "holds m vals \<longleftrightarrow> (\<forall>v. objects m v = None \<longleftrightarrow> vals v = None)
     \<and> (\<forall>v p s. objects m v = Some p \<longrightarrow> vals v = Some s \<longrightarrow> owns (arrays m) p s)
     \<and> (\<forall>v w a. objects m v = Some (Some a) \<longrightarrow> objects m w = Some (Some a) \<longrightarrow> v = w)
     \<and> (\<forall>a. arrays m a \<noteq> None \<longrightarrow> (\<exists>v. objects m v = Some (Some a)))"

lemma holdsD:
  assumes "holds m vals"
  shows "objects m v = None \<longleftrightarrow> vals v = None"
    "objects m v = Some p \<Longrightarrow> vals v = Some s \<Longrightarrow> owns (arrays m) p s"
    "objects m v = Some (Some a) \<Longrightarrow> objects m w = Some (Some a) \<Longrightarrow> v = w"
    "arrays m a \<noteq> None \<Longrightarrow> \<exists>v. objects m v = Some (Some a)"
  using assms unfolding holds_def by blast+

lemma holds_live: "holds m vals \<Longrightarrow> vals v = Some s \<Longrightarrow> \<exists>p. objects m v = Some p \<and> owns (arrays m) p s"
  using holdsD(1,2)[of m vals v] by (cases "objects m v") auto

lemma owns_other: "owns arr p s \<Longrightarrow> (\<And>a. p = Some a \<Longrightarrow> arr' a = arr a) \<Longrightarrow> owns arr' p s"
  by (auto simp: owns_def split: option.splits)

text \<open>Destroying an object frees its array and no other.\<close>

lemma holds_delete:
  assumes h: "holds m vals" and v: "objects m v = Some p"
  shows "\<exists>m1. delete_array p m = Some m1 \<and> objects m1 = objects m
    \<and> arrays m1 = (case p of None \<Rightarrow> arrays m | Some a \<Rightarrow> (arrays m)(a := None))
    \<and> holds (m1\<lparr>objects := (objects m1)(v := None)\<rparr>) (vals(v := None))"
proof (cases p)
  case None
  have "holds (m\<lparr>objects := (objects m)(v := None)\<rparr>) (vals(v := None))"
    unfolding holds_def
  proof (intro conjI allI impI, goal_cases)
    case (4 b)
    then obtain w where "objects m w = Some (Some b)" using holdsD(4)[OF h, of b] by auto
    then show ?case using v None by (intro exI[of _ w]) auto
  qed (use holdsD(1,2,3)[OF h] in \<open>auto split: if_splits\<close>)
  then show ?thesis using None by (simp add: delete_array_def)
next
  case (Some a)
  obtain s where s: "vals v = Some s" using holdsD(1)[OF h, of v] v by auto
  have "arrays m a \<noteq> None" using holdsD(2)[OF h v s] Some by (auto simp: owns_def)
  then have d: "delete_array p m = Some (m\<lparr>arrays := (arrays m)(a := None)\<rparr>)" using Some by (simp add: delete_array_def)
  have "holds (m\<lparr>arrays := (arrays m)(a := None), objects := (objects m)(v := None)\<rparr>) (vals(v := None))"
    unfolding holds_def
  proof (intro conjI allI impI, goal_cases)
    case (2 w q t)
    then have w: "w \<noteq> v" "objects m w = Some q" "vals w = Some t" by (auto split: if_splits)
    then have "q \<noteq> Some a" using holdsD(3)[OF h, of w a v] v Some by auto
    then show ?case by (intro owns_other[OF holdsD(2)[OF h w(2,3)]]) auto
  next
    case (4 b)
    then have b: "b \<noteq> a" "arrays m b \<noteq> None" by (auto split: if_splits)
    then obtain w where "objects m w = Some (Some b)" using holdsD(4)[OF h] by blast
    then show ?case using b(1) v Some by (intro exI[of _ w]) auto
  qed (use holdsD(1,3)[OF h] in \<open>auto split: if_splits\<close>)
  then show ?thesis using d Some by simp
qed

lemma holds_null:
  assumes h: "holds m vals" and v: "objects m v = None"
  shows "holds (set_state v None m) (vals(v \<mapsto> Status_Ok))"
  unfolding holds_def set_state_def
proof (intro conjI allI impI, goal_cases)
  case (2 w q t)
  then show ?case using holdsD(2)[OF h, of w q t] by (auto simp: owns_def split: if_splits)
next
  case (4 b)
  then obtain w where "objects m w = Some (Some b)" using holdsD(4)[OF h] by auto
  then show ?case using v by (intro exI[of _ w]) auto
qed (use holdsD(1,3)[OF h] in \<open>auto split: if_splits\<close>)

lemma holds_new:
  assumes h: "holds m vals" and v: "objects m v = None" and a: "arrays m a = None" and r: "represents state s"
  shows "holds (set_state v (Some a) (m\<lparr>arrays := (arrays m)(a \<mapsto> state)\<rparr>)) (vals(v \<mapsto> s))"
proof -
  have other: "objects m w \<noteq> Some (Some a)" for w
  proof
    assume w: "objects m w = Some (Some a)"
    then obtain t where "vals w = Some t" using holdsD(1)[OF h, of w] by auto
    from holdsD(2)[OF h w this] a show False by (simp add: owns_def)
  qed
  show ?thesis
    unfolding holds_def set_state_def
  proof (intro conjI allI impI, goal_cases)
    case (2 w q t)
    show ?case
    proof (cases "w = v")
      case True
      then show ?thesis using 2 r by (auto simp: owns_def)
    next
      case False
      then have w: "objects m w = Some q" "vals w = Some t" using 2 by simp_all
      then show ?thesis using other by (intro owns_other[OF holdsD(2)[OF h w]]) auto
    qed
  next
    case (3 w u b)
    then show ?case using holdsD(3)[OF h, of w b u] other by (auto split: if_splits)
  next
    case (4 b)
    show ?case
    proof (cases "b = a")
      case False
      then obtain w where "objects m w = Some (Some b)" using holdsD(4)[OF h, of b] 4 by auto
      then show ?thesis using v by (intro exI[of _ w]) auto
    qed auto
  qed (use holdsD(1)[OF h] in \<open>auto split: if_splits\<close>)
qed

lemma store_copy_holds:
  assumes h: "holds m vals" and v: "objects m v = None" and a: "arrays m a = None" and q: "owns (arrays m) q s"
  shows "\<exists>m'. store_copy v q a m = Some m' \<and> holds m' (vals(v \<mapsto> s))"
proof (cases q)
  case None
  then show ?thesis using holds_null[OF h v] q by (simp add: store_copy_def owns_def)
next
  case (Some b)
  then obtain state where st: "arrays m b = Some state" "represents state s" using q by (auto simp: owns_def)
  then show ?thesis using holds_new[OF h v a st(2)] representsD(3)[OF st(2)] Some by (simp add: store_copy_def)
qed

text \<open>Exchanging the arrays of two objects.\<close>

lemma holds_permute:
  assumes h: "holds m vals" and f: "\<And>v. f (f v) = v"
  shows "holds (m\<lparr>objects := \<lambda>v. objects m (f v)\<rparr>) (\<lambda>v. vals (f v))"
  unfolding holds_def
proof (intro conjI allI impI, goal_cases)
  case (3 v w a)
  then have "f v = f w" using holdsD(3)[OF h] by auto
  then show ?case using f by metis
next
  case (4 a)
  then obtain v where "objects m v = Some (Some a)" using holdsD(4)[OF h, of a] by auto
  then show ?case using f[of v] by (intro exI[of _ "f v"]) simp
qed (use holdsD(1,2)[OF h] in auto)

lemma holds_swap:
  assumes h: "holds m vals" and v: "objects m v = Some p" and w: "objects m w = Some q"
  shows "holds (set_state w p (set_state v q m)) (vals(v := vals w, w := vals v))"
proof -
  let ?f = "\<lambda>x. if x = v then w else if x = w then v else x"
  have "(\<lambda>x. objects m (?f x)) = (objects m)(v \<mapsto> q, w \<mapsto> p)" "(\<lambda>x. vals (?f x)) = vals(v := vals w, w := vals v)"
    using v w by (auto simp: fun_eq_iff)
  then show ?thesis using holds_permute[OF h, of ?f] by (auto simp: set_state_def)
qed

lemma set_state_dead: "set_state v p (m\<lparr>objects := (objects m)(v := None)\<rparr>) = set_state v p m"
  by (simp add: set_state_def)

lemma store_copy_dead: "store_copy v q a (m\<lparr>objects := (objects m)(v := None)\<rparr>) = store_copy v q a m"
  by (auto simp: store_copy_def set_state_def split: option.split Option.bind_split)

lemma assign_holds:
  assumes h: "holds m vals" and live: "vals v \<noteq> None" "vals w \<noteq> None"
    and a: "arrays m a = None \<or> objects m v = Some (Some a)"
  shows "\<exists>m'. status_assign v w a m = Some m' \<and> holds m' (vals(v := vals w))"
proof -
  obtain s t where st: "vals v = Some s" "vals w = Some t" using live by auto
  obtain p q where p: "objects m v = Some p" "owns (arrays m) p s" and q: "objects m w = Some q" "owns (arrays m) q t"
    using holds_live[OF h st(1)] holds_live[OF h st(2)] by auto
  show ?thesis
  proof (cases "p = q")
    case True
    have "s = t"
    proof (cases p)
      case None
      then show ?thesis using p(2) q(2) True by (simp add: owns_def)
    next
      case (Some b)
      then have "v = w" using holdsD(3)[OF h] p(1) q(1) True by blast
      then show ?thesis using st by simp
    qed
    then have "vals(v := vals w) = vals" using st by auto
    then show ?thesis using p(1) q(1) True h by (simp add: status_assign_def)
  next
    case False
    obtain m1 where m1: "delete_array p m = Some m1" "objects m1 = objects m"
      "arrays m1 = (case p of None \<Rightarrow> arrays m | Some a \<Rightarrow> (arrays m)(a := None))"
      "holds (m1\<lparr>objects := (objects m1)(v := None)\<rparr>) (vals(v := None))" using holds_delete[OF h p(1)] by blast
    have "arrays m1 a = None" using a p(1) m1(3) by (auto split: option.split)
    moreover have "owns (arrays m1) q t"
      by (rule owns_other[OF q(2)]) (use m1(3) False in \<open>auto split: option.split\<close>)
    ultimately obtain m' where "store_copy v q a m1 = Some m'" "holds m' (vals(v \<mapsto> t))"
      using store_copy_holds[OF m1(4), of v a q t] by (auto simp: store_copy_dead)
    then show ?thesis using p(1) q(1) False m1(1) st(2) by (simp add: status_assign_def)
  qed
qed

lemma step_holds:
  assumes h: "holds m vals" and ok: "permitted opn vals" "new_is_free opn m"
  shows "\<exists>m'. status_exec opn m = Some m' \<and> holds m' (value_exec opn vals)"
proof (cases opn)
  case (Ctor v)
  then show ?thesis using holds_null[OF h, of v] ok holdsD(1)[OF h, of v] by (simp add: status_ctor_def)
next
  case (Make v c msg msg2 a)
  then obtain state where st: "rep_make c msg msg2 = Some (Some state)" "represents state (Status_Err c (status_message msg msg2))"
    using rep_make_represents[of c msg msg2] ok(1) by auto
  then show ?thesis using holds_new[OF h _ _ st(2), of v a] ok holdsD(1)[OF h, of v] Make by (simp add: status_make_def)
next
  case (Dtor v)
  then obtain p where p: "objects m v = Some p" using ok(1) holdsD(1)[OF h, of v] by auto
  then show ?thesis using holds_delete[OF h p] Dtor by (auto simp: status_dtor_def)
next
  case (Copy v w a)
  then obtain s where s: "vals w = Some s" using ok(1) by auto
  obtain q where q: "objects m w = Some q" "owns (arrays m) q s" using holds_live[OF h s] by auto
  have "objects m v = None" "arrays m a = None" using ok Copy holdsD(1)[OF h, of v] by simp_all
  from store_copy_holds[OF h this q(2)] show ?thesis using Copy q(1) s by (simp add: status_copy_def)
next
  case (Assign v w a)
  then show ?thesis using assign_holds[OF h, of v w a] ok by simp
next
  case (Move v w)
  then have v: "objects m v = None" "v \<noteq> w" using ok(1) holdsD(1)[OF h, of v] by auto
  obtain p where p: "objects m w = Some p" using ok(1) Move holdsD(1)[OF h, of w] by auto
  have "objects (set_state v None m) v = Some None" "objects (set_state v None m) w = Some p"
    using p v(2) by (simp_all add: set_state_def)
  from holds_swap[OF holds_null[OF h v(1)] this]
  have "holds (set_state w None (set_state v p m)) (vals(v := vals w, w \<mapsto> Status_Ok))"
    using v(2) by (simp add: set_state_def)
  then show ?thesis using Move p by (simp add: status_move_def)
next
  case (Move_Assign v w)
  then obtain p q where "objects m v = Some p" "objects m w = Some q"
    using ok(1) holdsD(1)[OF h, of v] holdsD(1)[OF h, of w] by auto
  then show ?thesis using holds_swap[OF h] Move_Assign by (simp add: status_move_assign_def)
qed

lemma reach_holds: "status_reach m vals \<Longrightarrow> holds m vals"
proof (induction rule: status_reach.induct)
  case none
  show ?case by (simp add: holds_def)
next
  case (run m vals opn m')
  then show ?case using step_holds[OF run.IH run.hyps(2,3)] by auto
qed

section \<open>Properties\<close>

text \<open>
  C26. A status is a value.  Whatever sequence of constructions, copies, moves, assignments (also to
  itself) and destructions a program makes, the next one neither reads nor deletes an array that is
  not there and does to the values what it says; code and text of every object are those of its
  value; and when all objects are destroyed no array is left.
\<close>

theorem status_owns_its_memory:
  assumes "status_reach m vals"
  shows "(\<forall>opn. permitted opn vals \<longrightarrow> new_is_free opn m \<longrightarrow>
      (\<exists>m'. status_exec opn m = Some m' \<and> status_reach m' (value_exec opn vals)))
    \<and> (\<forall>v s. vals v = Some s \<longrightarrow> Option.bind (object_rep m v) rep_code = Some (status_code s)
          \<and> Option.bind (object_rep m v) rep_to_string = Some (status_to_string s))
    \<and> ((\<forall>v. vals v = None) \<longrightarrow> (\<forall>a. arrays m a = None))"
proof (intro conjI allI impI)
  have h: "holds m vals" by (rule reach_holds[OF assms])
  show "\<exists>m'. status_exec opn m = Some m' \<and> status_reach m' (value_exec opn vals)"
    if "permitted opn vals" "new_is_free opn m" for opn
    using step_holds[OF h that] status_reach.run[OF assms that] by blast
  show "Option.bind (object_rep m v) rep_code = Some (status_code s)"
    "Option.bind (object_rep m v) rep_to_string = Some (status_to_string s)" if s: "vals v = Some s" for v s
  proof -
    obtain p where "objects m v = Some p" "owns (arrays m) p s" using holds_live[OF h s] by blast
    then show "Option.bind (object_rep m v) rep_code = Some (status_code s)"
      "Option.bind (object_rep m v) rep_to_string = Some (status_to_string s)"
      by (auto simp: object_rep_def owns_def representsD simp del: rep_code.simps(2) rep_to_string.simps(2) split: option.splits)
  qed
  show "arrays m a = None" if "\<forall>v. vals v = None" for a
    using holdsD(1,4)[OF h] that by fastforce
qed

lemma one_status_reach:
  "status_reach \<lparr>arrays = [5 \<mapsto> status_array kNotFound [97]], objects = [1 \<mapsto> Some 5]\<rparr> [1 \<mapsto> Status_Err kNotFound [97]]"
proof -
  have "rep_make kNotFound [97] [] = Some (Some (status_array kNotFound (status_message [97] [])))"
    by (rule rep_make_layout) (simp_all add: slice_size_def)
  then have "status_exec (Make 1 kNotFound [97] [] 5) \<lparr>arrays = \<lambda>_. None, objects = \<lambda>_. None\<rparr>
      = Some \<lparr>arrays = [5 \<mapsto> status_array kNotFound [97]], objects = [1 \<mapsto> Some 5]\<rparr>"
    by (simp add: status_make_def set_state_def status_message_def slice_empty_def slice_size_def)
  from status_reach.run[OF status_reach.none _ _ this] show ?thesis
    by (simp add: slice_size_def status_message_def slice_empty_def)
qed

theorem status_owns_its_memory_witness:
  "(\<exists>m. status_exec (Assign 1 1 6) \<lparr>arrays = [5 \<mapsto> status_array kNotFound [97]], objects = [1 \<mapsto> Some 5]\<rparr> = Some m)
    \<and> (\<exists>m. status_exec (Move 2 1) \<lparr>arrays = [5 \<mapsto> status_array kNotFound [97]], objects = [1 \<mapsto> Some 5]\<rparr> = Some m)"
  using status_owns_its_memory[OF one_status_reach, THEN conjunct1, rule_format, of "Assign 1 1 6"]
    status_owns_its_memory[OF one_status_reach, THEN conjunct1, rule_format, of "Move 2 1"]
  by (force simp del: status_exec.simps)

end
