(* ===== verification/Key_Order.thy ===== *)
theory Key_Order
  imports Slice
begin

text \<open>
  The contract of a three-way comparison, on which the ordered containers rely: on the valid
  keys it is defined, its sign flips with its arguments, and it is transitive.  Keys that
  compare equal need not be identical.  The contract is interpreted here for \<open>slice::compare\<close>
  and, in the theory of the internal key format, for the internal key comparator.
\<close>

locale key_order =
  fixes valid :: "'k \<Rightarrow> bool" and cmp :: "'k \<Rightarrow> 'k \<Rightarrow> int option"
  assumes defined: "valid a \<Longrightarrow> valid b \<Longrightarrow> \<exists>r. cmp a b = Some r"
    and mirror: "valid a \<Longrightarrow> valid b \<Longrightarrow> cmp a b = Some r \<Longrightarrow> cmp b a = Some s \<Longrightarrow> sgn s = - sgn r"
    and le_le: "valid a \<Longrightarrow> valid b \<Longrightarrow> valid c \<Longrightarrow> cmp a b = Some r \<Longrightarrow> r \<le> 0 \<Longrightarrow>
      cmp b c = Some s \<Longrightarrow> s \<le> 0 \<Longrightarrow> cmp a c = Some t \<Longrightarrow> t \<le> 0"

definition key_lt :: "('k \<Rightarrow> 'k \<Rightarrow> int option) \<Rightarrow> 'k \<Rightarrow> 'k \<Rightarrow> bool" where
  "key_lt cmp a b \<longleftrightarrow> (case cmp a b of None \<Rightarrow> False | Some r \<Rightarrow> r < 0)"

definition key_eqv :: "('k \<Rightarrow> 'k \<Rightarrow> int option) \<Rightarrow> 'k \<Rightarrow> 'k \<Rightarrow> bool" where
  "key_eqv cmp a b \<longleftrightarrow> cmp a b = Some 0"

context key_order begin

lemma sign_cases:
  assumes "valid a" "valid b"
  obtains r s where "cmp a b = Some r" "cmp b a = Some s" "sgn s = - sgn r"
  using assms defined[of a b] defined[of b a] mirror[of a b] by blast

lemma lt_iff: "valid a \<Longrightarrow> valid b \<Longrightarrow> cmp a b = Some r \<Longrightarrow> key_lt cmp a b \<longleftrightarrow> r < 0"
  by (simp add: key_lt_def)

lemma lt_mirror: "valid a \<Longrightarrow> valid b \<Longrightarrow> cmp a b = Some r \<Longrightarrow> key_lt cmp b a \<longleftrightarrow> 0 < r"
  by (rule sign_cases[of a b]) (auto simp: key_lt_def sgn_if split: if_splits)

lemma trichotomy:
  assumes "valid a" "valid b"
  shows "key_lt cmp a b \<or> key_eqv cmp a b \<or> key_lt cmp b a"
proof (rule sign_cases[OF assms])
  fix r s assume "cmp a b = Some r" "cmp b a = Some s" "sgn s = - sgn r"
  then show ?thesis by (auto simp: key_lt_def key_eqv_def sgn_if split: if_splits)
qed

lemma lt_irrefl [simp]: "valid a \<Longrightarrow> \<not> key_lt cmp a a"
  by (rule sign_cases[of a a]) (auto simp: key_lt_def sgn_if split: if_splits)

lemma not_lt_iff:
  "valid a \<Longrightarrow> valid b \<Longrightarrow> \<not> key_lt cmp b a \<longleftrightarrow> (\<exists>r. cmp a b = Some r \<and> r \<le> 0)"
  by (rule sign_cases[of a b]) (auto simp: key_lt_def sgn_if split: if_splits)

lemma eqv_sym: "valid a \<Longrightarrow> valid b \<Longrightarrow> key_eqv cmp a b \<Longrightarrow> key_eqv cmp b a"
  by (rule sign_cases[of a b]) (auto simp: key_eqv_def sgn_if split: if_splits)

lemma nlt_trans:
  assumes v: "valid a" "valid b" "valid c" and ab: "\<not> key_lt cmp b a" and bc: "\<not> key_lt cmp c b"
  shows "\<not> key_lt cmp c a"
proof -
  obtain r where "cmp a b = Some r" "r \<le> 0" using v ab by (auto simp: not_lt_iff)
  moreover obtain s where "cmp b c = Some s" "s \<le> 0" using v bc by (auto simp: not_lt_iff)
  moreover obtain t where t: "cmp a c = Some t" using v defined by blast
  ultimately have "t \<le> 0" using v le_le by blast
  with v t show ?thesis by (auto simp: not_lt_iff)
qed

lemma lt_not_sym: "valid a \<Longrightarrow> valid b \<Longrightarrow> key_lt cmp a b \<Longrightarrow> \<not> key_lt cmp b a"
  by (rule sign_cases[of a b]) (auto simp: key_lt_def sgn_if split: if_splits)

lemma lt_nlt_trans:
  "valid a \<Longrightarrow> valid b \<Longrightarrow> valid c \<Longrightarrow> key_lt cmp a b \<Longrightarrow> \<not> key_lt cmp c b \<Longrightarrow> key_lt cmp a c"
  using nlt_trans[of b c a] by blast

lemma nlt_lt_trans:
  "valid a \<Longrightarrow> valid b \<Longrightarrow> valid c \<Longrightarrow> \<not> key_lt cmp b a \<Longrightarrow> key_lt cmp b c \<Longrightarrow> key_lt cmp a c"
  using nlt_trans[of c a b] by blast

lemma lt_trans:
  "valid a \<Longrightarrow> valid b \<Longrightarrow> valid c \<Longrightarrow> key_lt cmp a b \<Longrightarrow> key_lt cmp b c \<Longrightarrow> key_lt cmp a c"
  using lt_nlt_trans lt_not_sym by blast

end

text \<open>The law holds of \<open>slice::compare\<close>, which is the lexicographic order of byte strings.\<close>

interpretation slice_ord: key_order "\<lambda>_. True" "\<lambda>a b. Some (slice_compare a b)"
  by unfold_locales (auto simp: slice_compare_order split: if_splits)

lemma slice_lt [simp]: "key_lt (\<lambda>a b. Some (slice_compare a b)) a b \<longleftrightarrow> a < b"
  by (simp add: key_lt_def slice_compare_order)

end
