(* ===== verification/Db_Format.thy ===== *)
theory Db_Format
  imports Key_Order Coding
begin

text \<open>
  \<open>include/leveldb/comparator.h\<close>, \<open>src/leveldb/comparator.cc\<close>, \<open>filter_policy.h\<close> and
  \<open>__detail/db_format.h/.cc\<close>.  An abstract C++ class is a record of its virtual functions; a
  derived class is a value of that record.  \<open>None\<close> stands for a call without a defined result
  (a failed assertion, or a non-void function that flows off its end).  \<open>append_internal_key\<close> is
  declared in \<open>db_format.h\<close> but defined nowhere in the repository, so the constructor of
  \<open>internal_key\<close> from its parts is not modelled.
\<close>

section \<open>The comparator interface and the default comparator\<close>

record comparator =
  compare :: "slice \<Rightarrow> slice \<Rightarrow> int option"
  comparator_name :: bytes
  find_shortest_separator :: "bytes \<Rightarrow> slice \<Rightarrow> bytes option"
  find_short_successor :: "bytes \<Rightarrow> bytes option"

text \<open>
  The body of \<open>bytewise_comparator_impl::compare\<close> is empty: a call has no result.  The bodies of
  the two key shorteners are empty as well, which leaves the key as it is.
\<close>

definition bytewise_comparator :: comparator where
  "bytewise_comparator =
     \<lparr>compare = (\<lambda>a b. None), comparator_name = cstr ''simple_leveldb.bytewise_comparator'',
      find_shortest_separator = (\<lambda>start limit. Some start), find_short_successor = (\<lambda>key. Some key)\<rparr>"

section \<open>Keys, sequence numbers and value types\<close>

definition kNumLevels :: nat where
  "kNumLevels = 7"

definition kL0_CompactionTrigger :: nat where
  "kL0_CompactionTrigger = 4"

datatype value_type = kTypeDeletion | kTypeValue

fun value_type_byte :: "value_type \<Rightarrow> 8 word" where
  "value_type_byte kTypeDeletion = 0x00"
| "value_type_byte kTypeValue = 0x01"

text \<open>Enumerators are compared by their values.\<close>

instantiation value_type :: linorder
begin

definition less_eq_value_type :: "value_type \<Rightarrow> value_type \<Rightarrow> bool" where
  "t \<le> t' \<longleftrightarrow> value_type_byte t \<le> value_type_byte t'"

definition less_value_type :: "value_type \<Rightarrow> value_type \<Rightarrow> bool" where
  "t < t' \<longleftrightarrow> value_type_byte t < value_type_byte t'"

instance
proof
  fix t t' :: value_type
  assume "t \<le> t'" "t' \<le> t"
  then show "t = t'" by (cases t; cases t') (simp_all add: less_eq_value_type_def)
qed (auto simp: less_eq_value_type_def less_value_type_def)

end

lemmas value_type_order [simp] = less_eq_value_type_def less_value_type_def

definition kValueTypeForSeek :: value_type where
  "kValueTypeForSeek = kTypeValue"

type_synonym sequence_number = u64

definition kMaxSequenceNumber :: sequence_number where
  "kMaxSequenceNumber = push_bit 56 1 - 1"

record parsed_internal_key =
  user_key :: slice
  seq_num :: sequence_number
  vtype :: value_type

definition parsed_internal_key_ctor :: "slice \<Rightarrow> sequence_number \<Rightarrow> value_type \<Rightarrow> parsed_internal_key" where
  "parsed_internal_key_ctor u s t = \<lparr>user_key = u, seq_num = s, vtype = t\<rparr>"

definition pack_sequence_and_type :: "sequence_number \<Rightarrow> value_type \<Rightarrow> u64 option" where
  "pack_sequence_and_type s t =
     (if s \<le> kMaxSequenceNumber \<and> t \<le> kValueTypeForSeek
      then Some (push_bit 8 s OR scast (value_type_byte t)) else None)"

definition extract_user_key :: "slice \<Rightarrow> slice option" where
  "extract_user_key k =
     (if 8 \<le> slice_size k then Some (slice_of_ptr k (slice_size k - 8)) else None)"

type_synonym internal_key = bytes

definition internal_key_encode :: "internal_key \<Rightarrow> slice option" where
  "internal_key_encode rep = (if rep \<noteq> [] then Some rep else None)"

definition internal_key_decode_from :: "slice \<Rightarrow> bool \<times> internal_key" where
  "internal_key_decode_from s = (s \<noteq> [], s)"

text \<open>The constructor appends to an empty string; \<open>append_internal_key\<close> has no body and is an argument.\<close>

definition internal_key_ctor ::
  "(bytes \<Rightarrow> parsed_internal_key \<Rightarrow> bytes) \<Rightarrow> slice \<Rightarrow> sequence_number \<Rightarrow> value_type \<Rightarrow> internal_key" where
  "internal_key_ctor append_internal_key u s t = append_internal_key [] (parsed_internal_key_ctor u s t)"

section \<open>The internal key comparator\<close>

definition internal_compare :: "comparator \<Rightarrow> slice \<Rightarrow> slice \<Rightarrow> int option" where
  "internal_compare user akey bkey =
     Option.bind (extract_user_key akey) (\<lambda>ua.
     Option.bind (extract_user_key bkey) (\<lambda>ub.
     Option.bind (compare user ua ub) (\<lambda>r.
       if r = 0 then
         Option.bind (decode_fixed64 (drop (slice_size akey - 8) akey)) (\<lambda>anum.
         Option.bind (decode_fixed64 (drop (slice_size bkey - 8) bkey)) (\<lambda>bnum.
           if bnum < anum then Some (-1) else if anum < bnum then Some 1 else Some r))
       else Some r)))"

definition internal_compare_keys :: "comparator \<Rightarrow> internal_key \<Rightarrow> internal_key \<Rightarrow> int option" where
  "internal_compare_keys user a b =
     Option.bind (internal_key_encode a) (\<lambda>ea.
     Option.bind (internal_key_encode b) (\<lambda>eb. internal_compare user ea eb))"

text \<open>An assertion on a comparison: the value is kept only when the comparison is negative.\<close>

definition assert_less :: "int option \<Rightarrow> 'a option \<Rightarrow> 'a option" where
  "assert_less r k = (case r of Some i \<Rightarrow> if i < 0 then k else None | None \<Rightarrow> None)"

definition internal_find_shortest_separator :: "comparator \<Rightarrow> bytes \<Rightarrow> slice \<Rightarrow> bytes option" where
  "internal_find_shortest_separator user start limit =
     Option.bind (extract_user_key start) (\<lambda>user_start.
     Option.bind (extract_user_key limit) (\<lambda>user_limit.
     Option.bind (find_shortest_separator user user_start user_limit) (\<lambda>tmp.
       if slice_size tmp < slice_size user_start then
         Option.bind (compare user user_start tmp) (\<lambda>r.
           if r < 0 then
             Option.bind (pack_sequence_and_type kMaxSequenceNumber kValueTypeForSeek) (\<lambda>tag.
               let tmp' = put_fixed64 tmp tag in
               assert_less (internal_compare user start tmp')
                 (assert_less (internal_compare user tmp' limit) (Some tmp')))
           else Some start)
       else Some start)))"

definition internal_find_short_successor :: "comparator \<Rightarrow> bytes \<Rightarrow> bytes option" where
  "internal_find_short_successor user key =
     Option.bind (extract_user_key key) (\<lambda>ukey.
     Option.bind (find_short_successor user ukey) (\<lambda>tmp.
       if slice_size tmp < slice_size ukey then
         Option.bind (compare user ukey tmp) (\<lambda>r.
           if r < 0 then
             Option.bind (pack_sequence_and_type kMaxSequenceNumber kValueTypeForSeek) (\<lambda>tag.
               let tmp' = put_fixed64 tmp tag in
               assert_less (internal_compare user key tmp') (Some tmp'))
           else Some key)
       else Some key))"

definition internal_key_comparator :: "comparator \<Rightarrow> comparator" where
  "internal_key_comparator user =
     \<lparr>compare = internal_compare user,
      comparator_name = cstr ''simple_leveldb.InternalKeyComparator'',
      find_shortest_separator = internal_find_shortest_separator user,
      find_short_successor = internal_find_short_successor user\<rparr>"

section \<open>The filter policy wrapper\<close>

record filter_policy =
  filter_name :: bytes
  create_filter :: "slice list \<Rightarrow> nat \<Rightarrow> bytes \<Rightarrow> bytes"
  key_may_match :: "slice \<Rightarrow> slice \<Rightarrow> bool"

definition internal_filter_name :: "filter_policy \<Rightarrow> bytes" where
  "internal_filter_name user = filter_name user"

text \<open>The wrapper cuts the caller's keys to user keys in place, then calls the user's policy.\<close>

fun cut_user_keys :: "slice list \<Rightarrow> nat \<Rightarrow> slice list option" where
  "cut_user_keys ks 0 = Some ks"
| "cut_user_keys [] (Suc n) = None"
| "cut_user_keys (k # ks) (Suc n) =
     Option.bind (extract_user_key k) (\<lambda>u. map_option ((#) u) (cut_user_keys ks n))"

definition internal_create_filter ::
  "filter_policy \<Rightarrow> slice list \<Rightarrow> nat \<Rightarrow> bytes \<Rightarrow> (slice list \<times> bytes) option" where
  "internal_create_filter user ks n dst =
     map_option (\<lambda>us. (us, create_filter user us n dst)) (cut_user_keys ks n)"

definition internal_key_may_match :: "filter_policy \<Rightarrow> slice \<Rightarrow> slice \<Rightarrow> bool option" where
  "internal_key_may_match user key filt =
     map_option (\<lambda>u. key_may_match user u filt) (extract_user_key key)"

section \<open>The order of internal keys\<close>

definition valid_ikey :: "slice \<Rightarrow> bool" where
  "valid_ikey k \<longleftrightarrow> 8 \<le> length k"

definition ikey_user :: "slice \<Rightarrow> slice" where
  "ikey_user k = take (length k - 8) k"

definition ikey_tag :: "slice \<Rightarrow> u64" where
  "ikey_tag k = (case decode_fixed64 (drop (length k - 8) k) of Some t \<Rightarrow> t | None \<Rightarrow> 0)"

lemma decode_fixed64_total: "8 \<le> length p \<Longrightarrow> \<exists>v. decode_fixed64 p = Some v"
  by (cases p rule: decode_fixed64.cases) auto

lemma decode_ikey_tag: "valid_ikey k \<Longrightarrow> decode_fixed64 (drop (slice_size k - 8) k) = Some (ikey_tag k)"
  using decode_fixed64_total[of "drop (length k - 8) k"]
  by (auto simp: valid_ikey_def ikey_tag_def slice_size_def)

lemma extract_user_key_valid:
  "extract_user_key k = (if valid_ikey k then Some (ikey_user k) else None)"
  by (simp add: extract_user_key_def valid_ikey_def ikey_user_def slice_of_ptr_def slice_size_def)

lemma internal_compare_parts:
  assumes "valid_ikey a" "valid_ikey b"
  shows "internal_compare u a b = Option.bind (compare u (ikey_user a) (ikey_user b)) (\<lambda>r. Some
     (if r = 0 then if ikey_tag b < ikey_tag a then -1 else if ikey_tag a < ikey_tag b then 1 else 0 else r))"
  using assms
  by (cases "compare u (ikey_user a) (ikey_user b)")
    (auto simp: internal_compare_def extract_user_key_valid decode_ikey_tag)

lemma ikey_parts [simp]:
  "ikey_user (put_fixed64 u t) = u" "ikey_tag (put_fixed64 u t) = t" "valid_ikey (put_fixed64 u t)"
  using decode_encode_fixed64[of t "[]"]
  by (simp_all add: ikey_user_def ikey_tag_def valid_ikey_def put_fixed64_def)

lemma pack_value:
  assumes "pack_sequence_and_type s t = Some p"
  shows "unat p = 256 * unat s + unat (value_type_byte t)"
proof -
  have s: "unat s < 2 ^ 56" using assms
    by (simp add: pack_sequence_and_type_def kMaxSequenceNumber_def word_le_nat_alt split: if_splits)
  have d: "push_bit 8 s AND scast (value_type_byte t) = 0"
    by (rule bit_word_eqI, cases t) (auto simp: bit_simps)
  have "p = push_bit 8 s + scast (value_type_byte t)"
    using assms disjunctive_add_eq_or[OF d] by (simp add: pack_sequence_and_type_def split: if_splits)
  moreover have "unat (push_bit 8 s) = 256 * unat s" using s
    by (simp add: push_bit_eq_mult unat_word_ariths)
  moreover have "unat (scast (value_type_byte t) :: u64) = unat (value_type_byte t)" by (cases t) simp_all
  moreover have "unat (value_type_byte t) < 2" by (cases t) simp_all
  ultimately show ?thesis using s by (simp add: unat_word_ariths)
qed

lemma pack_for_seek: "pack_sequence_and_type kMaxSequenceNumber kValueTypeForSeek = Some 0xFFFFFFFFFFFFFF01"
  by (simp add: pack_sequence_and_type_def kMaxSequenceNumber_def kValueTypeForSeek_def)

text \<open>
  What the wrapper expects of a user comparator: an order defined on all keys, a separator that
  lies in \<open>[start, limit)\<close> when there is such an interval and leaves the key alone when there is
  none, and a successor that is not smaller.
\<close>

locale user_comparator = key_order "\<lambda>_. True" "compare u" for u :: comparator +
  assumes separator: "key_lt (compare u) s l \<Longrightarrow> \<exists>t. find_shortest_separator u s l = Some t
      \<and> \<not> key_lt (compare u) t s \<and> key_lt (compare u) t l"
    and no_separator: "\<not> key_lt (compare u) s l \<Longrightarrow> find_shortest_separator u s l = Some s"
    and successor: "\<exists>t. find_short_successor u s = Some t \<and> \<not> key_lt (compare u) t s"

text \<open>The internal comparator is then an order on the keys that have a tag.\<close>

sublocale user_comparator \<subseteq> internal: key_order valid_ikey "internal_compare u"
proof (unfold_locales, goal_cases)
  case (1 a b)
  then show ?case using defined[of "ikey_user a" "ikey_user b"] by (auto simp: internal_compare_parts)
next
  case (2 a b r s)
  obtain i j where "compare u (ikey_user a) (ikey_user b) = Some i"
    "compare u (ikey_user b) (ikey_user a) = Some j" "sgn j = - sgn i"
    by (rule sign_cases[of "ikey_user a" "ikey_user b"]) auto
  with 2 show ?case by (auto simp: internal_compare_parts sgn_if split: if_splits)
next
  case (3 a b c r s t)
  let ?u = "ikey_user"
  obtain i i' where i: "compare u (?u a) (?u b) = Some i"
    "compare u (?u b) (?u a) = Some i'" "sgn i' = - sgn i"
    by (rule sign_cases[of "?u a" "?u b"]) auto
  obtain j j' where j: "compare u (?u b) (?u c) = Some j"
    "compare u (?u c) (?u b) = Some j'" "sgn j' = - sgn j"
    by (rule sign_cases[of "?u b" "?u c"]) auto
  obtain k k' where k: "compare u (?u a) (?u c) = Some k"
    "compare u (?u c) (?u a) = Some k'" "sgn k' = - sgn k"
    by (rule sign_cases[of "?u a" "?u c"]) auto
  have "i \<le> 0" "j \<le> 0" using 3 i j by (auto simp: internal_compare_parts split: if_splits)
  then have "k \<le> 0" using i j k le_le[where a = "?u a" and b = "?u b" and c = "?u c"] by simp
  show ?case
  proof (cases "k = 0")
    case True
    then have "k' = 0" using k by (simp add: sgn_if split: if_splits)
    have "i = 0" using le_le[where a = "?u b" and b = "?u c" and c = "?u a"] \<open>j \<le> 0\<close> \<open>k' = 0\<close> i j k \<open>i \<le> 0\<close>
      by (auto simp: sgn_if split: if_splits)
    moreover have "j = 0" using le_le[where a = "?u c" and b = "?u a" and c = "?u b"] \<open>i \<le> 0\<close> \<open>k' = 0\<close> i j k \<open>j \<le> 0\<close>
      by (auto simp: sgn_if split: if_splits)
    ultimately show ?thesis using 3 i j k True by (auto simp: internal_compare_parts split: if_splits)
  next
    case False
    with \<open>k \<le> 0\<close> 3 k show ?thesis by (auto simp: internal_compare_parts)
  qed
qed

context user_comparator begin

lemma internal_lt:
  assumes "valid_ikey a" "valid_ikey b"
  shows "key_lt (internal_compare u) a b \<longleftrightarrow> key_lt (compare u) (ikey_user a) (ikey_user b)
     \<or> key_eqv (compare u) (ikey_user a) (ikey_user b) \<and> ikey_tag b < ikey_tag a"
  using assms defined[of "ikey_user a" "ikey_user b"]
  by (auto simp: key_lt_def key_eqv_def internal_compare_parts split: if_splits)

lemma internal_lt_user:
  "valid_ikey a \<Longrightarrow> valid_ikey b \<Longrightarrow> key_lt (compare u) (ikey_user a) (ikey_user b) \<Longrightarrow>
   key_lt (internal_compare u) a b"
  by (simp add: internal_lt)

lemma assert_less_lt: "key_lt cmp a b \<Longrightarrow> assert_less (cmp a b) k = k"
  by (auto simp: assert_less_def key_lt_def split: option.splits)

lemma internal_separator:
  assumes v: "valid_ikey s" "valid_ikey l" and less: "key_lt (internal_compare u) s l"
  shows "\<exists>k. internal_find_shortest_separator u s l = Some k \<and> valid_ikey k
    \<and> \<not> key_lt (internal_compare u) k s \<and> key_lt (internal_compare u) k l"
proof -
  let ?s = "ikey_user s" and ?l = "ikey_user l"
  obtain t where t: "find_shortest_separator u ?s ?l = Some t"
    "t = ?s \<or> \<not> key_lt (compare u) t ?s \<and> key_lt (compare u) t ?l"
    using separator[of ?s ?l] no_separator[of ?s ?l] by blast
  obtain r where r: "compare u ?s t = Some r" using defined[of ?s t] by auto
  show ?thesis
  proof (cases "length t < length ?s \<and> r < 0")
    case True
    let ?k = "put_fixed64 t 0xFFFFFFFFFFFFFF01"
    have st: "key_lt (compare u) ?s t" using True r by (simp add: key_lt_def)
    moreover have tl: "key_lt (compare u) t ?l" using t(2) True by auto
    ultimately have sk: "key_lt (internal_compare u) s ?k" and kl: "key_lt (internal_compare u) ?k l"
      using v by (auto intro!: internal_lt_user)
    then have "internal_find_shortest_separator u s l = Some ?k"
      using v t r True
      by (simp add: internal_find_shortest_separator_def extract_user_key_valid slice_size_def
          pack_for_seek assert_less_lt)
    with sk kl v show ?thesis using internal.lt_not_sym[of s ?k] by auto
  next
    case False
    then have "internal_find_shortest_separator u s l = Some s"
      using v t r by (auto simp: internal_find_shortest_separator_def extract_user_key_valid slice_size_def)
    then show ?thesis using v less by auto
  qed
qed

lemma internal_successor:
  assumes v: "valid_ikey k"
  shows "\<exists>k'. internal_find_short_successor u k = Some k' \<and> valid_ikey k'
    \<and> \<not> key_lt (internal_compare u) k' k"
proof -
  let ?u = "ikey_user k"
  obtain t where t: "find_short_successor u ?u = Some t" using successor[of ?u] by blast
  obtain r where r: "compare u ?u t = Some r" using defined[of ?u t] by auto
  show ?thesis
  proof (cases "length t < length ?u \<and> r < 0")
    case True
    let ?k = "put_fixed64 t 0xFFFFFFFFFFFFFF01"
    have "key_lt (compare u) ?u t" using True r by (simp add: key_lt_def)
    then have lt: "key_lt (internal_compare u) k ?k" using v by (auto intro!: internal_lt_user)
    then have "internal_find_short_successor u k = Some ?k"
      using v t r True
      by (simp add: internal_find_short_successor_def extract_user_key_valid slice_size_def
          pack_for_seek assert_less_lt)
    with lt v show ?thesis using internal.lt_not_sym[of k ?k] by auto
  next
    case False
    then have "internal_find_short_successor u k = Some k"
      using v t r by (auto simp: internal_find_short_successor_def extract_user_key_valid slice_size_def)
    then show ?thesis using v by auto
  qed
qed

end

section \<open>A user comparator\<close>

text \<open>
  \<open>slice::compare\<close> as the comparison, a separator and a successor that keep one byte, and the
  name of the default comparator, whose own comparison has no body.
\<close>

definition next_first_byte :: "slice \<Rightarrow> slice" where
  "next_first_byte s = (case s of [] \<Rightarrow> s | b # _ \<Rightarrow> if b < 255 then [b + 1] else s)"

definition slice_comparator :: comparator where
  "slice_comparator = bytewise_comparator
     \<lparr>compare := \<lambda>a b. Some (slice_compare a b),
      find_shortest_separator := \<lambda>s l. Some (if s < l \<and> next_first_byte s < l then next_first_byte s else s),
      find_short_successor := \<lambda>k. Some (next_first_byte k)\<rparr>"

lemma next_first_byte_ge: "s \<le> next_first_byte s"
proof (cases s)
  case (Cons b t)
  have "b < 255 \<Longrightarrow> b < b + 1" by (simp add: word_less_nat_alt unat_word_ariths)
  with Cons show ?thesis by (auto simp: next_first_byte_def less_imp_le)
qed (simp add: next_first_byte_def)

interpretation slice_user: user_comparator slice_comparator
  using next_first_byte_ge by unfold_locales
    (auto simp: slice_comparator_def slice_compare_order not_less key_lt_def split: if_splits
      dest: leD)

section \<open>Properties\<close>

text \<open>
  C30. Internal keys are ordered by user key, then by decreasing sequence number, then by
  decreasing value type, whatever order the user's comparator defines.
\<close>

theorem internal_key_order:
  assumes "user_comparator u"
    and "pack_sequence_and_type sa ta = Some pa" and "pack_sequence_and_type sb tb = Some pb"
  shows "key_lt (internal_compare u) (put_fixed64 a pa) (put_fixed64 b pb) \<longleftrightarrow>
    key_lt (compare u) a b \<or> key_eqv (compare u) a b \<and>
      (sb < sa \<or> sa = sb \<and> tb < ta)"
proof -
  have p: "unat pa = 256 * unat sa + unat (value_type_byte ta)"
    "unat pb = 256 * unat sb + unat (value_type_byte tb)"
    using assms pack_value by auto
  have "unat (value_type_byte t) < 2" for t by (cases t) simp_all
  from this[of ta] this[of tb] have "pb < pa \<longleftrightarrow> sb < sa \<or> sa = sb \<and> value_type_byte tb < value_type_byte ta"
    unfolding word_less_nat_alt p by (auto simp: word_unat_eq_iff)
  then show ?thesis using user_comparator.internal_lt[OF assms(1)] by simp
qed

theorem internal_key_order_witness:
  "key_lt (internal_compare slice_comparator) (put_fixed64 (cstr ''k'') 0x701) (put_fixed64 (cstr ''k'') 0x601) \<longleftrightarrow>
    key_lt (compare slice_comparator) (cstr ''k'') (cstr ''k'') \<or> key_eqv (compare slice_comparator) (cstr ''k'') (cstr ''k'') \<and>
      ((6 :: u64) < 7 \<or> (7 :: u64) = 6 \<and> kTypeValue < kTypeValue)"
  by (rule internal_key_order[OF slice_user.user_comparator_axioms])
    (simp_all add: pack_sequence_and_type_def kMaxSequenceNumber_def kValueTypeForSeek_def)

text \<open>
  C32. With a user comparator that keeps its contract, shortening an index separator never fails
  an assertion, and yields a well-formed internal key in \<open>[start, limit)\<close>.
\<close>

theorem internal_separator_bounds:
  assumes "user_comparator u" and "valid_ikey start" and "valid_ikey limit"
    and "key_lt (internal_compare u) start limit"
  shows "\<exists>k. internal_find_shortest_separator u start limit = Some k \<and> valid_ikey k
    \<and> \<not> key_lt (internal_compare u) k start \<and> key_lt (internal_compare u) k limit"
  using assms user_comparator.internal_separator by blast

theorem internal_separator_bounds_witness:
  "\<exists>k. internal_find_shortest_separator slice_comparator (put_fixed64 (cstr ''apple'') 0x701) (put_fixed64 (cstr ''melon'') 0x601) = Some k
    \<and> valid_ikey k
    \<and> \<not> key_lt (internal_compare slice_comparator) k (put_fixed64 (cstr ''apple'') 0x701)
    \<and> key_lt (internal_compare slice_comparator) k (put_fixed64 (cstr ''melon'') 0x601)"
  by (rule internal_separator_bounds[OF slice_user.user_comparator_axioms])
    (simp_all add: slice_user.internal_lt, simp add: slice_comparator_def)

end
