(* ===== verification/File_Names.thy ===== *)
theory File_Names
  imports Slice
begin

text \<open>
  \<open>src/util/logging.cc\<close> (\<open>consume_decimal_number\<close>) and the naming functions of
  \<open>__detail/filename.cc\<close>.  \<open>snprintf\<close> with \<open>%06llu\<close> writes the decimal digits, padded with
  zeros to six; the longest text is 27 bytes, so the buffers of 100 bytes never truncate it.
  A failed assertion is \<open>None\<close>.
\<close>

section \<open>Reading a decimal number\<close>

definition is_digit :: "byte \<Rightarrow> bool" where
  "is_digit ch \<longleftrightarrow> 48 \<le> ch \<and> ch \<le> 57"

definition kMaxUint64 :: u64 where
  "kMaxUint64 = 0xFFFFFFFFFFFFFFFF"

definition kLastDigitOfMaxUint64 :: byte where
  "kLastDigitOfMaxUint64 = 48 + ucast (kMaxUint64 mod 10)"

fun decimal_loop :: "u64 \<Rightarrow> bytes \<Rightarrow> (u64 \<times> bytes) option" where
  "decimal_loop value [] = Some (value, [])"
| "decimal_loop value (ch # current) =
     (if \<not> is_digit ch then Some (value, ch # current)
      else if value > kMaxUint64 div 10 \<or> (value = kMaxUint64 div 10 \<and> ch > kLastDigitOfMaxUint64)
      then None
      else decimal_loop (value * 10 + ucast (ch - 48)) current)"

text \<open>The result, the number when it was written, and the slice afterwards.\<close>

definition consume_decimal_number :: "slice \<Rightarrow> bool \<times> u64 option \<times> slice" where
  "consume_decimal_number inp =
     (case decimal_loop 0 inp of
        None \<Rightarrow> (False, None, inp)
      | Some (value, rest) \<Rightarrow> (length inp - length rest \<noteq> 0, Some value, rest))"

section \<open>Building file names\<close>

fun decimal_digits :: "nat \<Rightarrow> bytes" where
  "decimal_digits n =
     (if n < 10 then [of_nat (48 + n)] else decimal_digits (n div 10) @ [of_nat (48 + n mod 10)])"

declare decimal_digits.simps [simp del]

definition format_06llu :: "u64 \<Rightarrow> bytes" where
  "format_06llu number =
     (let ds = decimal_digits (unat number) in replicate (6 - length ds) 48 @ ds)"

definition make_file_name :: "bytes \<Rightarrow> u64 \<Rightarrow> string \<Rightarrow> bytes" where
  "make_file_name dbname number suff =
     dbname @ cstr ''/'' @ format_06llu number @ cstr ''.'' @ cstr suff"

definition table_file_name :: "bytes \<Rightarrow> u64 \<Rightarrow> bytes option" where
  "table_file_name dbname number =
     (if 0 < number then Some (make_file_name dbname number ''ldb'') else None)"

definition log_file_name :: "bytes \<Rightarrow> u64 \<Rightarrow> bytes option" where
  "log_file_name dbname number =
     (if 0 < number then Some (make_file_name dbname number ''log'') else None)"

definition descriptor_file_name :: "bytes \<Rightarrow> u64 \<Rightarrow> bytes option" where
  "descriptor_file_name dbname number =
     (if 0 < number then Some (dbname @ cstr ''/MANIFEST-'' @ format_06llu number) else None)"

definition lock_file_name :: "bytes \<Rightarrow> bytes" where
  "lock_file_name dbname = dbname @ cstr ''/LOCK''"

definition current_file_name :: "bytes \<Rightarrow> bytes" where
  "current_file_name dbname = dbname @ cstr ''/CURRENT''"

definition temp_file_name :: "bytes \<Rightarrow> u64 \<Rightarrow> bytes option" where
  "temp_file_name dbname number =
     (if 0 < number then Some (make_file_name dbname number ''dbtmp'') else None)"

definition info_log_file_name :: "bytes \<Rightarrow> bytes" where
  "info_log_file_name dbname = dbname @ cstr ''/LOG''"

definition old_info_log_file_name :: "bytes \<Rightarrow> bytes" where
  "old_info_log_file_name dbname = dbname @ cstr ''/LOG.old''"

section \<open>Parsing file names\<close>

datatype file_type = kLogFile | kDBLockFile | kTableFile | kDescriptorFile | kCurrentFile
  | kTempFile | kInfoLogFile

definition parse_file_name :: "bytes \<Rightarrow> (u64 \<times> file_type) option" where
  "parse_file_name filename =
     (if slice_eq filename (cstr ''CURRENT'') then Some (0, kCurrentFile)
      else if slice_eq filename (cstr ''LOCK'') then Some (0, kDBLockFile)
      else if slice_eq filename (cstr ''LOG'') \<or> slice_eq filename (cstr ''LOG.old'')
      then Some (0, kInfoLogFile)
      else if slice_starts_with filename (cstr ''MANIFEST-'') then
        (case slice_remove_prefix filename (length ''MANIFEST-'') of
           None \<Rightarrow> None
         | Some rest \<Rightarrow>
             (case consume_decimal_number rest of
                (True, Some num, rest') \<Rightarrow>
                  if \<not> slice_empty rest' then None else Some (num, kDescriptorFile)
              | _ \<Rightarrow> None))
      else
        (case consume_decimal_number filename of
           (True, Some num, suff) \<Rightarrow>
             if slice_eq suff (cstr ''.log'') then Some (num, kLogFile)
             else if slice_eq suff (cstr ''.sst'') \<or> slice_eq suff (cstr ''.ldb'')
             then Some (num, kTableFile)
             else if slice_eq suff (cstr ''.dbtmp'') then Some (num, kTempFile)
             else None
         | _ \<Rightarrow> None))"

section \<open>The decimal reader computes the value of the digits\<close>

definition digit_value :: "byte \<Rightarrow> nat" where
  "digit_value ch = unat ch - 48"

definition decimal_value :: "nat \<Rightarrow> bytes \<Rightarrow> nat" where
  "decimal_value = foldl (\<lambda>v ch. 10 * v + digit_value ch)"

lemma decimal_value_simps [simp]:
  "decimal_value v [] = v"
  "decimal_value v (ch # s) = decimal_value (10 * v + digit_value ch) s"
  "decimal_value v (s @ t) = decimal_value (decimal_value v s) t"
  by (simp_all add: decimal_value_def)

lemma decimal_value_ge: "v \<le> decimal_value v s"
proof (induction s arbitrary: v)
  case (Cons ch s)
  have "v \<le> 10 * v + digit_value ch" by simp
  also have "\<dots> \<le> decimal_value v (ch # s)" using Cons[of "10 * v + digit_value ch"] by simp
  finally show ?case .
qed simp

lemma decimal_overflow_guard:
  assumes "is_digit ch"
  shows "value > kMaxUint64 div 10 \<or> (value = kMaxUint64 div 10 \<and> ch > kLastDigitOfMaxUint64)
    \<longleftrightarrow> 2 ^ 64 \<le> 10 * unat value + digit_value ch"
proof -
  have m: "unat (kMaxUint64 div 10) = 1844674407370955161" by (simp add: kMaxUint64_def unat_div)
  have l: "unat kLastDigitOfMaxUint64 = 53" by (simp add: kLastDigitOfMaxUint64_def kMaxUint64_def)
  have ch: "48 \<le> unat ch" "unat ch \<le> 57" using assms by (simp_all add: is_digit_def word_le_nat_alt)
  have e: "value = kMaxUint64 div 10 \<longleftrightarrow> unat value = 1844674407370955161"
    by (metis m word_unat_eq_iff)
  show ?thesis unfolding word_less_nat_alt m l e digit_value_def using ch by auto
qed

lemma decimal_step:
  assumes "is_digit ch" and "10 * unat value + digit_value ch < 2 ^ 64"
  shows "unat (value * 10 + ucast (ch - 48) :: u64) = 10 * unat value + digit_value ch"
proof -
  have "48 \<le> ch" using assms(1) by (simp add: is_digit_def)
  then have "unat (ch - 48) = digit_value ch" by (simp add: unat_sub digit_value_def)
  with assms(2) show ?thesis by (simp add: unat_word_ariths)
qed

lemma decimal_loop_exact:
  "decimal_loop value s =
    (let v = decimal_value (unat value) (takeWhile is_digit s)
     in if v < 2 ^ 64 then Some (of_nat v, dropWhile is_digit s) else None)"
proof (induction s arbitrary: "value")
  case Nil
  then show ?case by simp
next
  case (Cons ch s)
  show ?case
  proof (cases "is_digit ch")
    case True
    let ?v = "10 * unat value + digit_value ch"
    show ?thesis
    proof (cases "?v < 2 ^ 64")
      case fits: True
      then show ?thesis
        using Cons[of "value * 10 + ucast (ch - 48)"] decimal_step[OF True fits]
          decimal_overflow_guard[OF True, of "value"] True by (auto simp: Let_def)
    next
      case False
      then have "\<not> decimal_value ?v (takeWhile is_digit s) < 2 ^ 64"
        using decimal_value_ge[of ?v] by (meson not_less order_trans)
      with False show ?thesis
        using decimal_overflow_guard[OF True, of "value"] True by (simp add: Let_def)
    qed
  qed simp
qed

lemma consume_decimal_exact:
  "consume_decimal_number s =
    (let ds = takeWhile is_digit s; v = decimal_value 0 ds
     in if v < 2 ^ 64 then (ds \<noteq> [], Some (of_nat v), dropWhile is_digit s) else (False, None, s))"
proof -
  have "length s = length (takeWhile is_digit s) + length (dropWhile is_digit s)"
    by (metis length_append takeWhile_dropWhile_id)
  then show ?thesis by (simp add: consume_decimal_number_def decimal_loop_exact Let_def)
qed

section \<open>Formatting and parsing are inverse\<close>

lemma digit_byte:
  "n < 10 \<Longrightarrow> is_digit (of_nat (48 + n)) \<and> digit_value (of_nat (48 + n)) = n"
proof -
  assume "n < 10"
  then have "unat (of_nat (48 + n) :: byte) = 48 + n"
    by (simp add: unat_of_nat take_bit_nat_eq_self del: of_nat_add)
  with \<open>n < 10\<close> show ?thesis by (simp add: is_digit_def digit_value_def word_le_nat_alt del: of_nat_add)
qed

lemma decimal_digits_exact:
  "(\<forall>ch \<in> set (decimal_digits n). is_digit ch) \<and> decimal_value 0 (decimal_digits n) = n
   \<and> decimal_digits n \<noteq> []"
proof (induction n rule: decimal_digits.induct)
  case (1 n)
  show ?case
  proof (cases "n < 10")
    case True
    then show ?thesis using digit_byte[of n] by (simp add: decimal_digits.simps[of n] del: of_nat_add)
  next
    case False
    then show ?thesis using 1 digit_byte[of "n mod 10"]
      by (auto simp: decimal_digits.simps[of n] simp del: of_nat_add)
  qed
qed

lemma decimal_value_zeros [simp]: "decimal_value 0 (replicate k 48) = 0"
  by (induction k) (simp_all add: digit_value_def)

lemma format_06llu_exact:
  "\<forall>ch \<in> set (format_06llu n). is_digit ch" "decimal_value 0 (format_06llu n) = unat n" "format_06llu n \<noteq> []"
  using decimal_digits_exact[of "unat n"] by (auto simp: format_06llu_def Let_def is_digit_def)

lemma consume_formatted:
  assumes "rest = [] \<or> \<not> is_digit (hd rest)"
  shows "consume_decimal_number (format_06llu n @ rest) = (True, Some n, rest)"
proof -
  have "takeWhile is_digit (format_06llu n @ rest) = format_06llu n"
    "dropWhile is_digit (format_06llu n @ rest) = rest"
    using format_06llu_exact(1)[of n] assms by (cases rest; simp)+
  then show ?thesis using format_06llu_exact(2,3)[of n] by (simp add: consume_decimal_exact)
qed

lemma formatted_head: "format_06llu n = ch # s \<Longrightarrow> is_digit ch"
  using format_06llu_exact(1)[of n] by simp

lemma parse_formatted:
  "parse_file_name (cstr ''MANIFEST-'' @ format_06llu n) = Some (n, kDescriptorFile)"
  "parse_file_name (format_06llu n @ cstr ''.'' @ cstr ''log'') = Some (n, kLogFile)"
  "parse_file_name (format_06llu n @ cstr ''.'' @ cstr ''ldb'') = Some (n, kTableFile)"
  "parse_file_name (format_06llu n @ cstr ''.'' @ cstr ''dbtmp'') = Some (n, kTempFile)"
proof -
  obtain ch s where f: "format_06llu n = ch # s" using format_06llu_exact(3) by (cases "format_06llu n") auto
  have d: "is_digit ch" using formatted_head[OF f] .
  then have "ch \<noteq> 67" "ch \<noteq> 76" "ch \<noteq> 77" by (auto simp: is_digit_def)
  then show "parse_file_name (format_06llu n @ cstr ''.'' @ cstr ''log'') = Some (n, kLogFile)"
    "parse_file_name (format_06llu n @ cstr ''.'' @ cstr ''ldb'') = Some (n, kTableFile)"
    "parse_file_name (format_06llu n @ cstr ''.'' @ cstr ''dbtmp'') = Some (n, kTempFile)"
    using consume_formatted[where n = n, unfolded f] by (simp_all add: parse_file_name_def f is_digit_def)
  show "parse_file_name (cstr ''MANIFEST-'' @ format_06llu n) = Some (n, kDescriptorFile)"
    using consume_formatted[of "[]" n]
    by (simp add: parse_file_name_def slice_remove_prefix_def slice_size_def slice_empty_def)
qed

section \<open>Properties\<close>



text \<open>
  \<open>consume_decimal_number\<close> reads the longest run of digits, returns its value, and fails,
  leaving the slice alone, exactly when that value does not fit 64 bits.
\<close>

theorem consume_decimal_number_exact:
  "consume_decimal_number s =
    (let ds = takeWhile is_digit s; v = decimal_value 0 ds
     in if v < 2 ^ 64 then (ds \<noteq> [], Some (of_nat v), dropWhile is_digit s) else (False, None, s))"
  by (rule consume_decimal_exact)

end
