(* ===== verification/Write_Batch.thy ===== *)
theory Write_Batch
  imports Db_Format
begin

text \<open>
  \<open>write_batch.cc\<close> and \<open>__detail/write_batch_internal.cc\<close>: a batch is one byte string,
  an eight-byte sequence number, a four-byte count and the records.  The accessors read and write
  at fixed positions of that string through raw pointers; an access past its end is \<open>None\<close>.
  \<open>set_contents\<close>, \<open>insert_info\<close> and \<open>append\<close> are declared but not defined in the repository, and
  so is the iteration over the records; \<open>batch_records\<close> below is the reader of the documented
  format, written with the code's own slice decoder.
\<close>

type_synonym write_batch = bytes

definition kHeader :: nat where
  "kHeader = 12"

definition wb_Clear :: "write_batch \<Rightarrow> write_batch" where
  "wb_Clear rep = replicate kHeader 0"

definition wb_ctor :: write_batch where
  "wb_ctor = wb_Clear []"

definition wbi_count :: "write_batch \<Rightarrow> u32 option" where
  "wbi_count rep = decode_fixed32 (drop 8 rep)"

text \<open>Storing bytes at a position of the string, which must hold all of them.\<close>

definition store_at :: "nat \<Rightarrow> bytes \<Rightarrow> bytes \<Rightarrow> bytes option" where
  "store_at i bs rep =
     (if i + length bs \<le> length rep then Some (take i rep @ bs @ drop (i + length bs) rep) else None)"

definition wbi_set_count :: "write_batch \<Rightarrow> u32 \<Rightarrow> write_batch option" where
  "wbi_set_count rep n = store_at 8 (encode_fixed32 n) rep"

definition wbi_sequence :: "write_batch \<Rightarrow> sequence_number option" where
  "wbi_sequence rep = decode_fixed64 rep"

text \<open>The eight bytes go to position 8, where the count and the first records are.\<close>

definition wbi_set_sequence :: "write_batch \<Rightarrow> sequence_number \<Rightarrow> write_batch option" where
  "wbi_set_sequence rep s = store_at 8 (encode_fixed64 s) rep"

definition wbi_contents :: "write_batch \<Rightarrow> slice" where
  "wbi_contents rep = slice_of_string rep"

definition wbi_byte_size :: "write_batch \<Rightarrow> nat" where
  "wbi_byte_size rep = length rep"

text \<open>\<open>Put\<close> writes the old count back.\<close>

definition wb_Put :: "write_batch \<Rightarrow> slice \<Rightarrow> slice \<Rightarrow> write_batch option" where
  "wb_Put rep key val =
     Option.bind (wbi_count rep) (\<lambda>n.
     Option.bind (wbi_set_count rep n) (\<lambda>rep1.
       let rep2 = rep1 @ [value_type_byte kTypeValue];
           rep3 = put_length_prefixed_slice rep2 key
       in Some (put_length_prefixed_slice rep3 val)))"

section \<open>The records of a batch\<close>

definition batch_record :: "slice \<times> slice \<Rightarrow> bytes" where
  "batch_record kv = value_type_byte kTypeValue
     # put_length_prefixed_slice [] (fst kv) @ put_length_prefixed_slice [] (snd kv)"

function batch_records :: "bytes \<Rightarrow> (slice \<times> slice) list option" where
  "batch_records [] = Some []"
| "batch_records (t # s) =
     (if t \<noteq> value_type_byte kTypeValue then None
      else case get_length_prefixed_slice s of
             (Some k, s1) \<Rightarrow>
               (case get_length_prefixed_slice s1 of
                  (Some v, s2) \<Rightarrow> map_option ((#) (k, v)) (batch_records s2)
                | (None, _) \<Rightarrow> None)
           | (None, _) \<Rightarrow> None)"
  by pat_completeness auto
termination
  by (relation "measure length") (auto dest!: get_length_prefixed_shrinks[OF sym])

fun put_all :: "write_batch \<Rightarrow> (slice \<times> slice) list \<Rightarrow> write_batch option" where
  "put_all rep [] = Some rep"
| "put_all rep ((k, v) # kvs) = Option.bind (wb_Put rep k v) (\<lambda>rep'. put_all rep' kvs)"

lemma wbi_count_Some: "12 \<le> length rep \<Longrightarrow> \<exists>n. wbi_count rep = Some n"
  by (cases "drop 8 rep" rule: decode_fixed32.cases) (auto simp: wbi_count_def dest: arg_cong[of _ _ length])

lemma encode_decode_fixed32: "decode_fixed32 p = Some n \<Longrightarrow> encode_fixed32 n = take 4 p"
proof (cases p rule: decode_fixed32.cases)
  case (1 b0 b1 b2 b3 r)
  assume "decode_fixed32 p = Some n"
  moreover have "ucast n = b0" "ucast (drop_bit 8 n) = b1" "ucast (drop_bit 16 n) = b2"
    "ucast (drop_bit 24 n) = b3" if n: "n = ucast b0 OR push_bit 8 (ucast b1) OR push_bit 16 (ucast b2)
      OR push_bit 24 (ucast b3)"
    unfolding n by ((rule bit_word_eqI, auto simp: bit_simps dest: bit_imp_le_length)[1])+
  ultimately show ?thesis using 1 by (auto simp: encode_fixed32_def)
qed auto

lemma set_count_count:
  assumes "wbi_count rep = Some n" and "12 \<le> length rep"
  shows "wbi_set_count rep n = Some rep"
proof -
  have "encode_fixed32 n = take 4 (drop 8 rep)"
    using assms(1) encode_decode_fixed32 unfolding wbi_count_def by blast
  then show ?thesis using assms(2)
    by (simp add: wbi_set_count_def store_at_def) (metis append_take_drop_id drop_drop numeral_plus_numeral semiring_norm(6,3,2) add.commute)
qed

lemma wb_Put_appends:
  assumes "12 \<le> length rep"
  shows "wb_Put rep k v = Some (rep @ batch_record (k, v))"
proof -
  obtain n where "wbi_count rep = Some n" using wbi_count_Some[OF assms] by blast
  then show ?thesis using set_count_count[OF _ assms]
    by (simp add: wb_Put_def batch_record_def put_length_prefixed_append[of "_ @ _"]
        put_length_prefixed_append[of "_ # _"])
qed

lemma put_all_appends:
  "12 \<le> length rep \<Longrightarrow> put_all rep kvs = Some (rep @ concat (map batch_record kvs))"
  by (induction kvs arbitrary: rep) (auto simp: wb_Put_appends)

lemma batch_records_concat:
  "(\<And>k v. (k, v) \<in> set kvs \<Longrightarrow> length k < 2 ^ 32 \<and> length v < 2 ^ 32) \<Longrightarrow>
   batch_records (concat (map batch_record kvs)) = Some kvs"
proof (induction kvs)
  case (Cons kv kvs)
  obtain k v where kv: "kv = (k, v)" by force
  have "batch_records (concat (map batch_record kvs)) = Some kvs" using Cons by auto
  with Cons.prems[of k v] show ?case
    by (simp add: kv batch_record_def[of "(k, v)"] get_put_length_prefixed)
qed simp

section \<open>Properties\<close>



text \<open>
  \<open>Put\<close> stores the old count back, so the count of a batch stays 0 however many records it
  holds; and \<open>set_sequence\<close>, which stores at the count's position, has no room for its eight
  bytes in a fresh batch, and otherwise leaves the stored sequence number as it was.
\<close>

theorem batch_header_stuck:
  "(\<exists>rep. put_all wb_ctor kvs = Some rep \<and> wbi_count rep = Some 0)
   \<and> wbi_set_sequence wb_ctor s = None
   \<and> (\<forall>rep. (case wbi_set_sequence rep s of None \<Rightarrow> True
        | Some rep' \<Rightarrow> wbi_sequence rep' = wbi_sequence rep))"
proof (intro conjI allI)
  have "put_all wb_ctor kvs = Some (wb_ctor @ concat (map batch_record kvs))"
    by (rule put_all_appends) (simp add: wb_ctor_def wb_Clear_def kHeader_def)
  moreover have "wbi_count (wb_ctor @ r) = Some 0" for r
    by (simp add: wbi_count_def wb_ctor_def wb_Clear_def kHeader_def numeral_eq_Suc)
  ultimately show "\<exists>rep. put_all wb_ctor kvs = Some rep \<and> wbi_count rep = Some 0" by blast
  show "wbi_set_sequence wb_ctor s = None"
    by (simp add: wbi_set_sequence_def store_at_def wb_ctor_def wb_Clear_def kHeader_def)
next
  fix rep
  show "case wbi_set_sequence rep s of None \<Rightarrow> True | Some rep' \<Rightarrow> wbi_sequence rep' = wbi_sequence rep"
    by (cases rep rule: decode_fixed64.cases)
      (auto simp: wbi_set_sequence_def store_at_def wbi_sequence_def numeral_eq_Suc)
qed

end
