(* ===== verification/File_Interface.thy ===== *)
theory File_Interface
  imports Status
begin

text \<open>
  The file classes of \<open>include/leveldb/env.h\<close>: a record of the virtual functions over the state
  \<open>'f\<close> in which the file lives.  \<open>None\<close> is a call that does not return.  The two locales state
  what the log relies on: a writable file that works appends every byte in order, and a
  sequential file that works delivers its remaining bytes in order, short reads at the end only.
  They are interpreted for the POSIX files.
\<close>

record 'f writable_file =
  wf_append :: "slice \<Rightarrow> 'f \<Rightarrow> (status \<times> 'f) option"
  wf_close :: "'f \<Rightarrow> (status \<times> 'f) option"
  wf_flush :: "'f \<Rightarrow> (status \<times> 'f) option"
  wf_sync :: "'f \<Rightarrow> (status \<times> 'f) option"

record 'f sequential_file =
  sf_read :: "nat \<Rightarrow> 'f \<Rightarrow> (status \<times> slice \<times> 'f) option"
  sf_skip :: "u64 \<Rightarrow> 'f \<Rightarrow> (status \<times> 'f) option"

record 'f random_access_file =
  rf_read :: "u64 \<Rightarrow> nat \<Rightarrow> 'f \<Rightarrow> (status \<times> slice \<times> 'f) option"

locale byte_sink =
  fixes dest :: "'f writable_file" and good :: "'f \<Rightarrow> bool" and contents :: "'f \<Rightarrow> bytes"
  assumes append: "good f \<Longrightarrow>
      \<exists>f'. wf_append dest d f = Some (Status_Ok, f') \<and> good f' \<and> contents f' = contents f @ d"
    and flush: "good f \<Longrightarrow>
      \<exists>f'. wf_flush dest f = Some (Status_Ok, f') \<and> good f' \<and> contents f' = contents f"

locale byte_source =
  fixes sf :: "'r sequential_file" and ready :: "'r \<Rightarrow> bool" and remaining :: "'r \<Rightarrow> bytes"
  assumes read: "ready r \<Longrightarrow>
      \<exists>r'. sf_read sf n r = Some (Status_Ok, take n (remaining r), r') \<and> ready r'
        \<and> remaining r' = drop n (remaining r)"

end
