(* ===== verification/Log_Format.thy ===== *)
theory Log_Format
  imports Crc32c Coding
begin

text \<open>
  \<open>__detail/log_format.h\<close>, and the layout of a log file as a specification that the writer is
  shown to produce and the reader to consume: blocks of 32768 bytes; a record header is a masked
  CRC, a two-byte length and a type byte, and never straddles a block boundary.
\<close>

datatype record_type = kZeroType | kFullType | kFirstType | kMiddleType | kLastType

fun record_type_num :: "record_type \<Rightarrow> nat" where
  "record_type_num kZeroType = 0"
| "record_type_num kFullType = 1"
| "record_type_num kFirstType = 2"
| "record_type_num kMiddleType = 3"
| "record_type_num kLastType = 4"

definition kMaxRecordType :: nat where
  "kMaxRecordType = record_type_num kLastType"

definition kBlockSize :: nat where
  "kBlockSize = 32768"

definition kHeaderSize :: nat where
  "kHeaderSize = 4 + 2 + 1"

lemmas log_sizes = kBlockSize_def kHeaderSize_def

section \<open>The layout of a log\<close>

text \<open>Where the next record starts, and how many bytes are filled up to there.\<close>

definition start_of :: "nat \<Rightarrow> nat" where
  "start_of off = (if kBlockSize - off < kHeaderSize then 0 else off)"

definition fill_of :: "nat \<Rightarrow> nat" where
  "fill_of off = (if kBlockSize - off < kHeaderSize then kBlockSize - off else 0)"

definition type_byte :: "record_type \<Rightarrow> byte" where
  "type_byte t = of_nat (record_type_num t)"

definition header_of :: "record_type \<Rightarrow> bytes \<Rightarrow> bytes" where
  "header_of t d = encode_fixed32 (crc_mask (crc_value None 0 (type_byte t # d)))
     @ [of_nat (length d mod 256), of_nat (length d div 256), type_byte t]"

fun layout :: "nat \<Rightarrow> (record_type \<times> bytes) list \<Rightarrow> bytes" where
  "layout off [] = []"
| "layout off ((t, d) # ps) =
     replicate (fill_of off) 0 @ header_of t d @ d @ layout (start_of off + kHeaderSize + length d) ps"

fun layout_end :: "nat \<Rightarrow> (record_type \<times> bytes) list \<Rightarrow> nat" where
  "layout_end off [] = off"
| "layout_end off ((t, d) # ps) = layout_end (start_of off + kHeaderSize + length d) ps"

fun layout_fits :: "nat \<Rightarrow> (record_type \<times> bytes) list \<Rightarrow> bool" where
  "layout_fits off [] \<longleftrightarrow> off \<le> kBlockSize"
| "layout_fits off ((t, d) # ps) \<longleftrightarrow> off \<le> kBlockSize \<and>
     start_of off + kHeaderSize + length d \<le> kBlockSize \<and>
     layout_fits (start_of off + kHeaderSize + length d) ps"

lemma layout_append:
  "layout off (ps @ qs) = layout off ps @ layout (layout_end off ps) qs"
  "layout_end off (ps @ qs) = layout_end (layout_end off ps) qs"
  by (induction off ps rule: layout.induct) simp_all

lemma layout_fits_append:
  "layout_fits off (ps @ qs) \<longleftrightarrow> layout_fits off ps \<and> layout_fits (layout_end off ps) qs"
proof (induction off ps rule: layout_fits.induct)
  case (1 off)
  then show ?case by (cases "(off, qs)" rule: layout_fits.cases) auto
qed auto

lemma layout_end_le: "layout_fits off ps \<Longrightarrow> layout_end off ps \<le> kBlockSize"
  by (induction off ps rule: layout.induct) auto

lemma length_header_of [simp]: "length (header_of t d) = kHeaderSize"
  by (simp add: header_of_def kHeaderSize_def)

lemma start_of_le: "off \<le> kBlockSize \<Longrightarrow> start_of off + kHeaderSize \<le> kBlockSize"
  by (auto simp: start_of_def log_sizes)

section \<open>How a record is cut into pieces\<close>

text \<open>
  The pieces the writer produces.  A record that does not fit the rest of its block begins with a
  \<open>kFirstType\<close> piece; because the writer tests \<open>begin\<close> where it should test \<open>end\<close>, every later
  piece, the last one included, is a \<open>kMiddleType\<close>.
\<close>

definition piece_type :: "bool \<Rightarrow> bool \<Rightarrow> record_type" where
  "piece_type at_begin at_end =
     (if at_begin \<and> at_end then kFullType else if at_begin then kFirstType else kMiddleType)"

definition piece_length :: "nat \<Rightarrow> nat \<Rightarrow> nat" where
  "piece_length off left =
     (let avail = kBlockSize - start_of off - kHeaderSize in if left < avail then left else avail)"

function pieces :: "bool \<Rightarrow> nat \<Rightarrow> bytes \<Rightarrow> (record_type \<times> bytes) list" where
  "pieces at_begin off d =
     (let n = piece_length off (length d)
      in (piece_type at_begin (length d = n), take n d)
         # (if n < length d then pieces False (start_of off + kHeaderSize + n) (drop n d) else []))"
  by pat_completeness auto
termination
proof (relation "measure (\<lambda>(b, off, d). 2 * length d + (if kBlockSize - off = kHeaderSize then 1 else 0))", goal_cases)
  case 1
  then show ?case by simp
next
  case (2 b off d n)
  show ?case
  proof (cases "n = 0")
    case True
    with 2 have "kBlockSize - start_of off = kHeaderSize"
      by (auto simp: piece_length_def Let_def start_of_def log_sizes split: if_splits)
    then have "kBlockSize - off = kHeaderSize" by (auto simp: start_of_def log_sizes split: if_splits)
    with True show ?thesis by (simp add: start_of_def log_sizes)
  next
    case False
    with 2 show ?thesis by (auto simp: log_sizes)
  qed
qed

declare pieces.simps [simp del]

lemma piece_fits:
  "off \<le> kBlockSize \<Longrightarrow> start_of off + kHeaderSize + piece_length off n \<le> kBlockSize"
  using start_of_le[of off] by (auto simp: piece_length_def Let_def log_sizes)

lemma pieces_fit: "off \<le> kBlockSize \<Longrightarrow> layout_fits off (pieces b off d)"
proof (induction b off d rule: pieces.induct)
  case (1 b off d)
  let ?n = "piece_length off (length d)"
  have n: "length (take ?n d) = ?n" by (auto simp: piece_length_def Let_def)
  show ?case using 1 piece_fits[of off "length d"] n
    by (subst pieces.simps) (auto simp: Let_def)
qed

lemma concat_pieces: "concat (map snd (pieces b off d)) = d"
proof (induction b off d rule: pieces.induct)
  case (1 b off d)
  then show ?case by (subst pieces.simps) (auto simp: Let_def)
qed

lemma pieces_single:
  "length d \<le> kBlockSize - start_of off - kHeaderSize \<Longrightarrow>
   pieces b off d = [(piece_type b True, d)]"
  by (subst pieces.simps) (auto simp: piece_length_def Let_def)

lemma pieces_tail_types: "(t, p) \<in> set (pieces b off d) \<Longrightarrow> \<not> b \<Longrightarrow> t = kMiddleType"
proof (induction b off d rule: pieces.induct)
  case (1 b off d)
  let ?n = "piece_length off (length d)"
  show ?case
  proof (cases "?n < length d")
    case True
    with 1 show ?thesis by (subst (asm) (2) pieces.simps) (auto simp: Let_def piece_type_def)
  next
    case False
    with 1 show ?thesis by (subst (asm) (2) pieces.simps) (auto simp: Let_def piece_type_def)
  qed
qed

lemma pieces_many:
  assumes "kBlockSize - start_of off - kHeaderSize < length d"
  obtains d' ps where "pieces True off d = (kFirstType, d') # ps" "ps \<noteq> []" "fst ` set ps = {kMiddleType}"
proof -
  let ?n = "piece_length off (length d)"
  let ?ps = "pieces False (start_of off + kHeaderSize + ?n) (drop ?n d)"
  have n: "?n < length d" using assms by (auto simp: piece_length_def Let_def)
  then have "pieces True off d = (kFirstType, take ?n d) # ?ps"
    by (subst pieces.simps) (auto simp: Let_def piece_type_def)
  moreover have "?ps \<noteq> []" by (subst pieces.simps) (simp add: Let_def)
  moreover have "fst ` set ?ps = {kMiddleType}"
  proof -
    have "fst ` set ?ps \<subseteq> {kMiddleType}" using pieces_tail_types by fastforce
    with calculation(2) show ?thesis by (metis image_is_empty set_empty subset_singletonD)
  qed
  ultimately show thesis using that by blast
qed

end
