(* ===== verification/Log_Writer.thy ===== *)
theory Log_Writer
  imports Log_Format File_Interface
begin

text \<open>
  \<open>__detail/log_write.cc\<close>.  The writer's state is its block offset and the table of type CRCs;
  the constructor fills the table for the types below \<open>kMaxRecordType\<close> only, so the entry of
  \<open>kLastType\<close> stays uninitialised and reading it has no result.  The file is any writable file.
\<close>

record log_writer =
  block_offset :: nat
  type_crc :: "u32 list"

definition init_type_crc :: "u32 list" where
  "init_type_crc = map (\<lambda>i. crc_value None 0 [of_nat i]) [0..<kMaxRecordType]"

definition writer_ctor :: log_writer where
  "writer_ctor = \<lparr>block_offset = 0, type_crc = init_type_crc\<rparr>"

definition writer_ctor_at :: "u64 \<Rightarrow> log_writer" where
  "writer_ctor_at dest_length = \<lparr>block_offset = unat dest_length mod kBlockSize, type_crc = init_type_crc\<rparr>"

definition emit_physical_record ::
  "'f writable_file \<Rightarrow> record_type \<Rightarrow> slice \<Rightarrow> log_writer \<Rightarrow> 'f \<Rightarrow> (status \<times> log_writer \<times> 'f) option" where
  "emit_physical_record dest t ptr w f =
     (if \<not> length ptr \<le> 0xffff \<or> \<not> block_offset w + kHeaderSize + length ptr \<le> kBlockSize
         \<or> length (type_crc w) \<le> record_type_num t
      then None
      else
        let crc = crc_mask (crc_extend None 0 (type_crc w ! record_type_num t) ptr);
            buf = encode_fixed32 crc
              @ [of_nat (length ptr mod 256), of_nat (length ptr div 256), of_nat (record_type_num t)]
        in Option.bind (wf_append dest buf f) (\<lambda>(s, f1).
           Option.bind
             (if is_ok s
              then Option.bind (wf_append dest ptr f1) (\<lambda>(s', f2).
                     if is_ok s' then wf_flush dest f2 else Some (s', f2))
              else Some (s, f1)) (\<lambda>(s, f3).
           Some (s, w\<lparr>block_offset := block_offset w + kHeaderSize + length ptr\<rparr>, f3))))"

text \<open>Filling the end of a block; the status of that append is ignored.\<close>

definition switch_block :: "'f writable_file \<Rightarrow> log_writer \<Rightarrow> 'f \<Rightarrow> (log_writer \<times> 'f) option" where
  "switch_block dest w f =
     (let left_over = kBlockSize - block_offset w in
      if kBlockSize < block_offset w then None
      else if left_over < kHeaderSize then
        Option.bind (if 0 < left_over
            then map_option snd (wf_append dest (slice_of_ptr [0, 0, 0, 0, 0, 0] left_over) f)
            else Some f)
          (\<lambda>f1. Some (w\<lparr>block_offset := 0\<rparr>, f1))
      else Some (w, f))"

definition fragment_type :: "bool \<Rightarrow> bool \<Rightarrow> record_type" where
  "fragment_type at_begin at_end =
     (if at_begin \<and> at_end then kFullType
      else if at_begin then kFirstType
      else if at_begin then kLastType
      else kMiddleType)"

lemma emit_offset:
  "emit_physical_record dest t ptr w f = Some (s, w', f') \<Longrightarrow>
   block_offset w' = block_offset w + kHeaderSize + length ptr"
  by (auto simp: emit_physical_record_def Let_def bind_eq_Some_conv split: if_splits)

lemma switch_block_offset:
  "switch_block dest w f = Some (w', f') \<Longrightarrow>
   block_offset w' = start_of (block_offset w) \<and> block_offset w \<le> kBlockSize"
  by (auto simp: switch_block_def start_of_def Let_def bind_eq_Some_conv split: if_splits)

function add_record_loop ::
  "'f writable_file \<Rightarrow> bool \<Rightarrow> slice \<Rightarrow> log_writer \<Rightarrow> 'f \<Rightarrow> (status \<times> log_writer \<times> 'f) option" where
  "add_record_loop dest at_begin ptr w f =
     (case switch_block dest w f of
        None \<Rightarrow> None
      | Some (w1, f1) \<Rightarrow>
          if kBlockSize < block_offset w1 + kHeaderSize then None
          else
            let avail = kBlockSize - block_offset w1 - kHeaderSize;
                fragment_length = (if length ptr < avail then length ptr else avail);
                at_end = (length ptr = fragment_length)
            in (case emit_physical_record dest (fragment_type at_begin at_end) (take fragment_length ptr) w1 f1 of
                  None \<Rightarrow> None
                | Some (s, w2, f2) \<Rightarrow>
                    if is_ok s \<and> 0 < length ptr - fragment_length
                    then add_record_loop dest False (drop fragment_length ptr) w2 f2
                    else Some (s, w2, f2)))"
  by pat_completeness auto
termination
proof (relation "measure (\<lambda>(dest, b, ptr, w, f). 2 * length ptr
    + (if kBlockSize - block_offset w = kHeaderSize then 1 else 0))", goal_cases)
  case 1
  then show ?case by simp
next
  case (2 dest b ptr w f a w1 f1 avail n e y s y2 w2 f2)
  then have "switch_block dest w f = Some (w1, f1)" by simp
  then have w1: "block_offset w1 = start_of (block_offset w)" and w: "block_offset w \<le> kBlockSize"
    by (simp_all add: switch_block_offset)
  have w2: "block_offset w2 = block_offset w1 + kHeaderSize + min n (length ptr)"
    using 2 emit_offset by (fastforce simp: min.commute)
  show ?case
  proof (cases "n = 0")
    case True
    with 2 have "kBlockSize - block_offset w1 = kHeaderSize" by (auto split: if_splits)
    with w w1 have "kBlockSize - block_offset w = kHeaderSize" by (auto simp: start_of_def log_sizes split: if_splits)
    with True w1 w2 show ?thesis by (simp add: start_of_def log_sizes)
  next
    case False
    with 2 show ?thesis by (auto simp: log_sizes)
  qed
qed

declare add_record_loop.simps [simp del]

definition add_record ::
  "'f writable_file \<Rightarrow> slice \<Rightarrow> log_writer \<Rightarrow> 'f \<Rightarrow> (status \<times> log_writer \<times> 'f) option" where
  "add_record dest sle w f = add_record_loop dest True sle w f"

section \<open>What the writer produces\<close>

lemma fragment_type_piece [simp]: "fragment_type b e = piece_type b e"
  by (simp add: fragment_type_def piece_type_def)

lemma init_type_crc_nth:
  "t \<noteq> kLastType \<Longrightarrow> init_type_crc ! record_type_num t = crc_value None 0 [type_byte t]"
  "t \<noteq> kLastType \<Longrightarrow> record_type_num t < length init_type_crc"
  by (cases t; simp add: init_type_crc_def kMaxRecordType_def type_byte_def)+

text \<open>The writer's invariant between two calls.\<close>

definition writer_ok :: "log_writer \<Rightarrow> bool" where
  "writer_ok w \<longleftrightarrow> block_offset w \<le> kBlockSize \<and> type_crc w = init_type_crc"

lemma writer_ctor_ok: "writer_ok writer_ctor" "writer_ok (writer_ctor_at n)"
  by (simp_all add: writer_ok_def writer_ctor_def writer_ctor_at_def kBlockSize_def less_imp_le)

context byte_sink begin

lemma emit_works:
  assumes "good f" "writer_ok w" "t \<noteq> kLastType"
    and "block_offset w + kHeaderSize + length ptr \<le> kBlockSize"
  shows "\<exists>f'. emit_physical_record dest t ptr w f
      = Some (Status_Ok, w\<lparr>block_offset := block_offset w + kHeaderSize + length ptr\<rparr>, f')
    \<and> good f' \<and> contents f' = contents f @ header_of t ptr @ ptr"
proof -
  have crc: "crc_extend None 0 (type_crc w ! record_type_num t) ptr = crc_value None 0 (type_byte t # ptr)"
    using assms(2,3) crc_pieces[of 0 0 "[type_byte t]" ptr 0] by (simp add: writer_ok_def init_type_crc_nth)
  obtain f1 where f1: "wf_append dest (header_of t ptr) f = Some (Status_Ok, f1)" "good f1"
    "contents f1 = contents f @ header_of t ptr" using append[OF assms(1)] by blast
  obtain f2 where f2: "wf_append dest ptr f1 = Some (Status_Ok, f2)" "good f2"
    "contents f2 = contents f1 @ ptr" using append[OF f1(2)] by blast
  obtain f3 where f3: "wf_flush dest f2 = Some (Status_Ok, f3)" "good f3" "contents f3 = contents f2"
    using flush[OF f2(2)] by blast
  have "length ptr \<le> 65535" using assms(4) by (simp add: log_sizes)
  moreover have "record_type_num t < length (type_crc w)"
    using assms(2) init_type_crc_nth(2)[OF assms(3)] by (simp add: writer_ok_def)
  moreover have buf: "encode_fixed32 (crc_mask (crc_extend None 0 (type_crc w ! record_type_num t) ptr))
      @ [of_nat (length ptr mod 256), of_nat (length ptr div 256), of_nat (record_type_num t)]
      = header_of t ptr" unfolding crc header_of_def type_byte_def by (rule refl)
  ultimately show ?thesis using assms(4) f1 f2 f3
    unfolding emit_physical_record_def Let_def buf by (simp add: not_le)
qed

lemma switch_block_works:
  assumes "good f" "writer_ok w"
  shows "\<exists>f'. switch_block dest w f = Some (w\<lparr>block_offset := start_of (block_offset w)\<rparr>, f')
    \<and> good f' \<and> contents f' = contents f @ replicate (fill_of (block_offset w)) 0"
proof -
  let ?l = "kBlockSize - block_offset w"
  have "?l \<le> 6 \<Longrightarrow> take ?l [0, 0, 0, 0, 0, 0] = replicate ?l (0 :: byte)"
    by (rule nth_equalityI) (auto simp: nth_Cons split: nat.splits)
  moreover obtain f1 where "wf_append dest (replicate ?l 0) f = Some (Status_Ok, f1)" "good f1"
    "contents f1 = contents f @ replicate ?l 0" using append[OF assms(1)] by blast
  ultimately show ?thesis using assms
    by (cases "?l < 7") (auto simp: switch_block_def writer_ok_def start_of_def fill_of_def
        slice_of_ptr_def kHeaderSize_def Let_def)
qed

lemma add_record_loop_works:
  assumes "good f" "writer_ok w"
  shows "\<exists>w' f'. add_record_loop dest b ptr w f = Some (Status_Ok, w', f') \<and> good f' \<and> writer_ok w'
    \<and> block_offset w' = layout_end (block_offset w) (pieces b (block_offset w) ptr)
    \<and> contents f' = contents f @ layout (block_offset w) (pieces b (block_offset w) ptr)"
  using assms
proof (induction b "block_offset w" ptr arbitrary: w f rule: pieces.induct)
  case (1 b ptr w f)
  let ?off = "block_offset w"
  let ?n = "piece_length ?off (length ptr)"
  let ?w1 = "w\<lparr>block_offset := start_of ?off\<rparr>"
  let ?w2 = "w\<lparr>block_offset := start_of ?off + kHeaderSize + ?n\<rparr>"
  let ?t = "piece_type b (length ptr = ?n)"
  have off: "?off \<le> kBlockSize" using 1 by (simp add: writer_ok_def)
  have n: "length (take ?n ptr) = ?n" "?n \<le> length ptr" by (auto simp: piece_length_def Let_def)
  note fits = piece_fits[OF off, of "length ptr"]
  obtain f1 where f1: "switch_block dest w f = Some (?w1, f1)" "good f1"
    "contents f1 = contents f @ replicate (fill_of ?off) 0"
    using switch_block_works[OF "1.prems"] by blast
  have "writer_ok ?w1" "?t \<noteq> kLastType"
    using 1 start_of_le[OF off] by (auto simp: writer_ok_def piece_type_def)
  then obtain f2 where f2: "emit_physical_record dest ?t (take ?n ptr) ?w1 f1 = Some (Status_Ok, ?w2, f2)"
    "good f2" "contents f2 = contents f1 @ header_of ?t (take ?n ptr) @ take ?n ptr"
    using emit_works[OF f1(2), of ?w1 ?t "take ?n ptr"] fits n by auto
  have loop: "add_record_loop dest b ptr w f =
      (if ?n < length ptr then add_record_loop dest False (drop ?n ptr) ?w2 f2 else Some (Status_Ok, ?w2, f2))"
    using f1 f2 start_of_le[OF off]
    by (subst add_record_loop.simps) (simp add: Let_def piece_length_def)
  show ?case
  proof (cases "?n < length ptr")
    case True
    have w2: "writer_ok ?w2" using 1 fits by (simp add: writer_ok_def)
    have "?n = ?n" "start_of ?off + kHeaderSize + ?n = block_offset ?w2" by simp_all
    from "1.hyps"[OF this(1) True this(2) f2(2) w2] obtain w' f' where
      "add_record_loop dest False (drop ?n ptr) ?w2 f2 = Some (Status_Ok, w', f')" "good f'" "writer_ok w'"
      "block_offset w' = layout_end (block_offset ?w2) (pieces False (block_offset ?w2) (drop ?n ptr))"
      "contents f' = contents f2 @ layout (block_offset ?w2) (pieces False (block_offset ?w2) (drop ?n ptr))"
      by blast
    with True show ?thesis using loop n f1(3) f2(3)
      by (subst (1 2) pieces.simps) (simp add: Let_def add.assoc)
  next
    case False
    have "writer_ok ?w2" using 1 fits by (simp add: writer_ok_def)
    with False show ?thesis using loop n f1(3) f2
      by (subst (1 2) pieces.simps) (auto simp: Let_def)
  qed
qed

end

end
