(* ===== verification/Log_Reader.thy ===== *)
theory Log_Reader
  imports Log_Format File_Interface File_Names
begin

text \<open>
  \<open>__detail/log_reader.cc\<close>.  The reader's state is a record of the class's members; the calls to
  the reporter are collected, in order, in \<open>reports\<close>.  \<open>result\<close> of \<open>read_physical_record\<close> is an
  in/out parameter because several branches leave the caller's slice as it was.  The loop over
  blocks ends because a read that is shorter than a block sets \<open>eof\<close>; the loop over physical
  records runs as long as the file delivers records, so it is a partial function and \<open>None\<close> is
  a run that never returns.
\<close>

definition kEof :: u32 where
  "kEof = of_nat kMaxRecordType + 1"

definition kBadRecord :: u32 where
  "kBadRecord = of_nat kMaxRecordType + 2"

record 'r log_reader =
  rd_file :: 'r
  has_reporter :: bool
  checksum :: bool
  buffer :: slice
  eof :: bool
  last_record_offset :: u64
  end_of_buffer_offset :: u64
  initial_offset :: u64
  resyncing :: bool
  reports :: "(nat \<times> status) list"

definition reader_ctor :: "'r \<Rightarrow> bool \<Rightarrow> bool \<Rightarrow> u64 \<Rightarrow> 'r log_reader" where
  "reader_ctor file reporter chk initial =
     \<lparr>rd_file = file, has_reporter = reporter, checksum = chk, buffer = slice_empty_ctor, eof = False,
      last_record_offset = 0, end_of_buffer_offset = 0, initial_offset = initial,
      resyncing = 0 < initial, reports = []\<rparr>"

section \<open>Reporting\<close>

definition report_drop :: "nat \<Rightarrow> status \<Rightarrow> 'r log_reader \<Rightarrow> 'r log_reader" where
  "report_drop n reason rd =
     (if has_reporter rd
         \<and> initial_offset rd \<le> end_of_buffer_offset rd - of_nat (slice_size (buffer rd)) - of_nat n
      then rd\<lparr>reports := reports rd @ [(n, reason)]\<rparr> else rd)"

definition report_corruption :: "nat \<Rightarrow> string \<Rightarrow> 'r log_reader \<Rightarrow> 'r log_reader" where
  "report_corruption n reason rd = report_drop n (corruption (cstr reason) slice_empty_ctor) rd"

section \<open>Physical records\<close>

definition skip_to_initial_block :: "'r sequential_file \<Rightarrow> 'r log_reader \<Rightarrow> (bool \<times> 'r log_reader) option" where
  "skip_to_initial_block sf rd =
     (let offset_in_block = initial_offset rd mod of_nat kBlockSize;
          start = initial_offset rd - offset_in_block;
          start' = (if of_nat (kBlockSize - 6) < offset_in_block then start + of_nat kBlockSize else start);
          rd1 = rd\<lparr>end_of_buffer_offset := start'\<rparr>
      in if 0 < start' then
           (case sf_skip sf start' (rd_file rd1) of
              None \<Rightarrow> None
            | Some (s, r') \<Rightarrow>
                let rd2 = rd1\<lparr>rd_file := r'\<rparr>
                in if \<not> is_ok s then Some (False, report_drop (unat start') s rd2) else Some (True, rd2))
         else Some (True, rd1))"

definition header_length :: "slice \<Rightarrow> u32" where
  "header_length header =
     (let a = scast (header ! 4) AND 0xff; b = scast (header ! 5) AND 0xff in a OR push_bit 8 b)"

text \<open>The part of \<open>read_physical_record\<close> after the buffer holds a header.\<close>

definition parse_physical_record :: "slice \<Rightarrow> 'r log_reader \<Rightarrow> u32 \<times> slice \<times> 'r log_reader" where
  "parse_physical_record result rd =
     (let header = buffer rd;
          type = (scast (header ! 6) :: u32);
          len = unat (header_length header);
          drop_size = slice_size (buffer rd);
          cleared = rd\<lparr>buffer := []\<rparr>
      in if slice_size (buffer rd) < kHeaderSize + len then
           (if \<not> eof rd
            then (kBadRecord, result, report_corruption drop_size ''bad record length'' cleared)
            else (kEof, result, cleared))
         else if type = of_nat (record_type_num kZeroType) \<and> len = 0 then (kBadRecord, result, cleared)
         else if checksum rd \<and>
             Some (crc_value None 0 (take (1 + len) (drop 6 header)))
               \<noteq> map_option crc_unmask (decode_fixed32 header)
         then (kBadRecord, result, report_corruption drop_size ''checksum mismatch'' cleared)
         else
           let rd' = rd\<lparr>buffer := drop (kHeaderSize + len) (buffer rd)\<rparr>
           in if end_of_buffer_offset rd' - of_nat (slice_size (buffer rd')) - of_nat kHeaderSize
                 - of_nat len < initial_offset rd'
              then (kBadRecord, slice_clear result, rd')
              else (type, take len (drop kHeaderSize header), rd'))"

function read_physical_record ::
  "'r sequential_file \<Rightarrow> slice \<Rightarrow> 'r log_reader \<Rightarrow> (u32 \<times> slice \<times> 'r log_reader) option" where
  "read_physical_record sf result rd =
     (if slice_size (buffer rd) < kHeaderSize then
        if \<not> eof rd then
          (case sf_read sf kBlockSize (rd_file rd) of
             None \<Rightarrow> None
           | Some (s, data, r') \<Rightarrow>
               let rd1 = rd\<lparr>rd_file := r', buffer := data,
                     end_of_buffer_offset := end_of_buffer_offset rd + of_nat (slice_size data)\<rparr>
               in if \<not> is_ok s
                  then Some (kEof, result, report_drop kBlockSize s (rd1\<lparr>buffer := []\<rparr>)\<lparr>eof := True\<rparr>)
                  else read_physical_record sf result
                         (if slice_size data < kBlockSize then rd1\<lparr>eof := True\<rparr> else rd1))
        else Some (kEof, result, rd\<lparr>buffer := []\<rparr>)
      else Some (parse_physical_record result rd))"
  by pat_completeness auto
termination
  by (relation "measure (\<lambda>(sf, r, rd). if slice_size (buffer rd) < kHeaderSize \<and> \<not> eof rd then 1 else 0)")
    (auto simp: log_sizes)

declare read_physical_record.simps [simp del]

section \<open>Logical records\<close>

definition unknown_type_text :: "u32 \<Rightarrow> bytes" where
  "unknown_type_text t = cstr ''unknown record type '' @ decimal_digits (unat t)"

definition record_type_code :: "record_type \<Rightarrow> u32" where
  "record_type_code t = of_nat (record_type_num t)"

text \<open>
  The arguments after the file are the local variables \<open>in_fragmented_record\<close>,
  \<open>prospective_record_offset\<close>, \<open>scratch\<close> and \<open>fragment\<close>; the result is the return value, the
  record, the scratch string and the reader.
\<close>

partial_function (option) read_record_loop ::
  "'r sequential_file \<Rightarrow> bool \<Rightarrow> u64 \<Rightarrow> bytes \<Rightarrow> slice \<Rightarrow> 'r log_reader
    \<Rightarrow> (bool \<times> slice \<times> bytes \<times> 'r log_reader) option" where
  "read_record_loop sf in_frag prospective scratch fragment rd =
     Option.bind (read_physical_record sf fragment rd) (\<lambda>(t, frag, rd1).
       let physical = end_of_buffer_offset rd1 - of_nat (slice_size (buffer rd1))
             - of_nat kHeaderSize - of_nat (slice_size frag);
           rd2 = rd1\<lparr>resyncing := False\<rparr>;
           partial = in_frag \<and> scratch \<noteq> []
       in if resyncing rd1 \<and> t = record_type_code kMiddleType
          then read_record_loop sf in_frag prospective scratch frag rd1
          else if resyncing rd1 \<and> t = record_type_code kLastType
          then read_record_loop sf in_frag prospective scratch frag rd2
          else if t = record_type_code kFullType
          then (let rd3 = (if partial then report_corruption (length scratch) ''partial record without end(1)'' rd2 else rd2)
                in Some (True, frag, [], rd3\<lparr>last_record_offset := physical\<rparr>))
          else if t = record_type_code kFirstType
          then (let rd3 = (if partial then report_corruption (length scratch) ''partial record without end(2)'' rd2 else rd2)
                in read_record_loop sf True physical frag frag rd3)
          else if t = record_type_code kMiddleType
          then (if \<not> in_frag
                then read_record_loop sf in_frag prospective scratch frag
                       (report_corruption (slice_size frag) ''missing start of fragmented record(1)'' rd2)
                else read_record_loop sf in_frag prospective (scratch @ frag) frag rd2)
          else if t = record_type_code kLastType
          then (if \<not> in_frag
                then read_record_loop sf in_frag prospective scratch frag
                       (report_corruption (slice_size frag) ''missing start of fragmented record(2)'' rd2)
                else Some (True, scratch @ frag, scratch @ frag, rd2\<lparr>last_record_offset := prospective\<rparr>))
          else if t = kEof then Some (False, [], if in_frag then [] else scratch, rd2)
          else if t = kBadRecord
          then (if in_frag
                then read_record_loop sf False prospective [] frag
                       (report_corruption (length scratch) ''error in middle of record'' rd2)
                else read_record_loop sf in_frag prospective scratch frag rd2)
          else read_record_loop sf False prospective [] frag
                 (report_drop (slice_size frag + (if in_frag then length scratch else 0))
                    (corruption (unknown_type_text t) slice_empty_ctor) rd2))"

definition read_record ::
  "'r sequential_file \<Rightarrow> slice \<Rightarrow> bytes \<Rightarrow> 'r log_reader \<Rightarrow> (bool \<times> slice \<times> bytes \<times> 'r log_reader) option" where
  "read_record sf rec scratch rd =
     (if last_record_offset rd < initial_offset rd then
        (case skip_to_initial_block sf rd of
           None \<Rightarrow> None
         | Some (skipped, rd') \<Rightarrow>
             if skipped then Some (False, rec, scratch, rd')
             else read_record_loop sf False 0 [] [] rd')
      else read_record_loop sf False 0 [] [] rd)"

end
