(* ===== verification/Log_Roundtrip.thy ===== *)
theory Log_Roundtrip
  imports Log_Writer Log_Reader
begin

text \<open>
  The log reader on what the log writer produced.  \<open>positioned\<close> relates a reader to the physical
  records it has still to deliver; the lemmas inside \<open>byte_source\<close> follow one physical record,
  then one logical record.
\<close>

section \<open>Decoding a header\<close>

lemma scast_and_255: "(scast (b :: byte) :: u32) AND 255 = ucast b"
proof (rule bit_word_eqI)
  fix n
  show "bit ((scast b :: u32) AND 255) n \<longleftrightarrow> bit (ucast b :: u32) n" if "n < LENGTH(32)"
  proof (cases "n < 8")
    case True
    then have "min 7 n = n" by simp
    with True that show ?thesis by (simp add: bit_simps)
  qed (use that in \<open>auto simp: bit_simps dest: bit_imp_le_length\<close>)
qed

lemma header_length_bytes:
  "unat (ucast (a :: byte) OR push_bit 8 (ucast (b :: byte)) :: u32) = unat a + 256 * unat b"
proof -
  have d: "ucast a AND push_bit 8 (ucast b :: u32) = 0"
    by (rule bit_word_eqI) (auto simp: bit_simps dest: bit_imp_le_length)
  have "unat a < 256" "unat b < 256" by simp_all
  then have "unat a + 256 * unat b < 4294967296" by linarith
  then have "(unat a + 256 * unat b) mod 4294967296 = unat a + 256 * unat b" by (rule mod_less)
  moreover have "unat (ucast a + push_bit 8 (ucast b) :: u32) = (unat a + 256 * unat b) mod 4294967296"
    by (simp add: push_bit_eq_mult unat_word_ariths mult.commute[of "unat b"] mod_simps)
  ultimately show ?thesis unfolding disjunctive_add_eq_or[OF d] by (rule trans[rotated])
qed

lemma header_of_parts:
  fixes d rest :: bytes and t :: record_type
  defines "b \<equiv> header_of t d @ d @ rest"
  assumes d: "length d < 65536"
  shows "unat (header_length b) = length d"
    and "(scast (b ! 6) :: u32) = record_type_code t"
    and "crc_value None 0 (take (Suc (length d)) (drop 6 b)) = crc_value None 0 (type_byte t # d)"
    and "map_option crc_unmask (decode_fixed32 b) = Some (crc_value None 0 (type_byte t # d))"
    and "drop kHeaderSize b = d @ rest"
proof -
  have "length (encode_fixed32 v) = 4" for v by simp
  then have b: "b ! 4 = of_nat (length d mod 256)" "b ! 5 = of_nat (length d div 256)"
    "b ! 6 = type_byte t" "drop 6 b = type_byte t # d @ rest" "drop kHeaderSize b = d @ rest"
    by (simp_all add: b_def header_of_def nth_append kHeaderSize_def)
  then show "drop kHeaderSize b = d @ rest"
    "crc_value None 0 (take (Suc (length d)) (drop 6 b)) = crc_value None 0 (type_byte t # d)" by simp_all
  have "unat (b ! 4) = length d mod 256" "unat (b ! 5) = length d div 256"
    using d by (simp_all add: b unat_of_nat take_bit_nat_eq_self less_mult_imp_div_less)
  then show "unat (header_length b) = length d"
    unfolding header_length_def Let_def scast_and_255 header_length_bytes by simp
  show "(scast (b ! 6) :: u32) = record_type_code t"
    by (cases t) (simp_all add: b type_byte_def record_type_code_def)
  show "map_option crc_unmask (decode_fixed32 b) = Some (crc_value None 0 (type_byte t # d))"
    by (simp add: b_def header_of_def decode_encode_fixed32 unmask_mask)
qed

section \<open>Reading physical records\<close>

lemma layout_unfold_start:
  assumes "kBlockSize - off < kHeaderSize"
  shows "layout off (p # ps) = replicate (kBlockSize - off) 0 @ layout 0 (p # ps)"
    "layout_fits off (p # ps) \<Longrightarrow> layout_fits 0 (p # ps)"
  using assms by (cases p; simp add: start_of_def fill_of_def log_sizes)+

context byte_source begin

definition positioned :: "nat \<Rightarrow> (record_type \<times> bytes) list \<Rightarrow> 'r log_reader \<Rightarrow> bool" where
  "positioned off ps rd \<longleftrightarrow> ready (rd_file rd)
     \<and> buffer rd @ remaining (rd_file rd) = layout off ps
     \<and> length (buffer rd) = min (kBlockSize - off) (length (layout off ps))
     \<and> (eof rd \<longrightarrow> remaining (rd_file rd) = [])
     \<and> layout_fits off ps \<and> off \<le> kBlockSize"

text \<open>What a step of reading leaves alone.\<close>

definition same_mode :: "'r log_reader \<Rightarrow> 'r log_reader \<Rightarrow> bool" where
  "same_mode rd rd' \<longleftrightarrow> initial_offset rd = 0 \<and> \<not> resyncing rd \<and> initial_offset rd' = 0 \<and> \<not> resyncing rd'
     \<and> reports rd' = reports rd \<and> has_reporter rd' = has_reporter rd"

lemma parse_next:
  assumes pos: "positioned off ((t, d) # ps) rd" and room: "\<not> kBlockSize - off < kHeaderSize"
    and t: "t \<noteq> kZeroType" and rd: "initial_offset rd = 0" "\<not> resyncing rd"
  shows "\<exists>rd'. parse_physical_record r rd = (record_type_code t, d, rd') \<and>
    positioned (start_of off + kHeaderSize + length d) ps rd' \<and> same_mode rd rd'"
proof -
  let ?off = "off + kHeaderSize + length d"
  let ?b = "buffer rd" and ?R = "remaining (rd_file rd)"
  have off: "start_of off = off" "fill_of off = 0" using room by (simp_all add: start_of_def fill_of_def)
  have lay: "?b @ ?R = header_of t d @ d @ layout ?off ps" using pos off by (simp add: positioned_def)
  have fits: "?off \<le> kBlockSize" "layout_fits ?off ps" using pos off by (auto simp: positioned_def)
  then have len: "length d < 65536" by (simp add: log_sizes)
  have bl: "length ?b = min (kBlockSize - off) (kHeaderSize + length d + length (layout ?off ps))"
    using pos off by (simp add: positioned_def add.assoc)
  then have long: "kHeaderSize + length d \<le> length ?b" using fits by linarith
  define rest where "rest = drop (kHeaderSize + length d) ?b"
  have "take (kHeaderSize + length d) ?b = take (kHeaderSize + length d) (?b @ ?R)" using long by simp
  also have "\<dots> = header_of t d @ d" unfolding lay by simp
  finally have b: "?b = header_of t d @ d @ rest"
    unfolding rest_def by (metis append.assoc append_take_drop_id)
  note parts = header_of_parts[OF len, of t rest, folded b]
  have "record_type_code t \<noteq> of_nat (record_type_num kZeroType)"
    using t by (cases t) (simp_all add: record_type_code_def)
  let ?rd = "rd\<lparr>buffer := rest\<rparr>"
  have parsed: "parse_physical_record r rd = (record_type_code t, d, ?rd)"
    using long rd \<open>record_type_code t \<noteq> _\<close>
    by (simp add: parse_physical_record_def Let_def rest_def slice_size_def parts[unfolded rest_def])
  have "rest @ ?R = layout ?off ps" using lay b by (metis append.assoc same_append_eq)
  moreover have "length rest = min (kBlockSize - ?off) (length (layout ?off ps))"
    unfolding rest_def length_drop bl by (auto simp: min_def)
  ultimately have "positioned ?off ps ?rd" using pos fits by (simp add: positioned_def)
  with parsed show ?thesis using rd off by (auto simp: same_mode_def)
qed

lemma refill:
  assumes pos: "positioned off (p # ps) rd" and low: "kBlockSize - off < kHeaderSize"
    and rd: "initial_offset rd = 0" "\<not> resyncing rd"
  shows "\<exists>rd'. read_physical_record sf r rd = read_physical_record sf r rd' \<and>
    positioned 0 (p # ps) rd' \<and> same_mode rd rd'"
proof -
  let ?R = "remaining (rd_file rd)"
  note lay = layout_unfold_start[OF low, of p ps]
  have b: "length (buffer rd) = kBlockSize - off" using pos lay by (simp add: positioned_def)
  then have R: "?R = layout 0 (p # ps)" using pos lay
    by (metis append_eq_append_conv length_replicate positioned_def)
  moreover have "layout 0 (p # ps) \<noteq> []" by (cases p) (auto simp: header_of_def)
  ultimately have e: "\<not> eof rd" using pos by (auto simp: positioned_def)
  obtain r' where r': "sf_read sf kBlockSize (rd_file rd) = Some (Status_Ok, take kBlockSize ?R, r')"
    "ready r'" "remaining r' = drop kBlockSize ?R"
    using read[of "rd_file rd" kBlockSize] pos by (auto simp: positioned_def)
  let ?rd1 = "rd\<lparr>rd_file := r', buffer := take kBlockSize ?R,
     end_of_buffer_offset := end_of_buffer_offset rd + of_nat (slice_size (take kBlockSize ?R))\<rparr>"
  let ?rd = "if slice_size (take kBlockSize ?R) < kBlockSize then ?rd1\<lparr>eof := True\<rparr> else ?rd1"
  have "read_physical_record sf r rd = read_physical_record sf r ?rd"
    using b low e r'(1) by (subst read_physical_record.simps) (simp add: slice_size_def Let_def)
  moreover have "positioned 0 (p # ps) ?rd"
    using r' R e lay(2) pos by (auto simp: positioned_def slice_size_def)
  moreover have "same_mode rd ?rd" using rd by (simp add: same_mode_def)
  ultimately show ?thesis by blast
qed

lemma same_mode_trans: "same_mode a b \<Longrightarrow> same_mode b c \<Longrightarrow> same_mode a c"
  by (simp add: same_mode_def)

lemma physical_next:
  assumes pos: "positioned off ((t, d) # ps) rd" and t: "t \<noteq> kZeroType"
    and rd: "initial_offset rd = 0" "\<not> resyncing rd"
  shows "\<exists>rd'. read_physical_record sf r rd = Some (record_type_code t, d, rd') \<and>
    positioned (start_of off + kHeaderSize + length d) ps rd' \<and> same_mode rd rd'"
proof -
  have here: "\<exists>rd'. read_physical_record sf r q = Some (record_type_code t, d, rd') \<and>
      positioned (start_of o' + kHeaderSize + length d) ps rd' \<and> same_mode q rd'"
    if q: "positioned o' ((t, d) # ps) q" "\<not> kBlockSize - o' < kHeaderSize" "initial_offset q = 0"
      "\<not> resyncing q" for o' q
  proof -
    have "kHeaderSize \<le> length (layout o' ((t, d) # ps))" by simp
    then have "\<not> slice_size (buffer q) < kHeaderSize"
      using q unfolding positioned_def slice_size_def by linarith
    with parse_next[OF q(1,2) t q(3,4), of r] show ?thesis by (subst read_physical_record.simps) auto
  qed
  show ?thesis
  proof (cases "kBlockSize - off < kHeaderSize")
    case True
    then obtain rd1 where rd1: "read_physical_record sf r rd = read_physical_record sf r rd1"
      "positioned 0 ((t, d) # ps) rd1" "same_mode rd rd1" using refill[OF pos _ rd] by blast
    then show ?thesis using here[OF rd1(2)] True same_mode_trans[OF rd1(3)]
      by (fastforce simp: same_mode_def start_of_def log_sizes)
  next
    case False
    with here[OF pos False rd] show ?thesis by blast
  qed
qed

lemma physical_end:
  assumes pos: "positioned off [] rd" and rd: "initial_offset rd = 0" "\<not> resyncing rd"
  shows "\<exists>rd'. read_physical_record sf r rd = Some (kEof, r, rd') \<and> positioned off [] rd' \<and> same_mode rd rd'"
proof -
  have b: "buffer rd = []" "remaining (rd_file rd) = []" using pos by (auto simp: positioned_def)
  show ?thesis
  proof (cases "eof rd")
    case True
    with b pos rd show ?thesis
      by (subst read_physical_record.simps) (auto simp: slice_size_def log_sizes positioned_def same_mode_def)
  next
    case False
    obtain r' where r': "sf_read sf kBlockSize (rd_file rd) = Some (Status_Ok, [], r')"
      "ready r'" "remaining r' = []"
      using read[of "rd_file rd" kBlockSize] pos b by (auto simp: positioned_def)
    let ?rd = "rd\<lparr>rd_file := r', buffer := [], eof := True\<rparr>"
    have "read_physical_record sf r rd = read_physical_record sf r ?rd"
      using b False r'(1) by (subst read_physical_record.simps) (simp add: slice_size_def Let_def log_sizes)
    also have "\<dots> = Some (kEof, r, ?rd)"
      by (subst read_physical_record.simps) (simp add: slice_size_def log_sizes)
    finally show ?thesis using r' pos rd by (auto simp: positioned_def same_mode_def)
  qed
qed

end

section \<open>Reading logical records\<close>

text \<open>Reading at most \<open>n\<close> records, up to the first call that returns false.\<close>

fun read_records :: "nat \<Rightarrow> 'r sequential_file \<Rightarrow> 'r log_reader \<Rightarrow> (slice list \<times> 'r log_reader) option" where
  "read_records 0 sf rd = Some ([], rd)"
| "read_records (Suc n) sf rd =
     (case read_record sf [] [] rd of
        None \<Rightarrow> None
      | Some (again, rec, scratch, rd') \<Rightarrow>
          if again then map_option (map_prod ((#) rec) id) (read_records n sf rd') else Some ([], rd'))"

text \<open>Writing records one after the other, up to the first error.\<close>

fun add_records :: "'f writable_file \<Rightarrow> slice list \<Rightarrow> log_writer \<Rightarrow> 'f \<Rightarrow> (status \<times> log_writer \<times> 'f) option" where
  "add_records dest [] w f = Some (Status_Ok, w, f)"
| "add_records dest (r # rs) w f =
     (case add_record dest r w f of
        None \<Rightarrow> None
      | Some (s, w', f') \<Rightarrow> if is_ok s then add_records dest rs w' f' else Some (s, w', f'))"

fun log_pieces :: "nat \<Rightarrow> slice list \<Rightarrow> (record_type \<times> bytes) list" where
  "log_pieces off [] = []"
| "log_pieces off (r # rs) =
     pieces True off r @ log_pieces (layout_end off (pieces True off r)) rs"

text \<open>All records fit the rest of the block they start in.\<close>

fun unfragmented :: "nat \<Rightarrow> slice list \<Rightarrow> bool" where
  "unfragmented off [] \<longleftrightarrow> True"
| "unfragmented off (r # rs) \<longleftrightarrow> length r \<le> kBlockSize - start_of off - kHeaderSize \<and>
     unfragmented (start_of off + kHeaderSize + length r) rs"

lemma log_pieces_unfragmented:
  "unfragmented off rs \<Longrightarrow> log_pieces off rs = map (Pair kFullType) rs"
  by (induction off rs rule: unfragmented.induct) (simp_all add: pieces_single piece_type_def)

lemma log_pieces_append:
  "log_pieces off (rs @ qs) = log_pieces off rs @ log_pieces (layout_end off (log_pieces off rs)) qs"
  by (induction off rs rule: log_pieces.induct) (simp_all add: layout_append)

lemma log_pieces_fit: "off \<le> kBlockSize \<Longrightarrow> layout_fits off (log_pieces off rs)"
proof (induction off rs rule: log_pieces.induct)
  case (2 off r rs)
  then show ?case using pieces_fit[of off True r] layout_end_le[of off "pieces True off r"]
    by (simp add: layout_fits_append)
qed simp

context byte_sink begin

lemma add_record_works:
  assumes "good f" "writer_ok w"
  shows "\<exists>w' f'. add_record dest r w f = Some (Status_Ok, w', f') \<and> good f' \<and> writer_ok w'
    \<and> block_offset w' = layout_end (block_offset w) (pieces True (block_offset w) r)
    \<and> contents f' = contents f @ layout (block_offset w) (pieces True (block_offset w) r)"
  unfolding add_record_def using add_record_loop_works[OF assms] .

lemma add_records_works:
  assumes "good f" "writer_ok w"
  shows "\<exists>w' f'. add_records dest rs w f = Some (Status_Ok, w', f') \<and> good f' \<and> writer_ok w'
    \<and> contents f' = contents f @ layout (block_offset w) (log_pieces (block_offset w) rs)"
  using assms
proof (induction rs arbitrary: w f)
  case (Cons r rs)
  obtain w1 f1 where r: "add_record dest r w f = Some (Status_Ok, w1, f1)" "good f1" "writer_ok w1"
    "block_offset w1 = layout_end (block_offset w) (pieces True (block_offset w) r)"
    "contents f1 = contents f @ layout (block_offset w) (pieces True (block_offset w) r)"
    using add_record_works[OF Cons.prems] by blast
  with Cons.IH[OF r(2,3)] show ?case by (auto simp: layout_append)
qed simp

end

context byte_source begin

lemma positioned_ctor:
  assumes "ready r" "remaining r = layout 0 ps" "layout_fits 0 ps"
  shows "positioned kBlockSize ps (reader_ctor r rep chk 0)"
proof (cases ps)
  case Nil
  then show ?thesis using assms by (simp add: positioned_def reader_ctor_def slice_empty_ctor_def)
next
  case (Cons p qs)
  then have "layout kBlockSize ps = layout 0 ps" "layout_fits kBlockSize ps"
    using layout_unfold_start(1)[of kBlockSize p qs] assms(3) by (cases p; simp add: start_of_def log_sizes)+
  then show ?thesis using assms by (simp add: positioned_def reader_ctor_def slice_empty_ctor_def)
qed

lemma same_modeD:
  assumes "same_mode rd rd'"
  shows "initial_offset rd' = 0" "\<not> resyncing rd'" "reports rd' = reports rd" "rd'\<lparr>resyncing := False\<rparr> = rd'"
  using assms by (simp_all add: same_mode_def)

lemma codes_distinct:
  "record_type_code kFullType = 1" "record_type_code kFirstType = 2" "record_type_code kMiddleType = 3"
  "record_type_code kLastType = 4" "kEof = 5" "kBadRecord = 6"
  by (simp_all add: record_type_code_def kEof_def kBadRecord_def kMaxRecordType_def)

lemma loop_full:
  assumes "positioned off ((kFullType, d) # ps) rd" "initial_offset rd = 0" "\<not> resyncing rd"
  shows "\<exists>rd'. read_record_loop sf False pro scratch fr rd = Some (True, d, [], rd') \<and>
    positioned (start_of off + kHeaderSize + length d) ps rd' \<and> same_mode rd rd'"
proof -
  obtain rd1 where "read_physical_record sf fr rd = Some (record_type_code kFullType, d, rd1)"
    "positioned (start_of off + kHeaderSize + length d) ps rd1" "same_mode rd rd1"
    using physical_next[OF assms(1) _ assms(2,3), of fr] by auto
  then show ?thesis
    by (subst read_record_loop.simps) (auto simp: codes_distinct Let_def same_mode_def positioned_def)
qed

lemma loop_end:
  assumes "positioned off [] rd" "initial_offset rd = 0" "\<not> resyncing rd"
  shows "\<exists>rd' scr. read_record_loop sf infrag pro scratch fr rd = Some (False, [], scr, rd') \<and>
    positioned off [] rd' \<and> same_mode rd rd'"
proof -
  obtain rd1 where "read_physical_record sf fr rd = Some (kEof, fr, rd1)"
    "positioned off [] rd1" "same_mode rd rd1" using physical_end[OF assms] by blast
  then show ?thesis
    by (subst read_record_loop.simps) (auto simp: codes_distinct Let_def same_mode_def positioned_def)
qed

lemma loop_middles:
  assumes "positioned off ps rd" "initial_offset rd = 0" "\<not> resyncing rd" "fst ` set ps \<subseteq> {kMiddleType}"
  shows "\<exists>rd' scr. read_record_loop sf True pro scratch fr rd = Some (False, [], scr, rd') \<and> same_mode rd rd'"
  using assms
proof (induction ps arbitrary: off rd scratch fr)
  case Nil
  then show ?case using loop_end[of off rd True pro scratch fr] by blast
next
  case (Cons p ps)
  obtain d where p: "p = (kMiddleType, d)" using Cons.prems(4) by (cases p) auto
  let ?off = "start_of off + kHeaderSize + length d"
  obtain rd1 where r: "read_physical_record sf fr rd = Some (record_type_code kMiddleType, d, rd1)"
    "positioned ?off ps rd1" and m: "same_mode rd rd1"
    using physical_next[of off kMiddleType d ps rd fr] Cons.prems p by auto
  have same: "rd1\<lparr>resyncing := False\<rparr> = rd1" using m by (simp add: same_mode_def)
  have "read_record_loop sf True pro scratch fr rd = read_record_loop sf True pro (scratch @ d) d rd1"
    using r m by (subst read_record_loop.simps) (simp add: codes_distinct Let_def same_mode_def same)
  with Cons.IH[OF r(2), of "scratch @ d" d] m Cons.prems(4) show ?case
    using same_mode_trans by (fastforce simp: same_mode_def)
qed

lemma loop_fragmented:
  assumes "positioned off ((kFirstType, d) # ps) rd" "initial_offset rd = 0" "\<not> resyncing rd"
    and "fst ` set ps \<subseteq> {kMiddleType}"
  shows "\<exists>rd' scr. read_record_loop sf False pro scratch fr rd = Some (False, [], scr, rd') \<and> same_mode rd rd'"
proof -
  let ?off = "start_of off + kHeaderSize + length d"
  obtain rd1 where r: "read_physical_record sf fr rd = Some (record_type_code kFirstType, d, rd1)"
    "positioned ?off ps rd1" and m: "same_mode rd rd1"
    using physical_next[OF assms(1) _ assms(2,3), of fr] by auto
  let ?pro = "end_of_buffer_offset rd1 - of_nat (slice_size (buffer rd1)) - of_nat kHeaderSize - of_nat (slice_size d)"
  have same: "rd1\<lparr>resyncing := False\<rparr> = rd1" using m by (simp add: same_mode_def)
  have "read_record_loop sf False pro scratch fr rd = read_record_loop sf True ?pro d d rd1"
    using r m by (subst read_record_loop.simps) (simp add: codes_distinct Let_def same_mode_def same)
  with loop_middles[OF r(2) _ _ assms(4), of ?pro d d] m show ?thesis
    using same_mode_trans by (fastforce simp: same_mode_def)
qed

lemma read_full_records:
  assumes "positioned off (map (Pair kFullType) rs @ ps) rd" "initial_offset rd = 0" "\<not> resyncing rd"
  shows "\<exists>off' rd'. positioned off' ps rd' \<and> same_mode rd rd' \<and>
    read_records (length rs + n) sf rd = map_option (map_prod ((@) rs) id) (read_records n sf rd')"
  using assms
proof (induction rs arbitrary: off rd)
  case Nil
  then show ?case by (intro exI[of _ off] exI[of _ rd])
    (auto simp: same_mode_def map_prod_def split: option.split intro: option.map_ident[symmetric])
next
  case (Cons r rs)
  let ?off = "start_of off + kHeaderSize + length r"
  obtain rd1 where r: "read_record_loop sf False 0 [] [] rd = Some (True, r, [], rd1)"
    "positioned ?off (map (Pair kFullType) rs @ ps) rd1" and m: "same_mode rd rd1"
    using loop_full[of off r _ rd 0 "[]" "[]"] Cons.prems by auto
  obtain off' rd' where IH: "positioned off' ps rd'" "same_mode rd1 rd'"
    "read_records (length rs + n) sf rd1 = map_option (map_prod ((@) rs) id) (read_records n sf rd')"
    using Cons.IH[OF r(2) same_modeD(1,2)[OF m]] by blast
  have "read_record sf [] [] rd = Some (True, r, [], rd1)"
    using r(1) Cons.prems by (simp add: read_record_def)
  then have "read_records (length (r # rs) + n) sf rd
      = map_option (map_prod ((@) (r # rs)) id) (read_records n sf rd')"
    using IH(3) by (cases "read_records n sf rd'") auto
  with IH(1,2) same_mode_trans[OF m] show ?case by blast
qed

lemma read_rest_nothing:
  assumes "positioned off ps rd" "initial_offset rd = 0" "\<not> resyncing rd"
    and "ps = [] \<or> (\<exists>d qs. ps = (kFirstType, d) # qs \<and> fst ` set qs \<subseteq> {kMiddleType})"
  shows "\<exists>rd'. read_records (Suc 0) sf rd = Some ([], rd') \<and> reports rd' = reports rd"
proof -
  have "\<exists>rd' scr. read_record_loop sf False 0 [] [] rd = Some (False, [], scr, rd') \<and> same_mode rd rd'"
    using assms(4)
  proof (elim disjE exE conjE)
    assume "ps = []"
    with loop_end[of off rd False 0 "[]" "[]"] assms(1-3) show ?thesis by blast
  next
    fix d qs assume "ps = (kFirstType, d) # qs" "fst ` set qs \<subseteq> {kMiddleType}"
    with loop_fragmented[of off d qs rd 0 "[]" "[]"] assms(1-3) show ?thesis by blast
  qed
  then show ?thesis using assms(2) by (auto simp: read_record_def same_modeD(3))
qed

lemma read_log:
  assumes r: "ready r" "remaining r = layout 0 (map (Pair kFullType) rs @ ps)"
    and fits: "layout_fits 0 (map (Pair kFullType) rs @ ps)"
    and ps: "ps = [] \<or> (\<exists>d qs. ps = (kFirstType, d) # qs \<and> fst ` set qs \<subseteq> {kMiddleType})"
  shows "\<exists>rd'. read_records (Suc (length rs)) sf (reader_ctor r rep chk 0) = Some (rs, rd') \<and> reports rd' = []"
proof -
  let ?rd = "reader_ctor r rep chk 0"
  have "initial_offset ?rd = 0" "\<not> resyncing ?rd" "reports ?rd = []" by (simp_all add: reader_ctor_def)
  moreover obtain off' rd1 where "positioned off' ps rd1" "same_mode ?rd rd1"
    "read_records (length rs + 1) sf ?rd = map_option (map_prod ((@) rs) id) (read_records 1 sf rd1)"
    using read_full_records[OF positioned_ctor[OF r fits, of rep chk], of 1] calculation by blast
  ultimately show ?thesis using read_rest_nothing[of off' ps rd1] ps by (auto simp: same_mode_def)
qed

end

section \<open>Properties\<close>

text \<open>
  C1. Log round trip.  Records each of which fits the rest of the block it starts in are written
  without error to a new log on a file that works, and a reader of the resulting file, with or without checksum
  verification, returns exactly those records in order, then false, and reports no corruption.
\<close>

theorem log_roundtrip:
  assumes "byte_sink dest good contents" and "byte_source sf ready remaining"
    and "good f" and "contents f = []" and "unfragmented 0 rs"
  shows "\<exists>w' f'. add_records dest rs writer_ctor f = Some (Status_Ok, w', f') \<and>
    (\<forall>r. ready r \<longrightarrow> remaining r = contents f' \<longrightarrow>
      (\<exists>rd'. read_records (Suc (length rs)) sf (reader_ctor r rep chk 0) = Some (rs, rd') \<and> reports rd' = []))"
proof -
  obtain w' f' where "add_records dest rs writer_ctor f = Some (Status_Ok, w', f')"
    "contents f' = layout 0 (log_pieces 0 rs)"
    using byte_sink.add_records_works[OF assms(1,3) writer_ctor_ok(1), of rs] assms(4)
    by (auto simp: writer_ctor_def)
  moreover have "log_pieces 0 rs = map (Pair kFullType) rs @ []"
    using log_pieces_unfragmented[OF assms(5)] by simp
  moreover have "layout_fits 0 (log_pieces 0 rs)" by (rule log_pieces_fit) simp
  ultimately show ?thesis using byte_source.read_log[OF assms(2), of _ rs "[]"] by auto
qed


section \<open>Reading any file ends\<close>

context byte_source begin

definition unread :: "'r log_reader \<Rightarrow> nat" where
  "unread rd = length (buffer rd) + length (remaining (rd_file rd))"

lemma report_same [simp]:
  "rd_file (report_drop n s rd) = rd_file rd" "buffer (report_drop n s rd) = buffer rd"
  "rd_file (report_corruption n m rd) = rd_file rd" "buffer (report_corruption n m rd) = buffer rd"
  by (simp_all add: report_drop_def report_corruption_def)

lemma parse_shrinks:
  assumes "\<not> slice_size (buffer rd) < kHeaderSize" "parse_physical_record r rd = (t, frag, rd')"
  shows "rd_file rd' = rd_file rd \<and> unread rd' < unread rd"
  using assms by (auto simp: parse_physical_record_def Let_def unread_def slice_size_def kHeaderSize_def
      split: if_splits)

lemma physical_shrinks:
  assumes "ready (rd_file rd)"
  shows "\<exists>t frag rd'. read_physical_record sf r rd = Some (t, frag, rd') \<and> ready (rd_file rd')
    \<and> (t = kEof \<or> unread rd' < unread rd)"
proof -
  let ?here = "\<lambda>q. \<exists>t frag rd'. read_physical_record sf r q = Some (t, frag, rd') \<and> ready (rd_file rd')
    \<and> (t = kEof \<or> unread rd' < unread q)"
  have full: "?here q" if "\<not> slice_size (buffer q) < kHeaderSize" "ready (rd_file q)" for q
  proof -
    obtain t frag rd' where p: "parse_physical_record r q = (t, frag, rd')" by (cases "parse_physical_record r q")
    then have "read_physical_record sf r q = Some (t, frag, rd')"
      using that(1) by (subst read_physical_record.simps) simp
    with parse_shrinks[OF that(1) p] that(2) show ?thesis by auto
  qed
  have last: "?here q" if "eof q" "ready (rd_file q)" for q
    using that full[OF _ that(2)] by (cases "slice_size (buffer q) < kHeaderSize")
      (auto simp: read_physical_record.simps[of sf r q])
  show ?thesis
  proof (cases "slice_size (buffer rd) < kHeaderSize \<and> \<not> eof rd")
    case True
    let ?R = "remaining (rd_file rd)"
    obtain r' where r': "sf_read sf kBlockSize (rd_file rd) = Some (Status_Ok, take kBlockSize ?R, r')"
      "ready r'" "remaining r' = drop kBlockSize ?R" using read[OF assms] by blast
    let ?rd1 = "rd\<lparr>rd_file := r', buffer := take kBlockSize ?R,
       end_of_buffer_offset := end_of_buffer_offset rd + of_nat (slice_size (take kBlockSize ?R))\<rparr>"
    define q where "q = (if slice_size (take kBlockSize ?R) < kBlockSize then ?rd1\<lparr>eof := True\<rparr> else ?rd1)"
    have "read_physical_record sf r rd = read_physical_record sf r q"
      using True r'(1) by (subst read_physical_record.simps) (simp add: slice_size_def Let_def q_def)
    moreover have "ready (rd_file q)" "eof q \<or> \<not> slice_size (buffer q) < kHeaderSize" "unread q \<le> unread rd"
      using r' by (auto simp: q_def slice_size_def log_sizes unread_def)
    moreover from this obtain t frag rd' where "read_physical_record sf r q = Some (t, frag, rd')"
      "ready (rd_file rd')" "t = kEof \<or> unread rd' < unread q" using full[of q] last[of q] by blast
    ultimately show ?thesis by auto
  qed (use full last assms in blast)
qed

definition returned :: "(bool \<times> slice \<times> bytes \<times> 'r log_reader) option \<Rightarrow> bool" where
  "returned x \<longleftrightarrow> (case x of None \<Rightarrow> False | Some (again, rec, scr, rd) \<Rightarrow> ready (rd_file rd))"

lemma returned_Some [simp]: "returned (Some (again, rec, scr, rd)) \<longleftrightarrow> ready (rd_file rd)"
  by (simp add: returned_def)

lemma read_loop_returns:
  "ready (rd_file rd) \<Longrightarrow> returned (read_record_loop sf infrag pro scratch fr rd)"
proof (induction "unread rd" arbitrary: infrag pro scratch fr rd rule: less_induct)
  case less
  obtain t frag rd1 where r: "read_physical_record sf fr rd = Some (t, frag, rd1)"
    and ok: "ready (rd_file rd1)" and t: "t = kEof \<or> unread rd1 < unread rd"
    using physical_shrinks[OF less.prems] by blast
  have IH: "returned (read_record_loop sf i p s f q)"
    if "t \<noteq> kEof" "rd_file q = rd_file rd1" "buffer q = buffer rd1" for i p s f q
    using less.hyps[of q] t ok that by (simp add: unread_def)
  show ?case
  proof (cases "t = kEof")
    case True
    then show ?thesis using ok r
      by (subst read_record_loop.simps) (simp add: codes_distinct Let_def)
  next
    case False
    show ?thesis
      by (subst read_record_loop.simps) (simp add: r Let_def ok IH[OF False] False)
  qed
qed

end


end
