(* ===== verification/Posix_File.thy ===== *)
theory Posix_File
  imports File_Interface
begin

text \<open>
  The file classes of \<open>__detail/posix_env.cc\<close>.  The operating system is not part of the
  repository: a \<open>kernel\<close> is a record of the system calls the code makes over an arbitrary state
  \<open>'k\<close>, and everything below takes one as a parameter.  A call returns what the C function
  returns; \<open>errno\<close> is read from the state.  A file object over the state is the pair of its
  members and the kernel state.  The loops that retry on \<open>EINTR\<close> and on short writes are partial
  functions: \<open>None\<close> is a run that never returns, or one that runs into a failed assertion.
\<close>

record 'k kernel =
  k_read :: "int \<Rightarrow> nat \<Rightarrow> 'k \<Rightarrow> int \<times> bytes \<times> 'k"
  k_pread :: "int \<Rightarrow> nat \<Rightarrow> u64 \<Rightarrow> 'k \<Rightarrow> int \<times> bytes \<times> 'k"
  k_write :: "int \<Rightarrow> bytes \<Rightarrow> 'k \<Rightarrow> int \<times> 'k"
  k_lseek_cur :: "int \<Rightarrow> u64 \<Rightarrow> 'k \<Rightarrow> int \<times> 'k"
  k_open_rdonly :: "bytes \<Rightarrow> 'k \<Rightarrow> int \<times> 'k"
  k_close :: "int \<Rightarrow> 'k \<Rightarrow> int \<times> 'k"
  k_fdatasync :: "int \<Rightarrow> 'k \<Rightarrow> int \<times> 'k"
  k_munmap :: "bytes \<Rightarrow> 'k \<Rightarrow> 'k"
  k_errno :: "'k \<Rightarrow> int"
  k_strerror :: "int \<Rightarrow> bytes"
  k_nofile_limit :: "'k \<Rightarrow> int option option"

definition ENOENT :: int where "ENOENT = 2"
definition EINTR :: int where "EINTR = 4"
definition EINVAL :: int where "EINVAL = 22"

definition kWritableFileBufferSize :: nat where
  "kWritableFileBufferSize = 65536"

definition posix_error :: "'k kernel \<Rightarrow> bytes \<Rightarrow> int \<Rightarrow> status" where
  "posix_error kern ctxt error_number =
     (if error_number = ENOENT then not_found ctxt (k_strerror kern error_number)
      else io_error ctxt (k_strerror kern error_number))"

section \<open>Sequential files\<close>

record posix_sequential_file =
  sq_fd :: int
  sq_filename :: bytes

partial_function (option) posix_sequential_read ::
  "'k kernel \<Rightarrow> nat \<Rightarrow> posix_sequential_file \<Rightarrow> 'k \<Rightarrow> (status \<times> slice \<times> 'k) option" where
  "posix_sequential_read kern n f k =
     (case k_read kern (sq_fd f) n k of
        (read_size, scratch, k') \<Rightarrow>
          if read_size < 0 then
            if k_errno kern k' = EINTR then posix_sequential_read kern n f k'
            else Some (posix_error kern (sq_filename f) (k_errno kern k'), [], k')
          else Some (Status_Ok, slice_of_ptr scratch (nat read_size), k'))"

definition posix_sequential_skip ::
  "'k kernel \<Rightarrow> u64 \<Rightarrow> posix_sequential_file \<Rightarrow> 'k \<Rightarrow> status \<times> 'k" where
  "posix_sequential_skip kern n f k =
     (case k_lseek_cur kern (sq_fd f) n k of
        (r, k') \<Rightarrow> if r = -1 then (posix_error kern (sq_filename f) (k_errno kern k'), k') else (Status_Ok, k'))"

definition posix_sequential :: "'k kernel \<Rightarrow> (posix_sequential_file \<times> 'k) sequential_file" where
  "posix_sequential kern =
     \<lparr>sf_read = (\<lambda>n (f, k). map_option (\<lambda>(s, d, k'). (s, d, f, k')) (posix_sequential_read kern n f k)),
      sf_skip = (\<lambda>n (f, k). case posix_sequential_skip kern n f k of (s, k') \<Rightarrow> Some (s, f, k'))\<rparr>"

section \<open>Writable files\<close>

text \<open>The buffer is the bytes in use, \<open>buf_[0 .. pos_-1]\<close>.\<close>

record posix_writable_file =
  wr_buf :: bytes
  wr_fd :: int
  wr_is_manifest :: bool
  wr_filename :: bytes
  wr_dirname :: bytes

text \<open>\<open>rfind\<close> of a slash: the position of the last one, or \<open>npos\<close>.\<close>

fun rfind_slash :: "bytes \<Rightarrow> nat option" where
  "rfind_slash [] = None"
| "rfind_slash (b # s) =
     (case rfind_slash s of Some p \<Rightarrow> Some (Suc p) | None \<Rightarrow> if b = 47 then Some 0 else None)"

definition dir_name :: "bytes \<Rightarrow> bytes option" where
  "dir_name filename =
     (case rfind_slash filename of
        None \<Rightarrow> Some (cstr ''.'')
      | Some p \<Rightarrow> if rfind_slash (drop (p + 1) filename) \<noteq> None then None else Some (take p filename))"

definition base_name :: "bytes \<Rightarrow> slice option" where
  "base_name filename =
     (case rfind_slash filename of
        None \<Rightarrow> Some filename
      | Some p \<Rightarrow> if rfind_slash (drop (p + 1) filename) \<noteq> None then None else Some (drop (p + 1) filename))"

definition is_manifest :: "bytes \<Rightarrow> bool option" where
  "is_manifest filename = map_option (\<lambda>b. slice_starts_with b (cstr ''MANIFEST'')) (base_name filename)"

definition posix_writable_ctor :: "bytes \<Rightarrow> int \<Rightarrow> posix_writable_file option" where
  "posix_writable_ctor filename fd =
     Option.bind (is_manifest filename) (\<lambda>m.
     Option.bind (dir_name filename) (\<lambda>d.
       Some \<lparr>wr_buf = [], wr_fd = fd, wr_is_manifest = m, wr_filename = filename, wr_dirname = d\<rparr>))"

partial_function (option) write_unbuffered ::
  "'k kernel \<Rightarrow> bytes \<Rightarrow> posix_writable_file \<Rightarrow> 'k \<Rightarrow> (status \<times> 'k) option" where
  "write_unbuffered kern data f k =
     (if 0 < length data then
        (case k_write kern (wr_fd f) data k of
           (write_result, k') \<Rightarrow>
             if write_result < 0 then
               if k_errno kern k' = EINTR then write_unbuffered kern data f k'
               else Some (posix_error kern (wr_filename f) (k_errno kern k'), k')
             else write_unbuffered kern (drop (nat write_result) data) f k')
      else Some (Status_Ok, k))"

definition flush_buffer ::
  "'k kernel \<Rightarrow> posix_writable_file \<Rightarrow> 'k \<Rightarrow> (status \<times> posix_writable_file \<times> 'k) option" where
  "flush_buffer kern f k =
     map_option (\<lambda>(s, k'). (s, f\<lparr>wr_buf := []\<rparr>, k')) (write_unbuffered kern (wr_buf f) f k)"

definition posix_append ::
  "'k kernel \<Rightarrow> slice \<Rightarrow> posix_writable_file \<Rightarrow> 'k \<Rightarrow> (status \<times> posix_writable_file \<times> 'k) option" where
  "posix_append kern data f k =
     (let copy_size = min (slice_size data) (kWritableFileBufferSize - length (wr_buf f));
          rest = drop copy_size data;
          f1 = f\<lparr>wr_buf := wr_buf f @ take copy_size data\<rparr>
      in if length rest = 0 then Some (Status_Ok, f1, k)
         else (case flush_buffer kern f1 k of
                 None \<Rightarrow> None
               | Some (s, f2, k2) \<Rightarrow>
                   if \<not> is_ok s then Some (s, f2, k2)
                   else if length rest < kWritableFileBufferSize
                   then Some (Status_Ok, f2\<lparr>wr_buf := rest\<rparr>, k2)
                   else map_option (\<lambda>(s', k3). (s', f2, k3)) (write_unbuffered kern rest f2 k2)))"

definition posix_close ::
  "'k kernel \<Rightarrow> posix_writable_file \<Rightarrow> 'k \<Rightarrow> (status \<times> posix_writable_file \<times> 'k) option" where
  "posix_close kern f k =
     (case flush_buffer kern f k of
        None \<Rightarrow> None
      | Some (s, f1, k1) \<Rightarrow>
          (case k_close kern (wr_fd f1) k1 of
             (close_result, k2) \<Rightarrow>
               Some (if close_result < 0 \<and> is_ok s then posix_error kern (wr_filename f1) (k_errno kern k2) else s,
                     f1\<lparr>wr_fd := -1\<rparr>, k2)))"

definition posix_dtor ::
  "'k kernel \<Rightarrow> posix_writable_file \<Rightarrow> 'k \<Rightarrow> 'k option" where
  "posix_dtor kern f k =
     (if 0 \<le> wr_fd f then map_option (\<lambda>(s, f', k'). k') (posix_close kern f k) else Some k)"

definition sync_fd :: "'k kernel \<Rightarrow> int \<Rightarrow> bytes \<Rightarrow> 'k \<Rightarrow> status \<times> 'k" where
  "sync_fd kern fd fd_path k =
     (case k_fdatasync kern fd k of
        (r, k') \<Rightarrow> if r = 0 then (Status_Ok, k') else (posix_error kern fd_path (k_errno kern k'), k'))"

definition sync_dir_if_manifest :: "'k kernel \<Rightarrow> posix_writable_file \<Rightarrow> 'k \<Rightarrow> status \<times> 'k" where
  "sync_dir_if_manifest kern f k =
     (if \<not> wr_is_manifest f then (Status_Ok, k)
      else (case k_open_rdonly kern (wr_dirname f) k of
              (fd, k1) \<Rightarrow>
                if fd < 0 then (posix_error kern (wr_dirname f) (k_errno kern k1), k1)
                else (case sync_fd kern fd (wr_dirname f) k1 of
                        (s, k2) \<Rightarrow> (s, snd (k_close kern fd k2)))))"

definition posix_sync ::
  "'k kernel \<Rightarrow> posix_writable_file \<Rightarrow> 'k \<Rightarrow> (status \<times> posix_writable_file \<times> 'k) option" where
  "posix_sync kern f k =
     (case sync_dir_if_manifest kern f k of
        (s, k1) \<Rightarrow>
          if \<not> is_ok s then Some (s, f, k1)
          else (case flush_buffer kern f k1 of
                  None \<Rightarrow> None
                | Some (s2, f2, k2) \<Rightarrow>
                    if \<not> is_ok s2 then Some (s2, f2, k2)
                    else (case sync_fd kern (wr_fd f2) (wr_filename f2) k2 of (s3, k3) \<Rightarrow> Some (s3, f2, k3))))"

definition posix_writable :: "'k kernel \<Rightarrow> (posix_writable_file \<times> 'k) writable_file" where
  "posix_writable kern =
     \<lparr>wf_append = (\<lambda>d (f, k). posix_append kern d f k),
      wf_close = (\<lambda>(f, k). posix_close kern f k),
      wf_flush = (\<lambda>(f, k). flush_buffer kern f k),
      wf_sync = (\<lambda>(f, k). posix_sync kern f k)\<rparr>"

section \<open>A kernel whose file works\<close>

text \<open>
  POSIX: a write to a regular file with space left writes a positive number of bytes, perhaps
  fewer than asked, at the end; a read returns the next bytes, fewer than asked only at the end.
\<close>

locale writing_kernel =
  fixes kern :: "'k kernel" and fd :: int and works :: "'k \<Rightarrow> bool" and written :: "'k \<Rightarrow> bytes"
  assumes kwrite: "works k \<Longrightarrow> d \<noteq> [] \<Longrightarrow> \<exists>n k'. k_write kern fd d k = (int n, k') \<and> 0 < n \<and> n \<le> length d
      \<and> works k' \<and> written k' = written k @ take n d"

locale reading_kernel =
  fixes kern :: "'k kernel" and fd :: int and works :: "'k \<Rightarrow> bool" and to_read :: "'k \<Rightarrow> bytes"
  assumes kread: "works k \<Longrightarrow> \<exists>k'. k_read kern fd n k = (int (length (take n (to_read k))), take n (to_read k), k')
      \<and> works k' \<and> to_read k' = drop n (to_read k)"

context writing_kernel begin

definition file_ok :: "posix_writable_file \<times> 'k \<Rightarrow> bool" where
  "file_ok fk \<longleftrightarrow> works (snd fk) \<and> wr_fd (fst fk) = fd \<and> length (wr_buf (fst fk)) \<le> kWritableFileBufferSize"

definition file_contents :: "posix_writable_file \<times> 'k \<Rightarrow> bytes" where
  "file_contents fk = written (snd fk) @ wr_buf (fst fk)"

lemma write_unbuffered_works:
  "works k \<Longrightarrow> wr_fd f = fd \<Longrightarrow>
   \<exists>k'. write_unbuffered kern d f k = Some (Status_Ok, k') \<and> works k' \<and> written k' = written k @ d"
proof (induction d arbitrary: k rule: length_induct)
  case (1 d)
  show ?case
  proof (cases "d = []")
    case True
    with "1.prems" show ?thesis by (subst write_unbuffered.simps) simp
  next
    case False
    obtain n k1 where w: "k_write kern fd d k = (int n, k1)" "0 < n" "n \<le> length d" "works k1"
      "written k1 = written k @ take n d" using kwrite[OF "1.prems"(1) False] by blast
    with False have "length (drop n d) < length d" by simp
    with "1.IH" w(4) "1.prems"(2) obtain k2 where
      "write_unbuffered kern (drop n d) f k1 = Some (Status_Ok, k2)" "works k2" "written k2 = written k1 @ drop n d"
      by blast
    with w False "1.prems"(2) show ?thesis by (subst write_unbuffered.simps) simp
  qed
qed

lemma flush_works:
  assumes "file_ok (f, k)"
  shows "\<exists>k'. flush_buffer kern f k = Some (Status_Ok, f\<lparr>wr_buf := []\<rparr>, k') \<and> works k'
    \<and> written k' = written k @ wr_buf f"
  using write_unbuffered_works[of k f "wr_buf f"] assms by (auto simp: flush_buffer_def file_ok_def)

lemma append_works:
  assumes "file_ok (f, k)"
  shows "\<exists>fk'. posix_append kern d f k = Some (Status_Ok, fk') \<and> file_ok fk'
    \<and> file_contents fk' = file_contents (f, k) @ d"
proof -
  define n where "n = min (slice_size d) (kWritableFileBufferSize - length (wr_buf f))"
  let ?f1 = "f\<lparr>wr_buf := wr_buf f @ take n d\<rparr>" and ?rest = "drop n d"
  have app: "posix_append kern d f k = (if length ?rest = 0 then Some (Status_Ok, ?f1, k)
      else (case flush_buffer kern ?f1 k of None \<Rightarrow> None
        | Some (s, f2, k2) \<Rightarrow> if \<not> is_ok s then Some (s, f2, k2)
            else if length ?rest < kWritableFileBufferSize then Some (Status_Ok, f2\<lparr>wr_buf := ?rest\<rparr>, k2)
            else map_option (\<lambda>(s', k3). (s', f2, k3)) (write_unbuffered kern ?rest f2 k2)))"
    unfolding posix_append_def Let_def n_def by (rule refl)
  have f1: "file_ok (?f1, k)" using assms by (auto simp: file_ok_def n_def)
  then obtain k2 where k2: "flush_buffer kern ?f1 k = Some (Status_Ok, ?f1\<lparr>wr_buf := []\<rparr>, k2)" "works k2"
    "written k2 = written k @ wr_buf ?f1" using flush_works by blast
  obtain k3 where k3: "write_unbuffered kern ?rest (?f1\<lparr>wr_buf := []\<rparr>) k2 = Some (Status_Ok, k3)" "works k3"
    "written k3 = written k2 @ ?rest"
    using write_unbuffered_works[OF k2(2), of "?f1\<lparr>wr_buf := []\<rparr>" ?rest] assms by (auto simp: file_ok_def)
  consider "?rest = []" | "?rest \<noteq> []" "length ?rest < kWritableFileBufferSize"
    | "?rest \<noteq> []" "\<not> length ?rest < kWritableFileBufferSize" by blast
  then show ?thesis
  proof cases
    case 1
    then have "posix_append kern d f k = Some (Status_Ok, ?f1, k)" by (simp add: app)
    moreover have "take n d = d" using 1 by simp
    ultimately show ?thesis using f1 by (simp add: file_contents_def)
  next
    case 2
    let ?f2 = "?f1\<lparr>wr_buf := ?rest\<rparr>"
    have "posix_append kern d f k = Some (Status_Ok, ?f2, k2)"
      using app 2 k2(1) by simp
    moreover have "file_ok (?f2, k2)" using 2 k2(2) assms by (simp add: file_ok_def)
    moreover have "file_contents (?f2, k2) = file_contents (f, k) @ d" using k2(3) by (simp add: file_contents_def)
    ultimately show ?thesis by blast
  next
    case 3
    let ?f2 = "?f1\<lparr>wr_buf := []\<rparr>"
    have "posix_append kern d f k = Some (Status_Ok, ?f2, k3)"
      using app 3 k2(1) k3(1) by simp
    moreover have "file_ok (?f2, k3)" using k3(2) assms by (simp add: file_ok_def)
    moreover have "file_contents (?f2, k3) = file_contents (f, k) @ d"
      using k2(3) k3(3) by (simp add: file_contents_def)
    ultimately show ?thesis by blast
  qed
qed

end

text \<open>On such a kernel the POSIX files keep the contracts of the file interface.\<close>

sublocale writing_kernel \<subseteq> posix: byte_sink "posix_writable kern" file_ok file_contents
proof (unfold_locales, goal_cases)
  case (1 fk d)
  then show ?case using append_works[of "fst fk" "snd fk" d] by (auto simp: posix_writable_def split: prod.split)
next
  case (2 fk)
  then show ?case using flush_works[of "fst fk" "snd fk"]
    by (auto simp: posix_writable_def file_ok_def file_contents_def split: prod.split)
qed

context reading_kernel begin

definition source_ok :: "posix_sequential_file \<times> 'k \<Rightarrow> bool" where
  "source_ok fk \<longleftrightarrow> works (snd fk) \<and> sq_fd (fst fk) = fd"

definition source_remaining :: "posix_sequential_file \<times> 'k \<Rightarrow> bytes" where
  "source_remaining fk = to_read (snd fk)"

end

sublocale reading_kernel \<subseteq> posix: byte_source "posix_sequential kern" source_ok source_remaining
proof (unfold_locales, goal_cases)
  case (1 fk n)
  obtain f k where fk: "fk = (f, k)" by (cases fk)
  obtain k' where k': "k_read kern fd n k = (int (length (take n (to_read k))), take n (to_read k), k')"
    "works k'" "to_read k' = drop n (to_read k)"
    using kread[of k n] 1 fk by (auto simp: source_ok_def)
  have "posix_sequential_read kern n f k = Some (Status_Ok, take n (to_read k), k')"
    using k'(1) 1 fk by (subst posix_sequential_read.simps) (simp add: slice_of_ptr_def source_ok_def min_def)
  then show ?case using 1 k'(2,3) fk
    by (simp add: posix_sequential_def source_ok_def source_remaining_def)
qed

end
