(* ===== verification/Posix_Env.thy ===== *)
theory Posix_Env
  imports Posix_File Log_Roundtrip
begin

text \<open>
  The rest of \<open>__detail/posix_env.cc\<close>: the descriptor limiter, alone and under interleaving
  threads, the lock table, the random access files and the two file openers of \<open>posix_env\<close>
  that have a body.  Every other override of \<open>posix_env\<close> has an empty body; those that return a
  value have no result (\<open>posix_get_file_size\<close> below stands for them).
\<close>

section \<open>The limiter\<close>

record limiter =
  max_acquires :: int
  acquires_allowed :: int

definition limiter_ctor :: "int \<Rightarrow> limiter option" where
  "limiter_ctor m = (if 0 \<le> m then Some \<lparr>max_acquires = m, acquires_allowed = m\<rparr> else None)"

text \<open>\<open>fetch_sub\<close>/\<open>fetch_add\<close> of one, with the value before.\<close>

definition fetch_add :: "int \<Rightarrow> limiter \<Rightarrow> int \<times> limiter" where
  "fetch_add i l = (acquires_allowed l, l\<lparr>acquires_allowed := acquires_allowed l + i\<rparr>)"

definition limiter_acquire :: "limiter \<Rightarrow> (bool \<times> limiter) option" where
  "limiter_acquire l =
     (let (old_acquires_allowed, l1) = fetch_add (-1) l
      in if 0 < old_acquires_allowed then Some (True, l1)
         else let (pre_increment, l2) = fetch_add 1 l1
              in if pre_increment < max_acquires l2 then Some (False, l2) else None)"

definition limiter_release :: "limiter \<Rightarrow> limiter option" where
  "limiter_release l =
     (let (old_acquires_allowed, l1) = fetch_add 1 l
      in if old_acquires_allowed < max_acquires l1 then Some l1 else None)"

subsection \<open>Interleaved threads\<close>

text \<open>
  Each atomic operation is one step.  A thread that found nothing left is \<open>backing off\<close> between
  its \<open>fetch_sub\<close> and its \<open>fetch_add\<close>; a thread that got a resource holds it until it releases.
  \<open>Aborted\<close> is a failed assertion.
\<close>

datatype limiter_state = Running (lim: limiter) (holding: nat) (backing_off: nat) | Aborted

inductive limiter_step :: "limiter_state \<Rightarrow> limiter_state \<Rightarrow> bool" where
  acquired: "fetch_add (-1) l = (old, l') \<Longrightarrow> 0 < old \<Longrightarrow>
    limiter_step (Running l h b) (Running l' (Suc h) b)"
| exhausted: "fetch_add (-1) l = (old, l') \<Longrightarrow> \<not> 0 < old \<Longrightarrow>
    limiter_step (Running l h b) (Running l' h (Suc b))"
| give_back: "fetch_add 1 l = (old, l') \<Longrightarrow>
    limiter_step (Running l h (Suc b)) (if old < max_acquires l' then Running l' h b else Aborted)"
| released: "fetch_add 1 l = (old, l') \<Longrightarrow>
    limiter_step (Running l (Suc h) b) (if old < max_acquires l' then Running l' h b else Aborted)"

inductive_cases limiter_stepE: "limiter_step s t"

inductive limiter_reachable :: "int \<Rightarrow> limiter_state \<Rightarrow> bool" for m where
  start: "limiter_ctor m = Some l \<Longrightarrow> limiter_reachable m (Running l 0 0)"
| step: "limiter_reachable m s \<Longrightarrow> limiter_step s t \<Longrightarrow> limiter_reachable m t"

definition limiter_inv :: "int \<Rightarrow> limiter_state \<Rightarrow> bool" where
  "limiter_inv m s \<longleftrightarrow> (case s of Aborted \<Rightarrow> False
     | Running l h b \<Rightarrow> max_acquires l = m \<and> acquires_allowed l = m - int h - int b \<and> int h \<le> m)"

lemma limiter_step_inv: "limiter_step s t \<Longrightarrow> limiter_inv m s \<Longrightarrow> limiter_inv m t"
  by (cases rule: limiter_step.cases) (auto simp: limiter_inv_def fetch_add_def)

lemma limiter_reachable_inv: "limiter_reachable m s \<Longrightarrow> limiter_inv m s"
proof (induction rule: limiter_reachable.induct)
  case (start l)
  then show ?case by (auto simp: limiter_inv_def limiter_ctor_def split: if_splits)
next
  case (step s t)
  then show ?case using limiter_step_inv by blast
qed

section \<open>The lock table\<close>

type_synonym posix_lock_table = "bytes set"

definition lock_table_insert :: "bytes \<Rightarrow> posix_lock_table \<Rightarrow> bool \<times> posix_lock_table" where
  "lock_table_insert fname locked = (fname \<notin> locked, insert fname locked)"

section \<open>Random access files\<close>

record posix_random_access_file =
  has_permanent_fd :: bool
  ra_fd :: int
  ra_filename :: bytes

definition random_access_ctor ::
  "'k kernel \<Rightarrow> bytes \<Rightarrow> int \<Rightarrow> limiter \<Rightarrow> 'k \<Rightarrow> (posix_random_access_file \<times> limiter \<times> 'k) option" where
  "random_access_ctor kern filename fd lm k =
     map_option (\<lambda>(got, lm').
       (\<lparr>has_permanent_fd = got, ra_fd = (if got then fd else -1), ra_filename = filename\<rparr>, lm',
        if got then k else snd (k_close kern fd k))) (limiter_acquire lm)"

definition random_access_dtor ::
  "'k kernel \<Rightarrow> posix_random_access_file \<Rightarrow> limiter \<Rightarrow> 'k \<Rightarrow> (limiter \<times> 'k) option" where
  "random_access_dtor kern f lm k =
     (if has_permanent_fd f then
        if ra_fd f \<noteq> -1
        then map_option (\<lambda>lm'. (lm', snd (k_close kern (ra_fd f) k))) (limiter_release lm)
        else None
      else Some (lm, k))"

definition random_access_read ::
  "'k kernel \<Rightarrow> u64 \<Rightarrow> nat \<Rightarrow> posix_random_access_file \<Rightarrow> 'k \<Rightarrow> (status \<times> slice \<times> 'k) option" where
  "random_access_read kern offset n f k =
     (let (fd, k1) = (if has_permanent_fd f then (ra_fd f, k) else k_open_rdonly kern (ra_filename f) k)
      in if \<not> has_permanent_fd f \<and> fd < 0
         then Some (posix_error kern (ra_filename f) (k_errno kern k1), [], k1)
         else if fd = -1 then None
         else
           (case k_pread kern fd n offset k1 of
              (read_size, scratch, k2) \<Rightarrow>
                let result = slice_of_ptr scratch (if read_size < 0 then 0 else nat read_size);
                    s = (if read_size < 0 then posix_error kern (ra_filename f) (k_errno kern k2) else Status_Ok)
                in if \<not> has_permanent_fd f
                   then if fd \<noteq> ra_fd f then Some (s, result, snd (k_close kern fd k2)) else None
                   else Some (s, result, k2)))"

record posix_mmap_readable_file =
  mm_base :: bytes
  mm_filename :: bytes

text \<open>The sum is taken in 64 bits; a wrapped sum passes the test and the slice lies outside the mapping.\<close>

definition mmap_read ::
  "'k kernel \<Rightarrow> u64 \<Rightarrow> u64 \<Rightarrow> posix_mmap_readable_file \<Rightarrow> (status \<times> slice) option" where
  "mmap_read kern offset n f =
     (if of_nat (length (mm_base f)) < offset + n
      then Some (posix_error kern (mm_filename f) EINVAL, slice_empty_ctor)
      else if unat offset + unat n \<le> length (mm_base f)
      then Some (Status_Ok, slice_of_ptr (drop (unat offset) (mm_base f)) (unat n))
      else None)"

definition mmap_dtor :: "'k kernel \<Rightarrow> posix_mmap_readable_file \<Rightarrow> limiter \<Rightarrow> 'k \<Rightarrow> (limiter \<times> 'k) option" where
  "mmap_dtor kern f lm k = map_option (\<lambda>lm'. (lm', k_munmap kern (mm_base f) k)) (limiter_release lm)"

section \<open>The environment\<close>

text \<open>
  \<open>g_open_read_only_file_limit\<close> is a global that \<open>max_open_files\<close> fills at the first call; the
  kernel's limit is \<open>None\<close> for a failed \<open>getrlimit\<close> and \<open>Some None\<close> for no limit.
\<close>

definition max_mmaps :: "int \<Rightarrow> int" where
  "max_mmaps g_mmap_limit = g_mmap_limit"

definition max_open_files :: "'k kernel \<Rightarrow> int \<Rightarrow> 'k \<Rightarrow> int" where
  "max_open_files kern g_open_read_only_file_limit k =
     (if 0 \<le> g_open_read_only_file_limit then g_open_read_only_file_limit
      else (case k_nofile_limit kern k of
              None \<Rightarrow> 50
            | Some None \<Rightarrow> 2147483647
            | Some (Some cur) \<Rightarrow> sint (word_of_int (cur div 5) :: u32)))"

record posix_env =
  started_background_thread :: bool
  locks :: posix_lock_table
  mmap_limiter :: limiter
  fd_limiter :: limiter

definition posix_env_ctor :: "'k kernel \<Rightarrow> int \<Rightarrow> int \<Rightarrow> 'k \<Rightarrow> posix_env option" where
  "posix_env_ctor kern g_mmap_limit g_open_read_only_file_limit k =
     Option.bind (limiter_ctor (max_mmaps g_mmap_limit)) (\<lambda>m.
     Option.bind (limiter_ctor (max_open_files kern g_open_read_only_file_limit k)) (\<lambda>f.
       Some \<lparr>started_background_thread = False, locks = {}, mmap_limiter = m, fd_limiter = f\<rparr>))"

definition posix_new_sequential_file ::
  "'k kernel \<Rightarrow> bytes \<Rightarrow> 'k \<Rightarrow> status \<times> posix_sequential_file option \<times> 'k" where
  "posix_new_sequential_file kern filename k =
     (case k_open_rdonly kern filename k of
        (fd, k') \<Rightarrow>
          if fd < 0 then (posix_error kern filename (k_errno kern k'), None, k')
          else (Status_Ok, Some \<lparr>sq_fd = fd, sq_filename = filename\<rparr>, k'))"

text \<open>\<open>get_file_size\<close> has an empty body, so the mapped branch never gets a status to test.\<close>

definition posix_get_file_size :: "bytes \<Rightarrow> 'k \<Rightarrow> (status \<times> u64 \<times> 'k) option" where
  "posix_get_file_size filename k = None"

definition posix_new_random_access_file ::
  "'k kernel \<Rightarrow> (u64 \<Rightarrow> int \<Rightarrow> 'k \<Rightarrow> bytes option \<times> 'k) \<Rightarrow> posix_env \<Rightarrow> bytes \<Rightarrow> 'k \<Rightarrow>
   (status \<times> (posix_random_access_file + posix_mmap_readable_file) option \<times> posix_env \<times> 'k) option" where
  "posix_new_random_access_file kern mmap e filename k =
     (case k_open_rdonly kern filename k of
        (fd, k1) \<Rightarrow>
          if fd < 0 then Some (posix_error kern filename (k_errno kern k1), None, e, k1)
          else Option.bind (limiter_acquire (mmap_limiter e)) (\<lambda>(got, m1).
            let e1 = e\<lparr>mmap_limiter := m1\<rparr>
            in if \<not> got then
                 map_option (\<lambda>(f, fl, k2). (Status_Ok, Some (Inl f), e1\<lparr>fd_limiter := fl\<rparr>, k2))
                   (random_access_ctor kern filename fd (fd_limiter e1) k1)
               else Option.bind (posix_get_file_size filename k1) (\<lambda>(s, file_size, k2).
                 let (s', res, k3) =
                       (if is_ok s then
                          (case mmap file_size fd k2 of
                             (Some base, k3) \<Rightarrow> (s, Some (Inr \<lparr>mm_base = base, mm_filename = filename\<rparr>), k3)
                           | (None, k3) \<Rightarrow> (posix_error kern filename (k_errno kern k3), None, k3))
                        else (s, None, k2));
                     k4 = snd (k_close kern fd k3)
                 in if \<not> is_ok s'
                    then map_option (\<lambda>m2. (s', res, e1\<lparr>mmap_limiter := m2\<rparr>, k4)) (limiter_release (mmap_limiter e1))
                    else Some (s', res, e1, k4))))"

section \<open>A kernel with one file in memory\<close>

text \<open>
  The file and the read offset; a write takes at most 4096 bytes at a time.  It shows that the
  hypotheses on the kernel can hold.
\<close>

definition memory_kernel :: "(bytes \<times> nat) kernel" where
  "memory_kernel =
     \<lparr>k_read = (\<lambda>fd n (m, p). let d = take n (drop p m) in (int (length d), d, m, p + length d)),
      k_pread = (\<lambda>fd n off (m, p). let d = take n (drop (unat off) m) in (int (length d), d, m, p)),
      k_write = (\<lambda>fd d (m, p). let n = min (length d) 4096 in (int n, m @ take n d, p)),
      k_lseek_cur = (\<lambda>fd n (m, p). (int (p + unat n), m, p + unat n)),
      k_open_rdonly = (\<lambda>name (m, p). (3, m, 0)),
      k_close = (\<lambda>fd k. (0, k)),
      k_fdatasync = (\<lambda>fd k. (0, k)),
      k_munmap = (\<lambda>b k. k),
      k_errno = (\<lambda>k. 0),
      k_strerror = (\<lambda>e. cstr ''error''),
      k_nofile_limit = (\<lambda>k. Some (Some 1024))\<rparr>"

interpretation mem_write: writing_kernel memory_kernel 3 "\<lambda>_. True" fst
proof (unfold_locales, goal_cases)
  case (1 k d)
  then show ?case
    by (intro exI[of _ "min (length d) 4096"])
      (auto simp: memory_kernel_def Let_def min_def split: prod.splits)
qed

interpretation mem_read: reading_kernel memory_kernel 3 "\<lambda>_. True" "\<lambda>(m, p). drop p m"
proof (unfold_locales, goal_cases)
  case (1 k n)
  obtain m p where k: "k = (m, p)" by (cases k)
  have "p + length (take n (drop p m)) \<le> length m \<or> drop p m = []" by auto
  then have "drop (p + length (take n (drop p m))) m = drop n (drop p m)"
    by (metis add.commute drop_drop drop_all length_drop length_take min.cobounded1 min_def nat_le_linear le_add_diff_inverse2 drop_Nil)
  then show ?case by (simp add: memory_kernel_def Let_def k)
qed

definition new_file :: "posix_writable_file \<times> bytes \<times> nat" where
  "new_file = (\<lparr>wr_buf = [], wr_fd = 3, wr_is_manifest = False, wr_filename = cstr ''/db/000003.log'',
     wr_dirname = cstr ''/db''\<rparr>, [], 0)"

lemma new_file_ok: "mem_write.file_ok new_file" "mem_write.file_contents new_file = []"
  by (simp_all add: mem_write.file_ok_def mem_write.file_contents_def new_file_def)

section \<open>Properties\<close>

text \<open>
  C38. However threads interleave their atomic operations, the limiter never has more holders than
  its maximum, and neither assertion ever fails.
\<close>

theorem limiter_bounds_holders:
  assumes "limiter_reachable m s"
  shows "case s of Aborted \<Rightarrow> False
    | Running l h b \<Rightarrow> int h \<le> m \<and> acquires_allowed l = m - int h - int b"
  using limiter_reachable_inv[OF assms] by (auto simp: limiter_inv_def split: limiter_state.splits)

lemma limiter_example: "limiter_reachable 1 (Running \<lparr>max_acquires = 1, acquires_allowed = -1\<rparr> 1 1)"
proof -
  have "limiter_reachable 1 (Running \<lparr>max_acquires = 1, acquires_allowed = 1\<rparr> 0 0)"
    by (rule limiter_reachable.start) (simp add: limiter_ctor_def)
  then have "limiter_reachable 1 (Running \<lparr>max_acquires = 1, acquires_allowed = 0\<rparr> 1 0)"
    by (rule limiter_reachable.step) (use acquired[of "\<lparr>max_acquires = 1, acquires_allowed = 1\<rparr>" 1] in \<open>simp add: fetch_add_def\<close>)
  then show ?thesis
    by (rule limiter_reachable.step) (use exhausted[of "\<lparr>max_acquires = 1, acquires_allowed = 0\<rparr>" 0] in \<open>simp add: fetch_add_def\<close>)
qed

theorem limiter_bounds_holders_witness:
  "case Running \<lparr>max_acquires = 1, acquires_allowed = -1\<rparr> 1 1 of Aborted \<Rightarrow> False
    | Running l h b \<Rightarrow> int h \<le> 1 \<and> acquires_allowed l = 1 - int h - int b"
  by (rule limiter_bounds_holders[OF limiter_example])

text \<open>
  C22. On a kernel whose writes make progress, however short, appending any number of bytes to a
  POSIX file and flushing it succeeds, keeps the buffer within its 65536 bytes, and leaves on the
  descriptor exactly what was buffered before followed by the appended bytes.
\<close>

theorem posix_append_flush:
  assumes "writing_kernel kern fd works written" and "works k"
    and "wr_fd f = fd" and "length (wr_buf f) \<le> kWritableFileBufferSize"
  shows "\<exists>f1 k1 f2 k2. posix_append kern d f k = Some (Status_Ok, f1, k1)
    \<and> length (wr_buf f1) \<le> kWritableFileBufferSize
    \<and> flush_buffer kern f1 k1 = Some (Status_Ok, f2, k2) \<and> wr_buf f2 = []
    \<and> written k2 = written k @ wr_buf f @ d"
proof -
  have ok: "writing_kernel.file_ok fd works (f, k)"
    using assms by (simp add: writing_kernel.file_ok_def[OF assms(1)])
  obtain f1 k1 where a: "posix_append kern d f k = Some (Status_Ok, f1, k1)"
    "writing_kernel.file_ok fd works (f1, k1)"
    "writing_kernel.file_contents written (f1, k1) = writing_kernel.file_contents written (f, k) @ d"
    using writing_kernel.append_works[OF assms(1) ok, of d] by auto
  obtain k2 where "flush_buffer kern f1 k1 = Some (Status_Ok, f1\<lparr>wr_buf := []\<rparr>, k2)"
    "written k2 = written k1 @ wr_buf f1"
    using writing_kernel.flush_works[OF assms(1) a(2)] by blast
  then show ?thesis using a
    by (auto simp: writing_kernel.file_ok_def[OF assms(1)] writing_kernel.file_contents_def[OF assms(1)])
qed

theorem posix_append_flush_witness:
  "\<exists>f1 k1 f2 k2. posix_append memory_kernel (replicate 70000 7) (fst new_file) (snd new_file) = Some (Status_Ok, f1, k1)
    \<and> length (wr_buf f1) \<le> kWritableFileBufferSize
    \<and> flush_buffer memory_kernel f1 k1 = Some (Status_Ok, f2, k2) \<and> wr_buf f2 = []
    \<and> fst k2 = fst (snd new_file) @ wr_buf (fst new_file) @ replicate 70000 7"
  by (rule posix_append_flush[OF mem_write.writing_kernel_axioms]) (simp_all add: new_file_def)

section \<open>The log on POSIX files\<close>

text \<open>The log properties apply to the POSIX files over a kernel that works.\<close>

lemmas mem_sink = mem_write.posix.byte_sink_axioms
lemmas mem_source = mem_read.posix.byte_source_axioms

theorem log_roundtrip_witness:
  "\<exists>w' f'. add_records (posix_writable memory_kernel) [cstr ''alpha'', [], cstr ''gamma''] writer_ctor new_file
      = Some (Status_Ok, w', f') \<and>
    (\<forall>r. mem_read.source_ok r \<longrightarrow> mem_read.source_remaining r = mem_write.file_contents f' \<longrightarrow>
      (\<exists>rd'. read_records (Suc (length [cstr ''alpha'', [], cstr ''gamma''])) (posix_sequential memory_kernel)
          (reader_ctor r True True 0) = Some ([cstr ''alpha'', [], cstr ''gamma''], rd') \<and> reports rd' = []))"
  by (rule log_roundtrip[OF mem_sink mem_source new_file_ok]) (simp add: start_of_def log_sizes)



end
