(* ===== verification/Environment.thy ===== *)
theory Environment
  imports File_Interface File_Names "HOL-Library.AList"
begin

text \<open>
  The abstract class \<open>env\<close> of \<open>include/leveldb/env.h\<close>, the functions of \<open>src/leveldb/env.cc\<close>
  and \<open>set_current_file\<close> of \<open>__detail/filename.cc\<close>.  An environment is a record of its virtual
  functions over the world \<open>'w\<close>; open files and locks are handles.  A function that opens a file
  returns the handle with the status; a handle stands for a file only when the status is OK.
\<close>

record 'w env =
  env_new_sequential_file :: "bytes \<Rightarrow> 'w \<Rightarrow> (status \<times> nat \<times> 'w) option"
  env_new_writable_file :: "bytes \<Rightarrow> 'w \<Rightarrow> (status \<times> nat \<times> 'w) option"
  env_new_appendable_file :: "bytes \<Rightarrow> 'w \<Rightarrow> (status \<times> nat \<times> 'w) option"
  env_file_exists :: "bytes \<Rightarrow> 'w \<Rightarrow> (bool \<times> 'w) option"
  env_get_children :: "bytes \<Rightarrow> 'w \<Rightarrow> (status \<times> bytes list \<times> 'w) option"
  env_remove_file :: "bytes \<Rightarrow> 'w \<Rightarrow> (status \<times> 'w) option"
  env_create_dir :: "bytes \<Rightarrow> 'w \<Rightarrow> (status \<times> 'w) option"
  env_get_file_size :: "bytes \<Rightarrow> 'w \<Rightarrow> (status \<times> u64 \<times> 'w) option"
  env_rename_file :: "bytes \<Rightarrow> bytes \<Rightarrow> 'w \<Rightarrow> (status \<times> 'w) option"
  env_lock_file :: "bytes \<Rightarrow> 'w \<Rightarrow> (status \<times> nat \<times> 'w) option"
  env_unlock_file :: "nat \<Rightarrow> 'w \<Rightarrow> (status \<times> 'w) option"
  env_new_logger :: "bytes \<Rightarrow> 'w \<Rightarrow> (status \<times> nat \<times> 'w) option"
  env_writable :: "nat \<Rightarrow> 'w writable_file"
  env_sequential :: "nat \<Rightarrow> 'w sequential_file"
  env_delete_writable :: "nat \<Rightarrow> 'w \<Rightarrow> 'w"
  env_delete_sequential :: "nat \<Rightarrow> 'w \<Rightarrow> 'w"

section \<open>Defaults of the base class\<close>

definition base_new_appendable_file :: "bytes \<Rightarrow> 'w \<Rightarrow> (status \<times> nat \<times> 'w) option" where
  "base_new_appendable_file fname w = Some (not_supported (cstr ''new_appendable_file'') fname, 0, w)"

text \<open>
  \<open>remove_file\<close> and \<open>delete_file\<close> call each other, and so do \<open>remove_dir\<close> and \<open>delete_dir\<close>; a
  derived class overrides one of the two.  The overrides are the optional first arguments, and
  the flag says which of the two functions is called.
\<close>

partial_function (option) remove_or_delete ::
  "(bytes \<Rightarrow> 'w \<Rightarrow> (status \<times> 'w) option) option \<Rightarrow> (bytes \<Rightarrow> 'w \<Rightarrow> (status \<times> 'w) option) option
    \<Rightarrow> bool \<Rightarrow> bytes \<Rightarrow> 'w \<Rightarrow> (status \<times> 'w) option" where
  "remove_or_delete remove_override delete_override is_remove name w =
     (if is_remove
      then (case remove_override of Some f \<Rightarrow> f name w
            | None \<Rightarrow> remove_or_delete remove_override delete_override False name w)
      else (case delete_override of Some f \<Rightarrow> f name w
            | None \<Rightarrow> remove_or_delete remove_override delete_override True name w))"

text \<open>A logger formats and keeps what it is given in its own way; without one nothing is logged.\<close>

record ('a, 'w) logger =
  logv :: "bytes \<Rightarrow> 'a list \<Rightarrow> 'w \<Rightarrow> 'w"

definition env_Log :: "('a, 'w) logger option \<Rightarrow> bytes \<Rightarrow> 'a list \<Rightarrow> 'w \<Rightarrow> 'w" where
  "env_Log info_log format ap w = (case info_log of None \<Rightarrow> w | Some l \<Rightarrow> logv l format ap w)"

section \<open>Whole files\<close>

definition do_write_string_to_file ::
  "'w env \<Rightarrow> slice \<Rightarrow> bytes \<Rightarrow> bool \<Rightarrow> 'w \<Rightarrow> (status \<times> 'w) option" where
  "do_write_string_to_file env data fname should_sync w =
     Option.bind (env_new_writable_file env fname w) (\<lambda>(s, h, w1).
       if \<not> is_ok s then Some (s, w1)
       else
         let file = env_writable env h in
         Option.bind (wf_append file data w1) (\<lambda>(s2, w2).
         Option.bind (if is_ok s2 \<and> should_sync then wf_sync file w2 else Some (s2, w2)) (\<lambda>(s3, w3).
         Option.bind (if is_ok s3 then wf_close file w3 else Some (s3, w3)) (\<lambda>(s4, w4).
         let w5 = env_delete_writable env h w4 in
         if \<not> is_ok s4
         then map_option (\<lambda>(_, w6). (s4, w6)) (env_remove_file env fname w5)
         else Some (s4, w5)))))"

definition write_string_to_file :: "'w env \<Rightarrow> slice \<Rightarrow> bytes \<Rightarrow> 'w \<Rightarrow> (status \<times> 'w) option" where
  "write_string_to_file env data fname w = do_write_string_to_file env data fname False w"

definition write_string_to_file_sync :: "'w env \<Rightarrow> slice \<Rightarrow> bytes \<Rightarrow> 'w \<Rightarrow> (status \<times> 'w) option" where
  "write_string_to_file_sync env data fname w = do_write_string_to_file env data fname True w"

definition kBufferSize :: nat where
  "kBufferSize = 8192"

partial_function (option) read_all_loop ::
  "'w sequential_file \<Rightarrow> bytes \<Rightarrow> 'w \<Rightarrow> (status \<times> bytes \<times> 'w) option" where
  "read_all_loop file data w =
     Option.bind (sf_read file kBufferSize w) (\<lambda>(s, fragment, w1).
       if \<not> is_ok s then Some (s, data, w1)
       else if slice_empty fragment then Some (s, data @ fragment, w1)
       else read_all_loop file (data @ fragment) w1)"

text \<open>The data string is cleared first, so it is a result only.\<close>

definition read_file_to_string :: "'w env \<Rightarrow> bytes \<Rightarrow> 'w \<Rightarrow> (status \<times> bytes \<times> 'w) option" where
  "read_file_to_string env fname w =
     Option.bind (env_new_sequential_file env fname w) (\<lambda>(s, h, w1).
       if \<not> is_ok s then Some (s, [], w1)
       else map_option (\<lambda>(s2, data, w2). (s2, data, env_delete_sequential env h w2))
              (read_all_loop (env_sequential env h) [] w1))"

section \<open>The CURRENT file\<close>

definition set_current_file :: "'w env \<Rightarrow> bytes \<Rightarrow> u64 \<Rightarrow> 'w \<Rightarrow> (status \<times> 'w) option" where
  "set_current_file env dbname descriptor_number w =
     Option.bind (descriptor_file_name dbname descriptor_number) (\<lambda>manifest.
       if \<not> slice_starts_with manifest (dbname @ cstr ''/'') then None
       else
         Option.bind (slice_remove_prefix manifest (length dbname + 1)) (\<lambda>contents.
         Option.bind (temp_file_name dbname descriptor_number) (\<lambda>tmp.
         Option.bind (write_string_to_file_sync env (slice_to_string contents @ [10]) tmp w) (\<lambda>(s, w1).
         Option.bind (if is_ok s then env_rename_file env tmp (current_file_name dbname) w1 else Some (s, w1))
           (\<lambda>(s2, w2).
         if \<not> is_ok s2 then map_option (\<lambda>(_, w3). (s2, w3)) (env_remove_file env tmp w2)
         else Some (s2, w2))))))"

section \<open>Reading a whole file\<close>

context byte_source begin

lemma read_all_returns:
  "ready r \<Longrightarrow> \<exists>r'. read_all_loop sf data r = Some (Status_Ok, data @ remaining r, r') \<and> ready r' \<and> remaining r' = []"
proof (induction "length (remaining r)" arbitrary: r data rule: less_induct)
  case less
  let ?R = "remaining r"
  obtain r1 where r1: "sf_read sf kBufferSize r = Some (Status_Ok, take kBufferSize ?R, r1)" "ready r1"
    "remaining r1 = drop kBufferSize ?R" using read[OF less.prems] by blast
  show ?case
  proof (cases "?R = []")
    case True
    with r1 show ?thesis by (subst read_all_loop.simps) (simp add: slice_empty_def slice_size_def)
  next
    case False
    then have "length (remaining r1) < length ?R" using r1(3) by (simp add: kBufferSize_def)
    from less.hyps[OF this r1(2), of "data @ take kBufferSize ?R"] False r1 show ?thesis
      by (subst read_all_loop.simps) (simp add: slice_empty_def slice_size_def kBufferSize_def)
  qed
qed

end

section \<open>Nobody overrides: the defaults never return\<close>

lemma remove_or_delete_overridden:
  assumes "remove_or_delete r d b name w = Some y"
  shows "r \<noteq> None \<or> d \<noteq> None"
  by (rule remove_or_delete.raw_induct[where P = "\<lambda>r d b name w y. r \<noteq> None \<or> d \<noteq> None", OF _ assms])
    (fastforce split: if_splits option.splits)

section \<open>Properties\<close>

text \<open>
  A class derived from \<open>env\<close> that overrides neither \<open>remove_file\<close> nor \<open>delete_file\<close> (or
  neither of the directory functions) never returns from a call of either: the two defaults call
  each other for ever.  One override is enough for both to behave like it.
\<close>

theorem remove_defaults_diverge:
  "remove_or_delete None None b name w = None
   \<and> remove_or_delete (Some f) None b name w = f name w
   \<and> remove_or_delete None (Some g) b name w = g name w"
proof (intro conjI)
  show "remove_or_delete None None b name w = None"
    using remove_or_delete_overridden[of None None b name w] by (cases "remove_or_delete None None b name w") auto
  have "remove_or_delete (Some f) None True name w = f name w" by (subst remove_or_delete.simps) simp
  then show "remove_or_delete (Some f) None b name w = f name w"
    by (cases b) (simp, subst remove_or_delete.simps, simp)
  have "remove_or_delete None (Some g) False name w = g name w" by (subst remove_or_delete.simps) simp
  then show "remove_or_delete None (Some g) b name w = g name w"
    by (cases b) (subst remove_or_delete.simps, simp, simp)
qed

section \<open>What a working environment promises\<close>

text \<open>
  \<open>files\<close> is the content of each file as its users see it, \<open>hname\<close> the file behind a handle.
  Every operation touches only its own file; opening for writing truncates, appending appends,
  a successful rename moves the source onto the target and a failed one changes nothing.
\<close>

definition opens_writable :: "'w env \<Rightarrow> ('w \<Rightarrow> bytes \<Rightarrow> bytes option) \<Rightarrow> ('w \<Rightarrow> nat \<Rightarrow> bytes) \<Rightarrow> bool" where
  "opens_writable e files hname \<longleftrightarrow> (\<forall>f w s h w1. env_new_writable_file e f w = Some (s, h, w1) \<longrightarrow>
     (\<forall>g. g \<noteq> f \<longrightarrow> files w1 g = files w g) \<and> (is_ok s \<longrightarrow> hname w1 h = f \<and> files w1 f = Some []))"

definition appends :: "'w env \<Rightarrow> ('w \<Rightarrow> bytes \<Rightarrow> bytes option) \<Rightarrow> ('w \<Rightarrow> nat \<Rightarrow> bytes) \<Rightarrow> bool" where
  "appends e files hname \<longleftrightarrow> (\<forall>h d w s w1. wf_append (env_writable e h) d w = Some (s, w1) \<longrightarrow>
     (\<forall>g. g \<noteq> hname w h \<longrightarrow> files w1 g = files w g) \<and> hname w1 = hname w
     \<and> (is_ok s \<longrightarrow> files w1 (hname w h) = map_option (\<lambda>c. c @ d) (files w (hname w h))))"

definition keeps_content :: "('w \<Rightarrow> bytes \<Rightarrow> bytes option) \<Rightarrow> ('w \<Rightarrow> nat \<Rightarrow> bytes) \<Rightarrow> nat \<Rightarrow>
    ('w \<Rightarrow> (status \<times> 'w) option) \<Rightarrow> bool" where
  "keeps_content files hname h step \<longleftrightarrow> (\<forall>w s w1. step w = Some (s, w1) \<longrightarrow>
     (\<forall>g. g \<noteq> hname w h \<longrightarrow> files w1 g = files w g) \<and> hname w1 = hname w
     \<and> (is_ok s \<longrightarrow> files w1 = files w))"

definition renames :: "'w env \<Rightarrow> ('w \<Rightarrow> bytes \<Rightarrow> bytes option) \<Rightarrow> bool" where
  "renames e files \<longleftrightarrow> (\<forall>src target w s w1. env_rename_file e src target w = Some (s, w1) \<longrightarrow>
     (if is_ok s then files w1 = (files w)(target := files w src, src := None) else files w1 = files w))"

definition removes :: "'w env \<Rightarrow> ('w \<Rightarrow> bytes \<Rightarrow> bytes option) \<Rightarrow> bool" where
  "removes e files \<longleftrightarrow> (\<forall>f w s w1. env_remove_file e f w = Some (s, w1) \<longrightarrow>
     (\<forall>g. g \<noteq> f \<longrightarrow> files w1 g = files w g) \<and> (is_ok s \<longrightarrow> files w1 f = None))"

definition file_store :: "'w env \<Rightarrow> ('w \<Rightarrow> bytes \<Rightarrow> bytes option) \<Rightarrow> ('w \<Rightarrow> nat \<Rightarrow> bytes) \<Rightarrow> bool" where
  "file_store e files hname \<longleftrightarrow> opens_writable e files hname \<and> appends e files hname
     \<and> (\<forall>h. keeps_content files hname h (wf_sync (env_writable e h)))
     \<and> (\<forall>h. keeps_content files hname h (wf_close (env_writable e h)))
     \<and> (\<forall>h w. files (env_delete_writable e h w) = files w)
     \<and> renames e files \<and> removes e files"

lemma write_string_effect:
  assumes store: "file_store e files hname" and "do_write_string_to_file e data f b w = Some (s, w')"
  shows "(\<forall>g. g \<noteq> f \<longrightarrow> files w' g = files w g) \<and> (is_ok s \<longrightarrow> files w' f = Some data)"
proof -
  have opn: "(\<forall>g. g \<noteq> f \<longrightarrow> files w1 g = files w g) \<and> (is_ok s \<longrightarrow> hname w1 h = f \<and> files w1 f = Some [])"
    if "env_new_writable_file e f w = Some (s, h, w1)" for s h w1
    using store that unfolding file_store_def opens_writable_def by blast
  have app: "(\<forall>g. g \<noteq> hname w h \<longrightarrow> files w1 g = files w g) \<and> hname w1 = hname w
      \<and> (is_ok s \<longrightarrow> files w1 (hname w h) = map_option (\<lambda>c. c @ d) (files w (hname w h)))"
    if "wf_append (env_writable e h) d w = Some (s, w1)" for h d w s w1
    using store that unfolding file_store_def appends_def by blast
  have keep: "(\<forall>g. g \<noteq> hname w h \<longrightarrow> files w1 g = files w g) \<and> hname w1 = hname w \<and> (is_ok s \<longrightarrow> files w1 = files w)"
    if "wf_sync (env_writable e h) w = Some (s, w1) \<or> wf_close (env_writable e h) w = Some (s, w1)" for h w s w1
    using store that unfolding file_store_def keeps_content_def by blast
  have del: "files (env_delete_writable e h w) = files w" for h w
    using store by (simp add: file_store_def)
  have rem: "(\<forall>g. g \<noteq> f \<longrightarrow> files w1 g = files w g)" if "env_remove_file e f w = Some (s, w1)" for w s w1
    using store that unfolding file_store_def removes_def by blast
  show ?thesis
  proof -
    obtain s1 h w1 where w1: "env_new_writable_file e f w = Some (s1, h, w1)"
      using assms(2) by (auto simp: do_write_string_to_file_def bind_eq_Some_conv Let_def)
    note o1 = opn[OF w1]
    show ?thesis
    proof (cases "is_ok s1")
      case False
      with assms(2) w1 o1 show ?thesis by (auto simp: do_write_string_to_file_def)
    next
      case True
      let ?file = "env_writable e h"
      obtain s2 w2 where w2: "wf_append ?file data w1 = Some (s2, w2)"
        using assms(2) w1 True by (auto simp: do_write_string_to_file_def bind_eq_Some_conv Let_def)
      note a2 = app[OF w2]
      obtain s3 w3 where w3: "(if is_ok s2 \<and> b then wf_sync ?file w2 else Some (s2, w2)) = Some (s3, w3)"
        using assms(2) w1 w2 True by (auto simp: do_write_string_to_file_def bind_eq_Some_conv Let_def)
      have k3: "(\<forall>g. g \<noteq> hname w2 h \<longrightarrow> files w3 g = files w2 g) \<and> hname w3 = hname w2
          \<and> (is_ok s3 \<longrightarrow> is_ok s2 \<and> files w3 = files w2)"
        using w3 keep[of h w2 s3 w3] by (auto split: if_splits)
      obtain s4 w4 where w4: "(if is_ok s3 then wf_close ?file w3 else Some (s3, w3)) = Some (s4, w4)"
        using assms(2) w1 w2 w3 True by (auto simp: do_write_string_to_file_def bind_eq_Some_conv Let_def)
      have k4: "(\<forall>g. g \<noteq> hname w3 h \<longrightarrow> files w4 g = files w3 g) \<and> (is_ok s4 \<longrightarrow> is_ok s3 \<and> files w4 = files w3)"
        using w4 keep[of h w3 s4 w4] by (auto split: if_splits)
      have end4: "(if \<not> is_ok s4 then map_option (\<lambda>(_, w6). (s4, w6)) (env_remove_file e f (env_delete_writable e h w4))
          else Some (s4, env_delete_writable e h w4)) = Some (s, w')"
        using assms(2) w1 w2 w3 w4 True by (simp add: do_write_string_to_file_def Let_def)
      have frame: "\<forall>g. g \<noteq> f \<longrightarrow> files w4 g = files w g" using o1 a2 k3 k4 True by simp
      show ?thesis
      proof (cases "is_ok s4")
        case ok: True
        then have "files w4 f = Some data" using o1 a2 k3 k4 True by simp
        with end4 ok frame del show ?thesis by auto
      next
        case bad: False
        then obtain s6 where "env_remove_file e f (env_delete_writable e h w4) = Some (s6, w')" "s = s4"
          using end4 by auto
        with rem[of "env_delete_writable e h w4"] frame del bad show ?thesis by auto
      qed
    qed
  qed
qed

lemma set_current_effect:
  assumes store: "file_store e files hname" and run: "set_current_file e db n w = Some (s, w')"
  shows "if is_ok s then files w' (current_file_name db) = Some (drop (length db + 1) (the (descriptor_file_name db n)) @ [10])
     else files w' (current_file_name db) = files w (current_file_name db)"
proof -
  let ?cur = "current_file_name db"
  obtain m t where m: "descriptor_file_name db n = Some m" and t: "temp_file_name db n = Some t"
    using run by (auto simp: set_current_file_def bind_eq_Some_conv split: if_splits)
  have ct: "?cur \<noteq> t"
    using t by (auto simp: current_file_name_def temp_file_name_def make_file_name_def split: if_splits
        dest!: arg_cong[of _ _ "\<lambda>s. s ! (length s - 1)"] simp: nth_append)
  have sm: "slice_remove_prefix m (length db + 1) = Some (drop (length db + 1) m)"
    using m by (auto simp: slice_remove_prefix_def slice_size_def descriptor_file_name_def split: if_splits)
  obtain s1 w1 where w1: "write_string_to_file_sync e (drop (length db + 1) m @ [10]) t w = Some (s1, w1)"
    using run m t sm by (auto simp: set_current_file_def bind_eq_Some_conv slice_to_string_def split: if_splits)
  have e1: "files w1 ?cur = files w ?cur" "is_ok s1 \<Longrightarrow> files w1 t = Some (drop (length db + 1) m @ [10])"
    using write_string_effect[OF store w1[unfolded write_string_to_file_sync_def]] ct by auto
  obtain s2 w2 where w2: "(if is_ok s1 then env_rename_file e t ?cur w1 else Some (s1, w1)) = Some (s2, w2)"
    using run m t sm w1 by (auto simp: set_current_file_def bind_eq_Some_conv slice_to_string_def split: if_splits)
  have e2: "if is_ok s2 then is_ok s1 \<and> files w2 = (files w1)(?cur := files w1 t, t := None) else files w2 = files w1"
    using w2 store unfolding file_store_def renames_def by (auto split: if_splits)
  have last: "(if \<not> is_ok s2 then map_option (\<lambda>(_, w3). (s2, w3)) (env_remove_file e t w2) else Some (s2, w2)) = Some (s, w')"
    using run m t sm w1 w2 by (auto simp: set_current_file_def slice_to_string_def split: if_splits)
  show ?thesis
  proof (cases "is_ok s2")
    case True
    with last e1 e2 ct m show ?thesis by auto
  next
    case False
    then obtain s3 where "env_remove_file e t w2 = Some (s3, w')" "s = s2" using last by auto
    then have "files w' ?cur = files w2 ?cur" using store ct unfolding file_store_def removes_def by blast
    with False e1 e2 \<open>s = s2\<close> show ?thesis by simp
  qed
qed

section \<open>An environment in memory\<close>

text \<open>It shows that the promises can be kept; the properties below hold of any environment that keeps them.\<close>

record mem_world =
  mw_files :: "(bytes \<times> bytes) list"
  mw_names :: "nat \<Rightarrow> bytes"
  mw_pos :: "nat \<Rightarrow> nat"
  mw_next :: nat

definition mem_files :: "mem_world \<Rightarrow> bytes \<Rightarrow> bytes option" where
  "mem_files w = map_of (mw_files w)"

definition mem_open :: "bytes \<Rightarrow> mem_world \<Rightarrow> status \<times> nat \<times> mem_world" where
  "mem_open f w = (Status_Ok, mw_next w,
     w\<lparr>mw_names := (mw_names w)(mw_next w := f), mw_pos := (mw_pos w)(mw_next w := 0), mw_next := Suc (mw_next w)\<rparr>)"

definition mem_append :: "nat \<Rightarrow> slice \<Rightarrow> mem_world \<Rightarrow> (status \<times> mem_world) option" where
  "mem_append h d w =
     (let f = mw_names w h in
      case mem_files w f of
        Some c \<Rightarrow> Some (Status_Ok, w\<lparr>mw_files := AList.update f (c @ d) (mw_files w)\<rparr>)
      | None \<Rightarrow> Some (io_error f [], w))"

definition mem_env :: "mem_world env" where
  "mem_env =
    \<lparr>env_new_sequential_file = (\<lambda>f w. Some (if mem_files w f = None then (not_found f [], 0, w) else mem_open f w)),
     env_new_writable_file = (\<lambda>f w. Some (mem_open f (w\<lparr>mw_files := AList.update f [] (mw_files w)\<rparr>))),
     env_new_appendable_file = base_new_appendable_file,
     env_file_exists = (\<lambda>f w. Some (mem_files w f \<noteq> None, w)),
     env_get_children = (\<lambda>dir w. Some (Status_Ok,
        map (\<lambda>f. drop (length dir + 1) f) (filter (\<lambda>f. prefix (dir @ cstr ''/'') f) (map fst (mw_files w))), w)),
     env_remove_file = (\<lambda>f w. Some (Status_Ok, w\<lparr>mw_files := AList.delete f (mw_files w)\<rparr>)),
     env_create_dir = (\<lambda>d w. Some (Status_Ok, w)),
     env_get_file_size = (\<lambda>f w. Some (case mem_files w f of None \<Rightarrow> (not_found f [], 0, w)
        | Some c \<Rightarrow> (Status_Ok, of_nat (length c), w))),
     env_rename_file = (\<lambda>a b w. Some (case mem_files w a of None \<Rightarrow> (io_error a [], w)
        | Some c \<Rightarrow> (Status_Ok, w\<lparr>mw_files := AList.delete a (AList.update b c (mw_files w))\<rparr>))),
     env_lock_file = (\<lambda>f w. Some (mem_open f w)),
     env_unlock_file = (\<lambda>h w. Some (Status_Ok, w)),
     env_new_logger = (\<lambda>f w. Some (mem_open f w)),
     env_writable = (\<lambda>h. \<lparr>wf_append = mem_append h, wf_close = (\<lambda>w. Some (Status_Ok, w)),
        wf_flush = (\<lambda>w. Some (Status_Ok, w)), wf_sync = (\<lambda>w. Some (Status_Ok, w))\<rparr>),
     env_sequential = (\<lambda>h. \<lparr>sf_read = (\<lambda>n w. case mem_files w (mw_names w h) of None \<Rightarrow> Some (Status_Ok, [], w)
        | Some c \<Rightarrow> let d = take n (drop (mw_pos w h) c)
            in Some (Status_Ok, d, w\<lparr>mw_pos := (mw_pos w)(h := mw_pos w h + length d)\<rparr>)),
        sf_skip = (\<lambda>n w. Some (Status_Ok, w\<lparr>mw_pos := (mw_pos w)(h := mw_pos w h + unat n)\<rparr>))\<rparr>),
     env_delete_writable = (\<lambda>h w. w),
     env_delete_sequential = (\<lambda>h w. w)\<rparr>"

lemma mem_file_store: "file_store mem_env mem_files mw_names"
  unfolding file_store_def
proof (intro conjI allI)
  show "opens_writable mem_env mem_files mw_names"
    by (auto simp: opens_writable_def mem_env_def mem_open_def mem_files_def update_conv')
  show "appends mem_env mem_files mw_names"
    by (auto simp: appends_def mem_env_def mem_append_def mem_files_def update_conv' Let_def split: option.splits)
  show "removes mem_env mem_files"
    by (auto simp: removes_def mem_env_def mem_files_def delete_conv')
  show "keeps_content mem_files mw_names h (wf_sync (env_writable mem_env h))"
    "keeps_content mem_files mw_names h (wf_close (env_writable mem_env h))" for h
    by (simp_all add: keeps_content_def mem_env_def)
  show "mem_files (env_delete_writable mem_env h w) = mem_files w" for h w by (simp add: mem_env_def)
  show "renames mem_env mem_files"
    by (auto simp: renames_def mem_env_def mem_files_def update_conv' delete_conv' fun_eq_iff split: option.splits)
qed


definition mem_empty :: mem_world where
  "mem_empty = \<lparr>mw_files = [], mw_names = (\<lambda>_. []), mw_pos = (\<lambda>_. 0), mw_next = 0\<rparr>"

text \<open>
  C19. On an environment that keeps its promises, \<open>set_current_file\<close> is all or nothing: it returns
  OK with CURRENT naming the new manifest in full, or an error with CURRENT as it was.
\<close>

theorem set_current_file_atomic:
  assumes "file_store e files hname" and "set_current_file e db n w = Some (s, w')"
  shows "if is_ok s
     then files w' (current_file_name db) = Some (drop (length db + 1) (the (descriptor_file_name db n)) @ [10])
     else files w' (current_file_name db) = files w (current_file_name db)"
  by (rule set_current_effect[OF assms])

lemma zeros5: "replicate 5 (48 :: byte) = [48, 48, 48, 48, 48]"
  by (simp add: numeral_eq_Suc)

lemma mem_set_current:
  "set_current_file mem_env (cstr ''db'') 5 mem_empty = Some (Status_Ok,
     mem_empty\<lparr>mw_files := [(cstr ''db/CURRENT'', cstr ''MANIFEST-000005'' @ [10])],
       mw_names := (mw_names mem_empty)(0 := cstr ''db/000005.dbtmp''), mw_pos := (mw_pos mem_empty)(0 := 0), mw_next := 1\<rparr>)"
  by (simp add: set_current_file_def descriptor_file_name_def temp_file_name_def make_file_name_def
      format_06llu_def decimal_digits.simps current_file_name_def slice_remove_prefix_def slice_size_def
      write_string_to_file_sync_def do_write_string_to_file_def mem_env_def mem_open_def mem_append_def
      mem_files_def mem_empty_def slice_to_string_def Let_def zeros5)

theorem set_current_file_atomic_witness:
  "if is_ok Status_Ok
     then mem_files (snd (the (set_current_file mem_env (cstr ''db'') 5 mem_empty))) (current_file_name (cstr ''db''))
       = Some (drop (length (cstr ''db'') + 1) (the (descriptor_file_name (cstr ''db'') 5)) @ [10])
     else mem_files (snd (the (set_current_file mem_env (cstr ''db'') 5 mem_empty))) (current_file_name (cstr ''db''))
       = mem_files mem_empty (current_file_name (cstr ''db''))"
  by (rule set_current_file_atomic[OF mem_file_store]) (simp only: mem_set_current option.sel snd_conv)

end
