(* ===== verification/Version_Edit.thy ===== *)
theory Version_Edit
  imports Db_Format Status
begin

text \<open>
  \<open>__detail/version_edit.h/.cc\<close>: the delta between two versions of the database, with its
  serialisation.  \<open>None\<close> of the encoder is the failed assertion of \<open>internal_key::encode\<close> on an
  empty key.  \<open>remove_file\<close> is declared but not defined in the repository.
\<close>

record file_meta_data =
  refs :: int
  allowed_seeks :: int
  fnumber :: u64
  file_size :: u64
  smallest :: internal_key
  largest :: internal_key

definition file_meta_data_ctor :: file_meta_data where
  "file_meta_data_ctor =
     \<lparr>refs = 0, allowed_seeks = 2 ^ 30, fnumber = 0, file_size = 0, smallest = [], largest = []\<rparr>"

record version_edit =
  comparator_str :: bytes
  log_number :: u64
  prev_log_number :: u64
  next_file_number :: u64
  last_sequence :: sequence_number
  has_comparator :: bool
  has_log_number :: bool
  has_prev_log_number :: bool
  has_next_file_number :: bool
  has_last_sequence :: bool
  compact_pointers :: "(int \<times> internal_key) list"
  deleted_files :: "(int \<times> u64) set"
  new_files :: "(int \<times> file_meta_data) list"

definition kTagComparator :: u32 where "kTagComparator = 1"
definition kTagLogNumber :: u32 where "kTagLogNumber = 2"
definition kTagNextFileNumber :: u32 where "kTagNextFileNumber = 3"
definition kTagLastSequence :: u32 where "kTagLastSequence = 4"
definition kTagCompactPointer :: u32 where "kTagCompactPointer = 5"
definition kTagDeletedFile :: u32 where "kTagDeletedFile = 6"
definition kTagNewFile :: u32 where "kTagNewFile = 7"
definition kTagPrevLogNumber :: u32 where "kTagPrevLogNumber = 9"

lemmas tag_defs = kTagComparator_def kTagLogNumber_def kTagNextFileNumber_def kTagLastSequence_def
  kTagCompactPointer_def kTagDeletedFile_def kTagNewFile_def kTagPrevLogNumber_def

section \<open>Setters\<close>

definition ve_clear :: "version_edit \<Rightarrow> version_edit" where
  "ve_clear e =
     \<lparr>comparator_str = [], log_number = 0, prev_log_number = 0, next_file_number = 0, last_sequence = 0,
      has_comparator = False, has_log_number = False, has_prev_log_number = False,
      has_next_file_number = False, has_last_sequence = False, compact_pointers = [],
      deleted_files = {}, new_files = []\<rparr>"

text \<open>The constructor clears a value whose members are uninitialised.\<close>

definition version_edit_ctor :: version_edit where
  "version_edit_ctor = ve_clear undefined"

definition set_comparator_name :: "slice \<Rightarrow> version_edit \<Rightarrow> version_edit" where
  "set_comparator_name name e = e\<lparr>has_comparator := True, comparator_str := slice_to_string name\<rparr>"

definition set_log_number :: "u64 \<Rightarrow> version_edit \<Rightarrow> version_edit" where
  "set_log_number num e = e\<lparr>has_log_number := True, log_number := num\<rparr>"

definition set_prev_log_number :: "u64 \<Rightarrow> version_edit \<Rightarrow> version_edit" where
  "set_prev_log_number num e = e\<lparr>has_prev_log_number := True, prev_log_number := num\<rparr>"

definition set_next_file :: "u64 \<Rightarrow> version_edit \<Rightarrow> version_edit" where
  "set_next_file num e = e\<lparr>has_next_file_number := True, next_file_number := num\<rparr>"

definition set_last_sequence :: "sequence_number \<Rightarrow> version_edit \<Rightarrow> version_edit" where
  "set_last_sequence sq e = e\<lparr>has_last_sequence := True, last_sequence := sq\<rparr>"

definition set_compact_pointer :: "int \<Rightarrow> internal_key \<Rightarrow> version_edit \<Rightarrow> version_edit" where
  "set_compact_pointer level key e = e\<lparr>compact_pointers := compact_pointers e @ [(level, key)]\<rparr>"

definition add_file ::
  "int \<Rightarrow> u64 \<Rightarrow> u64 \<Rightarrow> internal_key \<Rightarrow> internal_key \<Rightarrow> version_edit \<Rightarrow> version_edit" where
  "add_file level file fsize small large e =
     e\<lparr>new_files := new_files e @
        [(level, file_meta_data_ctor\<lparr>fnumber := file, file_size := fsize, smallest := small, largest := large\<rparr>)]\<rparr>"

section \<open>Serialisation\<close>

definition put_flagged :: "bool \<Rightarrow> u32 \<Rightarrow> u64 \<Rightarrow> bytes \<Rightarrow> bytes" where
  "put_flagged has t val dst = (if has then put_varint64 (put_varint32 dst t) val else dst)"

fun put_compact_pointers :: "(int \<times> internal_key) list \<Rightarrow> bytes \<Rightarrow> bytes option" where
  "put_compact_pointers [] dst = Some dst"
| "put_compact_pointers ((level, key) # ps) dst =
     Option.bind (internal_key_encode key) (\<lambda>k.
       put_compact_pointers ps
         (put_length_prefixed_slice (put_varint32 (put_varint32 dst kTagCompactPointer) (word_of_int level))
            (slice_to_string k)))"

fun put_new_files :: "(int \<times> file_meta_data) list \<Rightarrow> bytes \<Rightarrow> bytes option" where
  "put_new_files [] dst = Some dst"
| "put_new_files ((level, f) # fs) dst =
     Option.bind (internal_key_encode (smallest f)) (\<lambda>small.
     Option.bind (internal_key_encode (largest f)) (\<lambda>large.
       let d1 = put_varint32 (put_varint32 dst kTagNewFile) (word_of_int level);
           d2 = put_varint64 (put_varint64 d1 (fnumber f)) (file_size f)
       in put_new_files fs (put_length_prefixed_slice (put_length_prefixed_slice d2 small) large)))"

definition ve_encode_to :: "version_edit \<Rightarrow> bytes \<Rightarrow> bytes option" where
  "ve_encode_to e dst =
     (let d1 = (if has_comparator e
                then put_length_prefixed_slice (put_varint32 dst kTagComparator) (comparator_str e) else dst);
          d2 = put_flagged (has_log_number e) kTagLogNumber (log_number e) d1;
          d3 = put_flagged (has_prev_log_number e) kTagPrevLogNumber (prev_log_number e) d2;
          d4 = put_flagged (has_next_file_number e) kTagNextFileNumber (next_file_number e) d3;
          d5 = put_flagged (has_last_sequence e) kTagLastSequence (last_sequence e) d4
      in Option.bind (put_compact_pointers (compact_pointers e) d5) (put_new_files (new_files e)))"

definition get_internal_key :: "slice \<Rightarrow> internal_key option \<times> slice" where
  "get_internal_key inp =
     (case get_length_prefixed_slice inp of
        (Some str, rest) \<Rightarrow>
          (case internal_key_decode_from str of (ok, key) \<Rightarrow> (if ok then Some key else None, rest))
      | (None, rest) \<Rightarrow> (None, rest))"

definition get_level :: "slice \<Rightarrow> int option \<times> slice" where
  "get_level inp =
     (case get_varint32 inp of
        Some (v, rest) \<Rightarrow> (if v < of_nat kNumLevels then Some (sint v) else None, rest)
      | None \<Rightarrow> (None, inp))"

text \<open>A number field: the value is stored only when it could be read.\<close>

definition decode_number ::
  "(u64 \<Rightarrow> version_edit \<Rightarrow> version_edit) \<Rightarrow> string \<Rightarrow> slice \<Rightarrow> version_edit \<Rightarrow>
   string option \<times> version_edit \<times> slice" where
  "decode_number store msg inp e =
     (case get_varint64 inp of Some (v, rest) \<Rightarrow> (None, store v e, rest) | None \<Rightarrow> (Some msg, e, inp))"

definition decode_new_file :: "slice \<Rightarrow> version_edit \<Rightarrow> string option \<times> version_edit \<times> slice" where
  "decode_new_file inp e =
     (case get_level inp of
        (None, r1) \<Rightarrow> (Some ''new-file entry'', e, r1)
      | (Some level, r1) \<Rightarrow>
          (case get_varint64 r1 of
             None \<Rightarrow> (Some ''new-file entry'', e, r1)
           | Some (num, r2) \<Rightarrow>
               (case get_varint64 r2 of
                  None \<Rightarrow> (Some ''new-file entry'', e, r2)
                | Some (fsize, r3) \<Rightarrow>
                    (case get_internal_key r3 of
                       (None, r4) \<Rightarrow> (Some ''new-file entry'', e, r4)
                     | (Some small, r4) \<Rightarrow>
                         (case get_internal_key r4 of
                            (None, r5) \<Rightarrow> (Some ''new-file entry'', e, r5)
                          | (Some large, r5) \<Rightarrow>
                              (None, e\<lparr>new_files := new_files e @ [(level, file_meta_data_ctor
                                  \<lparr>fnumber := num, file_size := fsize, smallest := small, largest := large\<rparr>)]\<rparr>, r5))))))"

text \<open>One turn of the loop: the message, the edit and the rest of the input.\<close>

definition decode_field :: "u32 \<Rightarrow> slice \<Rightarrow> version_edit \<Rightarrow> string option \<times> version_edit \<times> slice" where
  "decode_field t inp e =
     (if t = kTagComparator then
        (case get_length_prefixed_slice inp of
           (Some str, rest) \<Rightarrow> (None, e\<lparr>comparator_str := slice_to_string str, has_comparator := True\<rparr>, rest)
         | (None, rest) \<Rightarrow> (Some ''comparator name'', e, rest))
      else if t = kTagLogNumber then
        decode_number (\<lambda>v e. e\<lparr>log_number := v, has_log_number := True\<rparr>) ''log number'' inp e
      else if t = kTagPrevLogNumber then
        decode_number (\<lambda>v e. e\<lparr>prev_log_number := v, has_prev_log_number := True\<rparr>) ''previous log number'' inp e
      else if t = kTagNextFileNumber then
        decode_number (\<lambda>v e. e\<lparr>next_file_number := v, has_next_file_number := True\<rparr>) ''next file number'' inp e
      else if t = kTagLastSequence then
        decode_number (\<lambda>v e. e\<lparr>last_sequence := v, has_last_sequence := True\<rparr>) ''last sequence number'' inp e
      else if t = kTagCompactPointer then
        (case get_level inp of
           (None, r1) \<Rightarrow> (Some ''deleted file'', e, r1)
         | (Some level, r1) \<Rightarrow>
             decode_number (\<lambda>v e. e\<lparr>deleted_files := insert (level, v) (deleted_files e)\<rparr>) ''deleted file'' r1 e)
      else if t = kTagNewFile then decode_new_file inp e
      else (Some ''unknown tag'', e, inp))"

lemma get_level_shrinks: "get_level inp = (r, rest) \<Longrightarrow> length rest \<le> length inp"
  by (auto simp: get_level_def split: option.splits if_splits dest: get_varint_shrinks)

lemma get_internal_key_shrinks: "get_internal_key inp = (r, rest) \<Longrightarrow> length rest \<le> length inp"
  by (auto simp: get_internal_key_def split: option.splits prod.splits dest: get_length_prefixed_shrinks)

lemma decode_number_shrinks: "decode_number f m inp e = (r, e', rest) \<Longrightarrow> length rest \<le> length inp"
  by (auto simp: decode_number_def split: option.splits dest: get_varint_shrinks)

lemma decode_new_file_shrinks: "decode_new_file inp e = (r, e', rest) \<Longrightarrow> length rest \<le> length inp"
  by (fastforce simp: decode_new_file_def split: option.splits prod.splits
      dest: get_level_shrinks get_varint_shrinks get_internal_key_shrinks)

lemma decode_field_shrinks: "decode_field t inp e = (r, e', rest) \<Longrightarrow> length rest \<le> length inp"
  by (fastforce simp: decode_field_def split: option.splits prod.splits if_splits
      dest: get_level_shrinks get_length_prefixed_shrinks decode_number_shrinks decode_new_file_shrinks)

function decode_loop :: "slice \<Rightarrow> version_edit \<Rightarrow> string option \<times> version_edit \<times> slice" where
  "decode_loop inp e =
     (case get_varint32 inp of
        None \<Rightarrow> (None, e, inp)
      | Some (t, rest) \<Rightarrow>
          (case decode_field t rest e of
             (None, e', rest') \<Rightarrow> decode_loop rest' e'
           | (Some msg, e', rest') \<Rightarrow> (Some msg, e', rest')))"
  by pat_completeness auto
termination
proof (relation "measure (\<lambda>(inp, e). length inp)", goal_cases)
  case (2 inp e x t rest y z e' rest')
  then have "get_varint32 inp = Some (t, rest)" "decode_field t rest e = (None, e', rest')" by auto
  then have "length rest < length inp" "length rest' \<le> length rest"
    using get_varint_shrinks(1) decode_field_shrinks by blast+
  then show ?case by simp
qed simp

declare decode_loop.simps [simp del]

definition ve_decode_from :: "slice \<Rightarrow> version_edit \<Rightarrow> status \<times> version_edit" where
  "ve_decode_from src e =
     (case decode_loop src (ve_clear e) of
        (msg, e', inp) \<Rightarrow>
          let msg' = (if msg = None \<and> \<not> slice_empty inp then Some ''invalid tag'' else msg)
          in case msg' of
               Some m \<Rightarrow> (corruption (cstr ''version_edit'') (cstr m), e')
             | None \<Rightarrow> (Status_Ok, e'))"

section \<open>Round trip\<close>

text \<open>
  An edit that the serialisation covers: unset fields have their cleared value, there are no
  compaction pointers and no deleted files, and the new files are as \<open>add_file\<close> makes them.
\<close>

definition key_fits :: "internal_key \<Rightarrow> bool" where
  "key_fits k \<longleftrightarrow> k \<noteq> [] \<and> length k < 2 ^ 32"

definition file_fits :: "int \<times> file_meta_data \<Rightarrow> bool" where
  "file_fits lf \<longleftrightarrow> 0 \<le> fst lf \<and> fst lf < int kNumLevels \<and> refs (snd lf) = 0
     \<and> allowed_seeks (snd lf) = 2 ^ 30 \<and> key_fits (smallest (snd lf)) \<and> key_fits (largest (snd lf))"

definition plain_edit :: "version_edit \<Rightarrow> bool" where
  "plain_edit e \<longleftrightarrow>
     (\<not> has_comparator e \<longrightarrow> comparator_str e = []) \<and> length (comparator_str e) < 2 ^ 32
     \<and> (\<not> has_log_number e \<longrightarrow> log_number e = 0)
     \<and> (\<not> has_prev_log_number e \<longrightarrow> prev_log_number e = 0)
     \<and> (\<not> has_next_file_number e \<longrightarrow> next_file_number e = 0)
     \<and> (\<not> has_last_sequence e \<longrightarrow> last_sequence e = 0)
     \<and> compact_pointers e = [] \<and> deleted_files e = {} \<and> list_all file_fits (new_files e)"

lemma decode_loop_Nil [simp]: "decode_loop [] e = (None, e, [])"
  by (subst decode_loop.simps) (simp add: get_varint32_def get_varint32ptr_fallback_def)

lemma decode_loop_field:
  "decode_loop (encode_varint32 t @ rest) e =
     (case decode_field t rest e of
        (None, e', rest') \<Rightarrow> decode_loop rest' e'
      | (Some msg, e', rest') \<Rightarrow> (Some msg, e', rest'))"
  by (subst decode_loop.simps) simp

lemma get_level_encode:
  assumes "0 \<le> level" "level < int kNumLevels"
  shows "get_level (encode_varint32 (word_of_int level) @ rest) = (Some level, rest)"
proof -
  have "level \<in> {0, 1, 2, 3, 4, 5, 6}" using assms by (auto simp: kNumLevels_def)
  then have "(word_of_int level :: u32) < of_nat kNumLevels" "sint (word_of_int level :: u32) = level"
    by (auto simp: kNumLevels_def)
  then show ?thesis by (simp add: get_level_def)
qed

lemma put_len_bytes:
  "put_length_prefixed_slice dst s = dst @ put_length_prefixed_slice [] s"
  by (rule put_length_prefixed_append)

lemma get_internal_key_put:
  "key_fits k \<Longrightarrow> get_internal_key (put_length_prefixed_slice [] k @ rest) = (Some k, rest)"
  by (simp add: get_internal_key_def get_put_length_prefixed internal_key_decode_from_def key_fits_def)

definition comparator_bytes :: "version_edit \<Rightarrow> bytes" where
  "comparator_bytes e = (if has_comparator e
     then encode_varint32 kTagComparator @ put_length_prefixed_slice [] (comparator_str e) else [])"

definition flagged_bytes :: "bool \<Rightarrow> u32 \<Rightarrow> u64 \<Rightarrow> bytes" where
  "flagged_bytes has t v = (if has then encode_varint32 t @ encode_varint64 v else [])"

definition new_file_bytes :: "int \<times> file_meta_data \<Rightarrow> bytes" where
  "new_file_bytes lf = encode_varint32 kTagNewFile @ encode_varint32 (word_of_int (fst lf))
     @ encode_varint64 (fnumber (snd lf)) @ encode_varint64 (file_size (snd lf))
     @ put_length_prefixed_slice [] (smallest (snd lf)) @ put_length_prefixed_slice [] (largest (snd lf))"

lemma put_new_files_bytes:
  "list_all file_fits fs \<Longrightarrow> put_new_files fs dst = Some (dst @ concat (map new_file_bytes fs))"
proof (induction fs arbitrary: dst)
  case (Cons lf fs)
  obtain l f where "lf = (l, f)" by force
  with Cons show ?case
    by (simp add: file_fits_def key_fits_def internal_key_encode_def new_file_bytes_def
        put_varint32_def put_varint64_def put_len_bytes[of "_ @ _"] Let_def)
qed simp

lemma encode_plain:
  assumes "plain_edit e"
  shows "ve_encode_to e [] = Some (comparator_bytes e
     @ flagged_bytes (has_log_number e) kTagLogNumber (log_number e)
     @ flagged_bytes (has_prev_log_number e) kTagPrevLogNumber (prev_log_number e)
     @ flagged_bytes (has_next_file_number e) kTagNextFileNumber (next_file_number e)
     @ flagged_bytes (has_last_sequence e) kTagLastSequence (last_sequence e)
     @ concat (map new_file_bytes (new_files e)))"
proof -
  have "put_flagged h t v dst = dst @ flagged_bytes h t v" for h t v dst
    by (simp add: put_flagged_def flagged_bytes_def put_varint32_def put_varint64_def)
  moreover have "(if has_comparator e
      then put_length_prefixed_slice (put_varint32 [] kTagComparator) (comparator_str e) else []) = comparator_bytes e"
    by (simp add: comparator_bytes_def put_varint32_def put_len_bytes[of "encode_varint32 _"])
  ultimately show ?thesis using assms
    by (simp add: ve_encode_to_def plain_edit_def put_new_files_bytes Let_def)
qed

lemma decode_new_file_bytes:
  assumes "file_fits lf"
  shows "decode_loop (new_file_bytes lf @ rest) e = decode_loop rest (e\<lparr>new_files := new_files e @ [lf]\<rparr>)"
proof -
  obtain l f where lf: "lf = (l, f)" by force
  have "file_meta_data_ctor\<lparr>fnumber := fnumber f, file_size := file_size f, smallest := smallest f, largest := largest f\<rparr> = f"
    using assms lf by (simp add: file_meta_data_ctor_def file_fits_def)
  then show ?thesis using assms lf
    by (simp add: new_file_bytes_def decode_loop_field decode_field_def tag_defs decode_new_file_def
        file_fits_def get_level_encode get_internal_key_put)
qed

lemma decode_new_files_bytes:
  "list_all file_fits fs \<Longrightarrow>
   decode_loop (concat (map new_file_bytes fs)) e = (None, e\<lparr>new_files := new_files e @ fs\<rparr>, [])"
  by (induction fs arbitrary: e) (simp_all add: decode_new_file_bytes)

lemma decode_flagged:
  "decode_loop (flagged_bytes h kTagLogNumber v @ rest) e =
     decode_loop rest (if h then e\<lparr>log_number := v, has_log_number := True\<rparr> else e)"
  "decode_loop (flagged_bytes h kTagPrevLogNumber v @ rest) e =
     decode_loop rest (if h then e\<lparr>prev_log_number := v, has_prev_log_number := True\<rparr> else e)"
  "decode_loop (flagged_bytes h kTagNextFileNumber v @ rest) e =
     decode_loop rest (if h then e\<lparr>next_file_number := v, has_next_file_number := True\<rparr> else e)"
  "decode_loop (flagged_bytes h kTagLastSequence v @ rest) e =
     decode_loop rest (if h then e\<lparr>last_sequence := v, has_last_sequence := True\<rparr> else e)"
  by (simp_all add: flagged_bytes_def decode_loop_field decode_field_def decode_number_def tag_defs)

lemma decode_comparator:
  "length (comparator_str e) < 2 ^ 32 \<Longrightarrow> decode_loop (comparator_bytes e @ rest) e0 =
     decode_loop rest (if has_comparator e then e0\<lparr>comparator_str := comparator_str e, has_comparator := True\<rparr> else e0)"
  by (simp add: comparator_bytes_def decode_loop_field decode_field_def tag_defs get_put_length_prefixed slice_to_string_def)

lemma decode_plain:
  assumes "plain_edit e"
  shows "\<exists>bs. ve_encode_to e [] = Some bs \<and> ve_decode_from bs e0 = (Status_Ok, e)"
proof -
  let ?bs = "comparator_bytes e
     @ flagged_bytes (has_log_number e) kTagLogNumber (log_number e)
     @ flagged_bytes (has_prev_log_number e) kTagPrevLogNumber (prev_log_number e)
     @ flagged_bytes (has_next_file_number e) kTagNextFileNumber (next_file_number e)
     @ flagged_bytes (has_last_sequence e) kTagLastSequence (last_sequence e)
     @ concat (map new_file_bytes (new_files e))"
  have "decode_loop ?bs (ve_clear e0) = (None, e, [])"
    using assms unfolding plain_edit_def
    by (cases e) (simp add: decode_comparator decode_flagged decode_new_files_bytes ve_clear_def)
  with encode_plain[OF assms] show ?thesis by (simp add: ve_decode_from_def slice_empty_def slice_size_def)
qed

section \<open>Compaction pointers\<close>

lemma decode_field_effect:
  "decode_field t inp e = (r, e', rest) \<Longrightarrow>
   compact_pointers e' = compact_pointers e \<and> deleted_files e \<subseteq> deleted_files e'"
  by (auto simp: decode_field_def decode_number_def decode_new_file_def
      split: option.splits prod.splits if_splits)

text \<open>What every field keeps, the loop keeps.\<close>

lemma decode_loop_keeps:
  assumes "\<And>t inp e r e' rest. decode_field t inp e = (r, e', rest) \<Longrightarrow> P e \<Longrightarrow> P e'"
  shows "decode_loop inp e = (r, e', rest) \<Longrightarrow> P e \<Longrightarrow> P e'"
proof (induction inp e rule: decode_loop.induct)
  case (1 inp e)
  show ?case
  proof (cases "get_varint32 inp")
    case None
    with "1.prems" show ?thesis by (subst (asm) decode_loop.simps) simp
  next
    case (Some x)
    obtain t q where x: "x = (t, q)" by force
    obtain m e1 q1 where f: "decode_field t q e = (m, e1, q1)" using prod_cases3 by blast
    have P1: "P e1" by (rule assms[OF f "1.prems"(2)])
    show ?thesis
    proof (cases m)
      case None
      have "decode_loop q1 e1 = (r, e', rest)"
        using "1.prems"(1) Some x f None by (subst (asm) decode_loop.simps) simp
      with "1.IH" Some x f None P1 show ?thesis by fastforce
    next
      case (Some y)
      with "1.prems"(1) \<open>get_varint32 inp = Some x\<close> x f P1 show ?thesis
        by (subst (asm) decode_loop.simps) auto
    qed
  qed
qed

lemma decode_loop_effect:
  assumes "decode_loop inp e = (r, e', rest)"
  shows "compact_pointers e' = compact_pointers e \<and> deleted_files e \<subseteq> deleted_files e'"
  by (rule decode_loop_keeps[OF _ assms, where P = "\<lambda>e'. compact_pointers e' = compact_pointers e \<and> deleted_files e \<subseteq> deleted_files e'"])
    (use decode_field_effect in fastforce, simp)

lemma decode_compact_pointer:
  assumes "0 \<le> level" "level < int kNumLevels" "key_fits key"
    and "ve_decode_from (encode_varint32 kTagCompactPointer @ encode_varint32 (word_of_int level)
       @ put_length_prefixed_slice [] key) e0 = (s, e)"
  shows "compact_pointers e = [] \<and> (level, of_nat (length key)) \<in> deleted_files e"
proof -
  let ?n = "word_of_nat (length key) :: u32"
  have n: "unat ?n = length key" using assms(3)
    by (simp add: key_fits_def unat_of_nat take_bit_nat_eq_self)
  then have "(ucast ?n :: u64) = of_nat (length key)"
    using assms(3) by (intro word_unat_eq_iff[THEN iffD2])
      (simp add: key_fits_def unat_of_nat take_bit_nat_eq_self)
  then have v: "get_varint64 (put_length_prefixed_slice [] key @ r) = Some (of_nat (length key), key @ r)" for r
    by (simp add: put_length_prefixed_slice_def put_varint32_def slice_size_def encode_varint32_eq_loop)
  obtain m e1 q where d: "decode_loop key (ve_clear e0\<lparr>deleted_files := {(level, of_nat (length key))}\<rparr>) = (m, e1, q)"
    using prod_cases3 by blast
  have "decode_loop (encode_varint32 kTagCompactPointer @ encode_varint32 (word_of_int level)
       @ put_length_prefixed_slice [] key) (ve_clear e0) = (m, e1, q)"
    using v[of "[]"] d get_level_encode[OF assms(1,2)]
    by (simp add: decode_loop_field decode_field_def tag_defs decode_number_def ve_clear_def)
  then have "e = e1" using assms(4) by (auto simp: ve_decode_from_def Let_def split: option.splits if_splits)
  with decode_loop_effect[OF d] show ?thesis by (auto simp: ve_clear_def)
qed

section \<open>Properties\<close>

text \<open>
  C4. Version edits survive serialisation: every edit without compaction pointers and deleted
  files is encoded without error, and decoding the bytes, into whatever edit, gives it back.
\<close>

theorem version_edit_roundtrip:
  assumes "plain_edit e"
  shows "\<exists>bs. ve_encode_to e [] = Some bs \<and> ve_decode_from bs e0 = (Status_Ok, e)"
  by (rule decode_plain[OF assms])

definition sample_edit :: version_edit where
  "sample_edit = add_file 2 12 4096 (put_fixed64 (cstr ''a'') 0x101) (put_fixed64 (cstr ''z'') 0x201)
     (set_last_sequence 77 (set_log_number 9 (set_comparator_name (cstr ''bytewise'') version_edit_ctor)))"

theorem version_edit_roundtrip_witness:
  "\<exists>bs. ve_encode_to sample_edit [] = Some bs \<and> ve_decode_from bs version_edit_ctor = (Status_Ok, sample_edit)"
  by (rule version_edit_roundtrip)
    (simp add: sample_edit_def plain_edit_def add_file_def set_last_sequence_def set_log_number_def
      set_comparator_name_def version_edit_ctor_def ve_clear_def file_fits_def key_fits_def kNumLevels_def
      file_meta_data_ctor_def put_fixed64_def slice_to_string_def)

text \<open>
  C39. Deletions and compaction pointers do not survive: deleted files are not written at all, and
  a compaction pointer is read back as the deletion of the file whose number is the length of its
  key, with no pointer left.
\<close>

theorem compact_pointer_becomes_deletion:
  assumes "0 \<le> level" and "level < int kNumLevels" and "key_fits key"
  shows "ve_encode_to (e\<lparr>deleted_files := d\<rparr>) dst = ve_encode_to e dst
    \<and> (\<exists>bs. ve_encode_to (set_compact_pointer level key version_edit_ctor) [] = Some bs
        \<and> compact_pointers (snd (ve_decode_from bs e0)) = []
        \<and> (level, of_nat (length key)) \<in> deleted_files (snd (ve_decode_from bs e0)))"
proof -
  let ?bs = "encode_varint32 kTagCompactPointer @ encode_varint32 (word_of_int level) @ put_length_prefixed_slice [] key"
  have "ve_encode_to (set_compact_pointer level key version_edit_ctor) [] = Some ?bs"
    using assms(3)
    by (simp add: ve_encode_to_def set_compact_pointer_def version_edit_ctor_def ve_clear_def put_flagged_def
        internal_key_encode_def key_fits_def put_varint32_def put_len_bytes[of "_ @ _"] slice_to_string_def)
  moreover have "ve_encode_to (e\<lparr>deleted_files := d\<rparr>) dst = ve_encode_to e dst" by (simp add: ve_encode_to_def)
  moreover obtain s e' where "ve_decode_from ?bs e0 = (s, e')" by force
  ultimately show ?thesis using decode_compact_pointer[OF assms] by auto
qed

theorem compact_pointer_becomes_deletion_witness:
  "ve_encode_to (sample_edit\<lparr>deleted_files := {(1, 5)}\<rparr>) [] = ve_encode_to sample_edit []
    \<and> (\<exists>bs. ve_encode_to (set_compact_pointer 3 (put_fixed64 (cstr ''k'') 0x101) version_edit_ctor) [] = Some bs
        \<and> compact_pointers (snd (ve_decode_from bs sample_edit)) = []
        \<and> (3, of_nat (length (put_fixed64 (cstr ''k'') 0x101))) \<in> deleted_files (snd (ve_decode_from bs sample_edit)))"
  by (rule compact_pointer_becomes_deletion) (simp_all add: kNumLevels_def key_fits_def put_fixed64_def)

end
