(* ===== verification/Linked_Ring.thy ===== *)
theory Linked_Ring
  imports Prelude
begin

text \<open>
  Pointer structures: the circular doubly linked list around a sentinel, which the versions of
  \<open>version_set.cc\<close> and the two lists of \<open>cache.cc\<close> share, and the null-terminated chain of a hash
  bucket.  \<open>nx\<close> and \<open>pv\<close> read the links of the node at an address.
\<close>

section \<open>Doubly linked lists\<close>

fun path :: "(nat \<Rightarrow> nat option) \<Rightarrow> (nat \<Rightarrow> nat option) \<Rightarrow> nat list \<Rightarrow> bool" where
  "path nx pv (a # b # zs) \<longleftrightarrow> nx a = Some b \<and> pv b = Some a \<and> path nx pv (b # zs)"
| "path nx pv _ \<longleftrightarrow> True"

lemma path_append: "path nx pv (xs @ a # ys) \<longleftrightarrow> path nx pv (xs @ [a]) \<and> path nx pv (a # ys)"
proof (induction xs)
  case Nil
  show ?case by simp
next
  case (Cons x xs)
  then show ?case by (cases xs) auto
qed

lemma path_other:
  assumes "path nx pv xs" and "\<And>a. a \<in> set (butlast xs) \<Longrightarrow> nx' a = nx a" and "\<And>a. a \<in> set (tl xs) \<Longrightarrow> pv' a = pv a"
  shows "path nx' pv' xs"
  using assms by (induction nx pv xs rule: path.induct) auto

definition ring :: "nat \<Rightarrow> (nat \<Rightarrow> nat option) \<Rightarrow> (nat \<Rightarrow> nat option) \<Rightarrow> nat list \<Rightarrow> bool" where
  "ring s nx pv xs \<longleftrightarrow> path nx pv (s # xs @ [s]) \<and> distinct (s # xs)"

lemma last_split: "\<exists>us. s # xs = us @ [last (s # xs)]"
  by (metis append_butlast_last_id list.distinct(1))

lemma hd_split: "\<exists>vs. zs @ [s] = hd (zs @ [s]) # vs"
  by (cases zs) auto

lemma ring_ends:
  assumes "ring s nx pv xs"
  shows "nx s = Some (hd (xs @ [s])) \<and> pv s = Some (last (s # xs))"
proof -
  obtain us where us: "s # xs = us @ [last (s # xs)]" using last_split[of s xs] by blast
  have "path nx pv ((s # xs) @ [s])" using assms by (simp add: ring_def)
  then have "path nx pv (us @ last (s # xs) # [s])" by (subst (asm) us) simp
  then have "pv s = Some (last (s # xs))" by (subst (asm) path_append) (simp del: last.simps)
  moreover have "nx s = Some (hd (xs @ [s]))" using assms by (cases xs) (auto simp: ring_def)
  ultimately show ?thesis by simp
qed

lemma ring_append:
  assumes "ring s nx pv xs" and "a \<notin> set (s # xs)" and "l = last (s # xs)"
  shows "ring s (nx(a := Some s, l := Some a)) (pv(a := Some l, s := Some a)) (xs @ [a])"
proof -
  obtain us where us: "s # xs = us @ [l]" using last_split[of s xs] assms(3) by blast
  have "distinct (s # xs)" using assms by (simp add: ring_def)
  then have "distinct (us @ [l])" by (simp only: us)
  moreover have "a \<notin> set (us @ [l])" using assms(2) by (simp only: us) simp
  ultimately have d: "l \<notin> set us" "a \<notin> set us" "a \<noteq> l" "a \<notin> set xs" "s \<notin> set xs" "a \<noteq> s"
    using assms(1,2) by (auto simp: ring_def)
  have tl: "tl (us @ [l]) = xs" unfolding us[symmetric] by (rule list.sel(3))
  let ?nx = "nx(a := Some s, l := Some a)" and ?pv = "pv(a := Some l, s := Some a)"
  have "path nx pv ((s # xs) @ [s])" using assms by (simp add: ring_def)
  then have "path nx pv (us @ [l])" by (subst (asm) us) (simp add: path_append[of nx pv us l "[s]"])
  then have "path ?nx ?pv (us @ [l])"
    by (rule path_other, unfold tl butlast_snoc) (use d in auto)
  then have "path ?nx ?pv (us @ l # [a, s])"
    using d by (simp add: path_append[of _ _ us l "[a, s]"])
  then have "path ?nx ?pv ((s # xs) @ [a, s])" by (simp add: us)
  then show ?thesis using assms(1,2) by (auto simp: ring_def)
qed

lemma ring_cong:
  assumes "ring s nx pv xs" and "\<And>a. a \<in> set (s # xs) \<Longrightarrow> nx' a = nx a" and "\<And>a. a \<in> set (s # xs) \<Longrightarrow> pv' a = pv a"
  shows "ring s nx' pv' xs"
proof -
  have "path nx pv (s # xs @ [s])" "distinct (s # xs)" using assms(1) by (simp_all add: ring_def)
  moreover have "path nx' pv' (s # xs @ [s])"
    by (rule path_other[OF calculation(1)]) (use assms(2,3) in \<open>auto dest: in_set_butlastD\<close>)
  ultimately show ?thesis by (simp add: ring_def)
qed

text \<open>Unlinking a node; the node itself keeps its links.\<close>

lemma ring_unlink:
  assumes "ring s nx pv (ys @ c # zs)" and "p = last (s # ys)" and "n = hd (zs @ [s])"
  shows "nx c = Some n \<and> pv c = Some p \<and> p \<noteq> c \<and> n \<noteq> c
    \<and> ring s (nx(p := Some n)) (pv(n := Some p)) (ys @ zs)"
proof -
  obtain us where us: "s # ys = us @ [p]" using last_split[of s ys] assms(2) by blast
  obtain vs where vs: "zs @ [s] = n # vs" using hd_split[of zs s] assms(3) by blast
  have "path nx pv ((s # ys) @ c # (zs @ [s]))" using assms by (simp add: ring_def)
  then have p: "path nx pv (us @ p # c # n # vs)" by (simp only: us vs append.assoc append_Cons append_Nil)
  have b: "butlast (n # vs) = zs" "tl (us @ [p]) = ys"
    unfolding us[symmetric] vs[symmetric] by (rule butlast_snoc, rule list.sel(3))
  have pin: "p \<in> set (s # ys)" and nin: "n \<in> set (zs @ [s])" by (simp_all only: us vs) simp_all
  have dist: "distinct (s # ys @ c # zs)" using assms(1) by (simp add: ring_def)
  have ds: "distinct (s # ys)" "distinct (zs @ [s])" using dist by auto
  then have d: "distinct (us @ [p])" "distinct (n # vs)" by (simp_all only: us vs)
  have "c \<notin> set (s # ys)" "c \<notin> set (zs @ [s])" using dist by auto
  then have c: "c \<notin> set (us @ [p])" "c \<notin> set (n # vs)" by (simp_all only: us vs) simp_all
  have o: "n \<notin> set ys" "p \<notin> set zs" using dist pin nin by auto
  let ?nx = "nx(p := Some n)" and ?pv = "pv(n := Some p)"
  have left: "path nx pv (us @ [p])" and right: "path nx pv (n # vs)" and at: "nx c = Some n \<and> pv c = Some p"
    using p by (simp_all add: path_append[of nx pv us p "c # n # vs"])
  have "path ?nx ?pv (us @ [p])"
    by (rule path_other[OF left], unfold b butlast_snoc) (use d(1) c(1) o in auto)
  moreover have "path ?nx ?pv (n # vs)"
    by (rule path_other[OF right], unfold b list.sel) (use d(2) c(2) o in auto)
  ultimately have "path ?nx ?pv (us @ p # n # vs)"
    using c by (simp add: path_append[of _ _ us p "n # vs"])
  then have "path ?nx ?pv ((s # ys) @ (zs @ [s]))" by (simp only: us vs append.assoc append_Cons append_Nil)
  then show ?thesis using at c dist by (auto simp: ring_def)
qed


lemma ring_remove:
  assumes "ring s nx pv (ys @ c # zs)" and "p = last (s # ys)" and "n = hd (zs @ [s])"
  shows "nx c = Some n \<and> pv c = Some p \<and> p \<noteq> c \<and> n \<noteq> c
    \<and> ring s (nx(p := Some n, c := None)) (pv(n := Some p, c := None)) (ys @ zs)"
proof -
  have u: "nx c = Some n" "pv c = Some p" "p \<noteq> c" "n \<noteq> c"
    and r: "ring s (nx(p := Some n)) (pv(n := Some p)) (ys @ zs)" using ring_unlink[OF assms] by blast+
  have c: "c \<notin> set (s # ys @ zs)" using assms(1) by (auto simp: ring_def)
  have "ring s (nx(p := Some n, c := None)) (pv(n := Some p, c := None)) (ys @ zs)"
    by (rule ring_cong[OF r]) (use c in auto)
  then show ?thesis using u by blast
qed

section \<open>Chains\<close>

text \<open>The nodes \<open>as\<close> lie between the pointers \<open>p\<close> and \<open>q\<close>; a chain ends with a null pointer.\<close>

fun seg :: "(nat \<Rightarrow> nat option) \<Rightarrow> nat option \<Rightarrow> nat list \<Rightarrow> nat option \<Rightarrow> bool" where
  "seg nx p [] q \<longleftrightarrow> p = q"
| "seg nx p (a # as) q \<longleftrightarrow> p = Some a \<and> seg nx (nx a) as q"

lemma seg_append: "seg nx p (as @ bs) q \<longleftrightarrow> (\<exists>r. seg nx p as r \<and> seg nx r bs q)"
  by (induction as arbitrary: p) auto

lemma seg_cong: "seg nx p as q \<Longrightarrow> (\<And>a. a \<in> set as \<Longrightarrow> nx' a = nx a) \<Longrightarrow> seg nx' p as q"
  by (induction as arbitrary: p) auto

lemma seg_None: "seg nx None as None \<Longrightarrow> as = []"
  by (cases as) auto

text \<open>Storing a pointer in the last node of a segment.\<close>

lemma seg_redirect:
  assumes "seg nx p (as @ [a]) q" and "a \<notin> set as"
  shows "seg (nx(a := q')) p (as @ [a]) q'"
proof -
  obtain r where r: "seg nx p as r" "r = Some a" using assms(1) by (auto simp: seg_append)
  have "seg (nx(a := q')) p as r" by (rule seg_cong[OF r(1)]) (use assms(2) in auto)
  then show ?thesis using r(2) by (auto simp: seg_append)
qed

lemma ring_seg: "ring s nx pv xs \<Longrightarrow> seg nx (nx s) xs (Some s)"
proof -
  have "path nx pv (a # xs @ [s]) \<Longrightarrow> seg nx (nx a) xs (Some s)" for a
    by (induction xs arbitrary: a) auto
  then show "ring s nx pv xs \<Longrightarrow> seg nx (nx s) xs (Some s)" by (simp add: ring_def)
qed

end
