(* ===== verification/Handle_Table.thy ===== *)
theory Handle_Table
  imports Slice "HOL-Library.While_Combinator"
begin

text \<open>
  The hash table of \<open>src/leveldb/cache.cc\<close>.  Entries live in a heap, a map from addresses to
  entries; a freed entry is not in it, and touching one is \<open>None\<close>.  A bucket is the list of the
  addresses of its \<open>next_hash\<close> chain.  The counters are natural numbers: the 32 bits of the code
  would need four billion entries to wrap.
\<close>

record 'v lru_handle =
  h_value :: 'v
  h_charge :: nat
  h_key :: bytes
  h_in_cache :: bool
  h_refs :: nat
  h_hash :: u32

type_synonym 'v heap = "nat \<Rightarrow> 'v lru_handle option"

record handle_table =
  ht_length :: nat
  ht_elems :: nat
  ht_list :: "nat list list"

section \<open>Operations\<close>

definition bucket :: "u32 \<Rightarrow> nat \<Rightarrow> nat" where
  "bucket hash len = unat hash AND (len - 1)"

text \<open>\<open>find_pointer\<close>: the position in the chain of the match, or of the trailing slot.\<close>

fun find_pointer :: "'v heap \<Rightarrow> slice \<Rightarrow> u32 \<Rightarrow> nat list \<Rightarrow> nat option" where
  "find_pointer m key hash [] = Some 0"
| "find_pointer m key hash (a # chain) =
     (case m a of
        None \<Rightarrow> None
      | Some e \<Rightarrow>
          if h_hash e \<noteq> hash \<or> slice_ne key (h_key e)
          then map_option Suc (find_pointer m key hash chain)
          else Some 0)"

definition slot :: "nat list \<Rightarrow> nat \<Rightarrow> nat option" where
  "slot chain p = (if p < length chain then Some (chain ! p) else None)"

definition table_look_up :: "'v heap \<Rightarrow> handle_table \<Rightarrow> slice \<Rightarrow> u32 \<Rightarrow> nat option option" where
  "table_look_up m t key hash =
     (let chain = ht_list t ! bucket hash (ht_length t)
      in map_option (slot chain) (find_pointer m key hash chain))"

definition new_length :: "nat \<Rightarrow> nat" where
  "new_length elems = while (\<lambda>n. n < elems) (\<lambda>n. n * 2) 4"

text \<open>The two nested loops visit the entries bucket by bucket; each goes to the front of its new chain.\<close>

fun rehash :: "'v heap \<Rightarrow> nat \<Rightarrow> nat list list \<Rightarrow> nat list \<Rightarrow> nat list list option" where
  "rehash m len new_list [] = Some new_list"
| "rehash m len new_list (a # as) =
     (case m a of
        None \<Rightarrow> None
      | Some e \<Rightarrow>
          let i = bucket (h_hash e) len
          in rehash m len (new_list[i := a # new_list ! i]) as)"

definition table_resize :: "'v heap \<Rightarrow> handle_table \<Rightarrow> handle_table option" where
  "table_resize m t =
     (let len = new_length (ht_elems t); as = concat (ht_list t)
      in case rehash m len (replicate len []) as of
           None \<Rightarrow> None
         | Some new_list \<Rightarrow>
             if ht_elems t = length as then Some (t\<lparr>ht_list := new_list, ht_length := len\<rparr>) else None)"

definition table_ctor :: "'v heap \<Rightarrow> handle_table option" where
  "table_ctor m = table_resize m \<lparr>ht_length = 0, ht_elems = 0, ht_list = []\<rparr>"

definition table_insert :: "'v heap \<Rightarrow> handle_table \<Rightarrow> nat \<Rightarrow> (nat option \<times> handle_table) option" where
  "table_insert m t h =
     (case m h of
        None \<Rightarrow> None
      | Some e \<Rightarrow>
          let i = bucket (h_hash e) (ht_length t); chain = ht_list t ! i
          in case find_pointer m (h_key e) (h_hash e) chain of
               None \<Rightarrow> None
             | Some p \<Rightarrow>
                 let old = slot chain p;
                     t1 = t\<lparr>ht_list := (ht_list t)[i := take p chain @ [h] @ drop (Suc p) chain]\<rparr>
                 in if old = None then
                      let t2 = t1\<lparr>ht_elems := ht_elems t1 + 1\<rparr>
                      in if ht_length t2 < ht_elems t2
                         then map_option (Pair old) (table_resize m t2)
                         else Some (old, t2)
                    else Some (old, t1))"

definition table_remove :: "'v heap \<Rightarrow> handle_table \<Rightarrow> slice \<Rightarrow> u32 \<Rightarrow> (nat option \<times> handle_table) option" where
  "table_remove m t key hash =
     (let i = bucket hash (ht_length t); chain = ht_list t ! i
      in case find_pointer m key hash chain of
           None \<Rightarrow> None
         | Some p \<Rightarrow>
             let result = slot chain p
             in if result \<noteq> None
                then Some (result, t\<lparr>ht_list := (ht_list t)[i := take p chain @ drop (Suc p) chain],
                                     ht_elems := ht_elems t - 1\<rparr>)
                else Some (result, t))"

section \<open>The contract of a keyed table\<close>

text \<open>
  \<open>handles\<close> is the set of entries in the table and \<open>ident\<close> the key an entry is found by.  No two
  entries have the same key; an insertion replaces the entry with the same key.
\<close>

definition found_in :: "('a \<Rightarrow> 'k option) \<Rightarrow> 'a set \<Rightarrow> 'k \<Rightarrow> 'a option \<Rightarrow> bool" where
  "found_in ident hs k r \<longleftrightarrow> (case r of
       None \<Rightarrow> \<forall>a \<in> hs. ident a \<noteq> Some k
     | Some a \<Rightarrow> a \<in> hs \<and> ident a = Some k)"

locale keyed_table =
  fixes inv :: "'m \<Rightarrow> 't \<Rightarrow> bool" and ident :: "'m \<Rightarrow> 'a \<Rightarrow> 'k option" and handles :: "'t \<Rightarrow> 'a set"
    and look :: "'m \<Rightarrow> 't \<Rightarrow> 'k \<Rightarrow> 'a option option"
    and ins :: "'m \<Rightarrow> 't \<Rightarrow> 'a \<Rightarrow> ('a option \<times> 't) option"
    and rem :: "'m \<Rightarrow> 't \<Rightarrow> 'k \<Rightarrow> ('a option \<times> 't) option"
  assumes unique: "inv m t \<Longrightarrow> a \<in> handles t \<Longrightarrow> b \<in> handles t \<Longrightarrow> ident m a = ident m b \<Longrightarrow> a = b"
    and look_found: "inv m t \<Longrightarrow> \<exists>r. look m t k = Some r \<and> found_in (ident m) (handles t) k r"
    and ins_found: "inv m t \<Longrightarrow> a \<notin> handles t \<Longrightarrow> ident m a = Some k \<Longrightarrow>
      \<exists>old t'. ins m t a = Some (old, t') \<and> found_in (ident m) (handles t) k old \<and> inv m t'
        \<and> handles t' = insert a (handles t - set_option old)"
    and rem_found: "inv m t \<Longrightarrow>
      \<exists>old t'. rem m t k = Some (old, t') \<and> found_in (ident m) (handles t) k old \<and> inv m t'
        \<and> handles t' = handles t - set_option old"
begin

lemma found_unique:
  "inv m t \<Longrightarrow> found_in (ident m) (handles t) k r \<Longrightarrow> found_in (ident m) (handles t) k s \<Longrightarrow> r = s"
  by (auto simp: found_in_def split: option.splits dest: unique)

lemma look_insert:
  assumes "inv m t" "a \<notin> handles t" "ident m a = Some j" "ins m t a = Some (old, t')"
    "look m t k = Some r"
  shows "look m t' k = Some (if k = j then Some a else r)"
proof -
  obtain r' where r': "look m t' k = Some r'" "found_in (ident m) (handles t') k r'"
    and t': "inv m t'" "handles t' = insert a (handles t - set_option old)"
    and old: "found_in (ident m) (handles t) j old"
    using ins_found[OF assms(1-3)] assms(4) look_found by fastforce
  have r: "found_in (ident m) (handles t) k r" using look_found[OF assms(1), of k] assms(5) by auto
  have "found_in (ident m) (handles t') k (if k = j then Some a else r)"
    using r old assms(3) unfolding t'(2) by (auto simp: found_in_def split: option.splits if_splits)
  with found_unique[OF t'(1) r'(2)] r'(1) show ?thesis by simp
qed

lemma look_remove:
  assumes "inv m t" "rem m t j = Some (old, t')" "look m t k = Some r"
  shows "look m t' k = Some (if k = j then None else r)"
proof -
  obtain r' where r': "look m t' k = Some r'" "found_in (ident m) (handles t') k r'"
    and t': "inv m t'" "handles t' = handles t - set_option old"
    and old: "found_in (ident m) (handles t) j old"
    using rem_found[OF assms(1), of j] assms(2) look_found by fastforce
  have r: "found_in (ident m) (handles t) k r" using look_found[OF assms(1), of k] assms(3) by auto
  have "found_in (ident m) (handles t') k (if k = j then None else r)"
    using r old unique[OF assms(1)] unfolding t'(2)
    by (fastforce simp: found_in_def split: option.splits if_splits)
  with found_unique[OF t'(1) r'(2)] r'(1) show ?thesis by simp
qed

end

section \<open>The hash table keeps the contract\<close>

definition key_of :: "'v heap \<Rightarrow> nat \<Rightarrow> (u32 \<times> slice) option" where
  "key_of m a = map_option (\<lambda>e. (h_hash e, h_key e)) (m a)"

definition table_handles :: "handle_table \<Rightarrow> nat set" where
  "table_handles t = set (concat (ht_list t))"

definition placed :: "'v heap \<Rightarrow> nat \<Rightarrow> nat list list \<Rightarrow> bool" where
  "placed m len l \<longleftrightarrow> length l = len \<and> (\<exists>k. len = 2 ^ k)
     \<and> (\<forall>i < len. \<forall>a \<in> set (l ! i). \<exists>e. m a = Some e \<and> bucket (h_hash e) len = i)
     \<and> distinct (map (key_of m) (concat l))"

definition table_inv :: "'v heap \<Rightarrow> handle_table \<Rightarrow> bool" where
  "table_inv m t \<longleftrightarrow> placed m (ht_length t) (ht_list t) \<and> ht_elems t = length (concat (ht_list t))"

lemma bucket_less: "len = 2 ^ k \<Longrightarrow> bucket h len < len"
  using take_bit_nat_less_exp[of k "unat h"]
  by (simp add: bucket_def take_bit_eq_mask mask_eq_exp_minus_1)

lemma key_of_Some: "m a = Some e \<Longrightarrow> key_of m a = Some (h_hash e, h_key e)"
  by (simp add: key_of_def)

lemma find_pointer_found:
  assumes "\<forall>a \<in> set chain. m a \<noteq> None"
  shows "\<exists>p. find_pointer m key hash chain = Some p \<and> p \<le> length chain \<and>
    (p < length chain \<longrightarrow> key_of m (chain ! p) = Some (hash, key)) \<and>
    (p = length chain \<longrightarrow> (\<forall>a \<in> set chain. key_of m a \<noteq> Some (hash, key)))"
  using assms
proof (induction chain)
  case (Cons a chain)
  then obtain e where e: "m a = Some e" by auto
  from Cons obtain p where p: "find_pointer m key hash chain = Some p" "p \<le> length chain"
    "p < length chain \<longrightarrow> key_of m (chain ! p) = Some (hash, key)"
    "p = length chain \<longrightarrow> (\<forall>a \<in> set chain. key_of m a \<noteq> Some (hash, key))" by auto
  show ?case
  proof (cases "h_hash e \<noteq> hash \<or> key \<noteq> h_key e")
    case True
    with e p show ?thesis by (auto simp: slice_ne_def key_of_Some)
  next
    case False
    with e show ?thesis by (auto simp: slice_ne_def key_of_Some)
  qed
qed simp

lemma set_concat_nth: "set (concat l) = (\<Union>i < length l. set (l ! i))"
  by (auto simp: set_conv_nth [of l])

text \<open>The only chain that can hold a key is the one of its bucket.\<close>

lemma placed_elsewhere:
  assumes "placed m len l" "a \<in> set (concat l)" "key_of m a = Some (hash, key)"
  shows "a \<in> set (l ! bucket hash len)"
  using assms unfolding placed_def set_concat_nth by (fastforce simp: key_of_def)

lemma chain_search:
  fixes hash key
  assumes "placed m len l"
  defines "chain \<equiv> l ! bucket hash len"
  shows "\<exists>p. find_pointer m key hash chain = Some p \<and> p \<le> length chain \<and>
    found_in (key_of m) (set (concat l)) (hash, key) (slot chain p)"
proof -
  have i: "bucket hash len < length l" using assms(1) bucket_less by (auto simp: placed_def)
  then have sub: "set chain \<subseteq> set (concat l)" unfolding chain_def set_concat_nth by auto
  have "\<forall>a \<in> set chain. m a \<noteq> None"
    using assms(1) i unfolding placed_def chain_def by fastforce
  from find_pointer_found[OF this, of key hash] obtain p where
    p: "find_pointer m key hash chain = Some p" "p \<le> length chain"
    "p < length chain \<longrightarrow> key_of m (chain ! p) = Some (hash, key)"
    "p = length chain \<longrightarrow> (\<forall>a \<in> set chain. key_of m a \<noteq> Some (hash, key))" by blast
  have "found_in (key_of m) (set (concat l)) (hash, key) (slot chain p)"
  proof (cases "p < length chain")
    case True
    then have "chain ! p \<in> set (concat l)" using sub nth_mem by blast
    with True p show ?thesis by (simp add: slot_def found_in_def)
  next
    case False
    then have "p = length chain" using p(2) by simp
    then have "\<forall>a \<in> set (concat l). key_of m a \<noteq> Some (hash, key)"
      using p(4) placed_elsewhere[OF assms(1), of _ hash key] unfolding chain_def by blast
    with False show ?thesis by (simp add: slot_def found_in_def)
  qed
  with p show ?thesis by blast
qed

lemma concat_update:
  assumes "i < length l" "l ! i = c1 @ xs @ c2"
  obtains A B where "concat l = A @ xs @ B" "\<And>ys. concat (l[i := c1 @ ys @ c2]) = A @ ys @ B"
proof
  have upd: "concat (l[i := c]) = concat (take i l) @ c @ concat (drop (Suc i) l)" for c
    using assms(1) by (simp add: upd_conv_take_nth_drop)
  then show "concat (l[i := c1 @ ys @ c2]) = (concat (take i l) @ c1) @ ys @ (c2 @ concat (drop (Suc i) l))" for ys
    by simp
  have "l[i := l ! i] = l" by simp
  then show "concat l = (concat (take i l) @ c1) @ xs @ (c2 @ concat (drop (Suc i) l))"
    using upd[of "l ! i"] assms(2) by simp
qed

lemma placed_update:
  assumes "placed m len l" "i < len" "\<forall>a \<in> set c. \<exists>e. m a = Some e \<and> bucket (h_hash e) len = i"
    "distinct (map (key_of m) (concat (l[i := c])))"
  shows "placed m len (l[i := c])"
  using assms by (auto simp: placed_def nth_list_update)

lemma placed_chain:
  "placed m len l \<Longrightarrow> i < len \<Longrightarrow> \<forall>a \<in> set (l ! i). \<exists>e. m a = Some e \<and> bucket (h_hash e) len = i"
  by (simp add: placed_def)

lemma rehash_placed:
  assumes "placed m len l" "\<forall>a \<in> set as. m a \<noteq> None" "distinct (map (key_of m) (concat l @ as))"
  shows "\<exists>l'. rehash m len l as = Some l' \<and> placed m len l' \<and> set (concat l') = set (concat l) \<union> set as
    \<and> length (concat l') = length (concat l) + length as"
  using assms
proof (induction as arbitrary: l)
  case (Cons a as)
  then obtain e where e: "m a = Some e" by auto
  let ?i = "bucket (h_hash e) len" and ?c = "l ! bucket (h_hash e) len"
  have i: "?i < len" "?i < length l" using Cons.prems(1) bucket_less by (auto simp: placed_def)
  obtain A B where AB: "concat l = A @ B" "\<And>ys. concat (l[?i := ys @ ?c]) = A @ ys @ B"
    by (rule concat_update[of ?i l "[]" "[]" ?c]) (use i in auto)
  have "placed m len (l[?i := a # ?c])"
    using Cons.prems(3) AB(1) AB(2)[of "[a]"] placed_chain[OF Cons.prems(1) i(1)] e
    by (intro placed_update[OF Cons.prems(1) i(1)]) (auto simp: distinct_map)
  moreover have "distinct (map (key_of m) (concat (l[?i := a # ?c]) @ as))"
    using Cons.prems(3) AB(1) AB(2)[of "[a]"] by auto
  ultimately obtain l' where "rehash m len (l[?i := a # ?c]) as = Some l'" "placed m len l'"
    "set (concat l') = set (concat (l[?i := a # ?c])) \<union> set as"
    "length (concat l') = length (concat (l[?i := a # ?c])) + length as"
    using Cons.IH[of "l[?i := a # ?c]"] Cons.prems(2) by auto
  with e AB(1) AB(2)[of "[a]"] show ?case by (auto simp: Let_def)
qed simp

lemma new_length_pow: "\<exists>k. new_length n = 2 ^ k"
  unfolding new_length_def
proof (rule while_rule[where P = "\<lambda>v. 0 < v \<and> (\<exists>k. v = 2 ^ k)" and r = "measure (\<lambda>v. n - v)"])
  show "0 < (4 :: nat) \<and> (\<exists>k. (4 :: nat) = 2 ^ k)" by (auto intro: exI[of _ 2])
next
  fix v :: nat assume "0 < v \<and> (\<exists>k. v = 2 ^ k)" "v < n"
  then show "0 < v * 2 \<and> (\<exists>k. v * 2 = 2 ^ k)" by (auto intro: exI[of _ "Suc _"])
next
  fix v :: nat assume "0 < v \<and> (\<exists>k. v = 2 ^ k)" "v < n"
  then show "(v * 2, v) \<in> measure (\<lambda>v. n - v)" using diff_less_mono2[of v "v * 2" n] by simp
qed auto

lemma placed_empty: "placed m (new_length n) (replicate (new_length n) [])"
  using new_length_pow[of n] by (auto simp: placed_def)

lemma resize_inv:
  assumes "\<forall>a \<in> set (concat (ht_list t)). m a \<noteq> None" "distinct (map (key_of m) (concat (ht_list t)))"
    "ht_elems t = length (concat (ht_list t))"
  shows "\<exists>t'. table_resize m t = Some t' \<and> table_inv m t' \<and> table_handles t' = table_handles t"
proof -
  let ?n = "new_length (ht_elems t)"
  obtain l' where "rehash m ?n (replicate ?n []) (concat (ht_list t)) = Some l'" "placed m ?n l'"
    "set (concat l') = set (concat (ht_list t))" "length (concat l') = length (concat (ht_list t))"
    using rehash_placed[OF placed_empty, of "concat (ht_list t)" m "ht_elems t"] assms(1,2) by auto
  with assms(3) show ?thesis by (simp add: table_resize_def Let_def table_inv_def table_handles_def)
qed

lemma table_ctor_inv: "\<exists>t. table_ctor m = Some t \<and> table_inv m t \<and> table_handles t = {}"
  using resize_inv[of "\<lparr>ht_length = 0, ht_elems = 0, ht_list = []\<rparr>" m]
  by (simp add: table_ctor_def table_handles_def)

lemma table_look_up_inv:
  "table_inv m t \<Longrightarrow> \<exists>r. table_look_up m t key hash = Some r
    \<and> found_in (key_of m) (table_handles t) (hash, key) r"
  using chain_search[of m "ht_length t" "ht_list t" key hash]
  by (auto simp: table_inv_def table_look_up_def Let_def table_handles_def)

lemma found_slot_split:
  "slot chain p = Some a \<Longrightarrow> chain = take p chain @ [a] @ drop (Suc p) chain"
  by (auto simp: slot_def id_take_nth_drop[symmetric] split: if_splits)

lemma table_insert_inv:
  assumes inv: "table_inv m t" and a: "a \<notin> table_handles t" and k: "key_of m a = Some (hash, key)"
  shows "\<exists>old t'. table_insert m t a = Some (old, t') \<and> found_in (key_of m) (table_handles t) (hash, key) old
    \<and> table_inv m t' \<and> table_handles t' = insert a (table_handles t - set_option old)"
proof -
  obtain e where e: "m a = Some e" "h_hash e = hash" "h_key e = key" using k by (auto simp: key_of_def)
  let ?len = "ht_length t" and ?l = "ht_list t"
  let ?i = "bucket hash ?len" and ?c = "?l ! bucket hash ?len"
  have pl: "placed m ?len ?l" and el: "ht_elems t = length (concat ?l)" using inv by (auto simp: table_inv_def)
  obtain p where p: "find_pointer m key hash ?c = Some p" "p \<le> length ?c"
    "found_in (key_of m) (table_handles t) (hash, key) (slot ?c p)"
    using chain_search[OF pl, of key hash] by (auto simp: table_handles_def)
  have i: "?i < ?len" "?i < length ?l" using pl bucket_less by (auto simp: placed_def)
  let ?c' = "take p ?c @ [a] @ drop (Suc p) ?c"
  let ?t1 = "t\<lparr>ht_list := ?l[?i := ?c']\<rparr>"
  have chain': "\<forall>b \<in> set ?c'. \<exists>e. m b = Some e \<and> bucket (h_hash e) ?len = ?i"
    using placed_chain[OF pl i(1)] e by (auto dest: in_set_takeD in_set_dropD)
  show ?thesis
  proof (cases "slot ?c p")
    case (Some old)
    obtain A B where AB: "concat ?l = A @ [old] @ B" "\<And>ys. concat (?l[?i := take p ?c @ ys @ drop (Suc p) ?c]) = A @ ys @ B"
      by (rule concat_update[OF i(2) found_slot_split[OF Some]]) (rule that)
    have old: "key_of m old = Some (hash, key)" using p(3) Some by (simp add: found_in_def)
    have d: "distinct (map (key_of m) (A @ [old] @ B))" using pl AB(1) unfolding placed_def by simp
    have "placed m ?len (?l[?i := ?c'])"
      by (rule placed_update[OF pl i(1) chain']) (use d AB(2)[of "[a]"] old k in simp)
    moreover have "old \<notin> set A \<union> set B" using d by auto
    ultimately show ?thesis
      using e p Some AB(1) AB(2)[of "[a]"] el a
      by (auto simp: table_insert_def Let_def table_inv_def table_handles_def simp del: set_concat)
  next
    case None
    then have pe: "p = length ?c" using p(2) by (simp add: slot_def split: if_splits)
    obtain A B where AB: "concat ?l = A @ B" "\<And>ys. concat (?l[?i := ?c @ ys]) = A @ ys @ B"
      by (rule concat_update[OF i(2), of ?c "[]" "[]"]) auto
    have fresh: "\<forall>b \<in> set A \<union> set B. key_of m b \<noteq> Some (hash, key)"
      using p(3) None AB(1) by (auto simp: found_in_def table_handles_def)
    have d: "distinct (map (key_of m) (concat (?l[?i := ?c'])))"
      using pl AB(1) AB(2)[of "[a]"] fresh k pe unfolding placed_def by auto
    let ?t2 = "?t1\<lparr>ht_elems := ht_elems ?t1 + 1\<rparr>"
    have pl2: "placed m ?len (?l[?i := ?c'])" by (rule placed_update[OF pl i(1) chain' d])
    have t2: "table_inv m ?t2" "table_handles ?t2 = insert a (table_handles t)"
      using pl2 el AB(1) AB(2)[of "[a]"] pe by (auto simp: table_inv_def table_handles_def)
    have alloc: "\<forall>b \<in> set (concat (ht_list ?t2)). m b \<noteq> None"
      using pl2 unfolding placed_def set_concat_nth by fastforce
    obtain t3 where t3: "table_resize m ?t2 = Some t3" "table_inv m t3" "table_handles t3 = table_handles ?t2"
      using resize_inv[OF alloc] d t2(1) by (auto simp: table_inv_def)
    have run: "table_insert m t a = (if ?len < ht_elems t + 1 then map_option (Pair None) (table_resize m ?t2)
        else Some (None, ?t2))"
      using e p(1) None by (simp add: table_insert_def Let_def)
    show ?thesis using run p(3) None t2 t3 by (cases "?len < ht_elems t + 1") auto
  qed
qed

lemma table_remove_inv:
  assumes inv: "table_inv m t"
  shows "\<exists>old t'. table_remove m t key hash = Some (old, t') \<and> found_in (key_of m) (table_handles t) (hash, key) old
    \<and> table_inv m t' \<and> table_handles t' = table_handles t - set_option old"
proof -
  let ?len = "ht_length t" and ?l = "ht_list t"
  let ?i = "bucket hash ?len" and ?c = "?l ! bucket hash ?len"
  have pl: "placed m ?len ?l" and el: "ht_elems t = length (concat ?l)" using inv by (auto simp: table_inv_def)
  obtain p where p: "find_pointer m key hash ?c = Some p" "p \<le> length ?c"
    "found_in (key_of m) (table_handles t) (hash, key) (slot ?c p)"
    using chain_search[OF pl, of key hash] by (auto simp: table_handles_def)
  have i: "?i < ?len" "?i < length ?l" using pl bucket_less by (auto simp: placed_def)
  show ?thesis
  proof (cases "slot ?c p")
    case None
    with p inv show ?thesis by (auto simp: table_remove_def Let_def)
  next
    case (Some old)
    let ?c' = "take p ?c @ drop (Suc p) ?c"
    obtain A B where AB: "concat ?l = A @ [old] @ B" "\<And>ys. concat (?l[?i := take p ?c @ ys @ drop (Suc p) ?c]) = A @ ys @ B"
      by (rule concat_update[OF i(2) found_slot_split[OF Some]]) (rule that)
    have d: "distinct (map (key_of m) (A @ [old] @ B))" using pl AB(1) unfolding placed_def by simp
    have "\<forall>b \<in> set ?c'. \<exists>e. m b = Some e \<and> bucket (h_hash e) ?len = ?i"
      using placed_chain[OF pl i(1)] by (auto dest: in_set_takeD in_set_dropD)
    then have "placed m ?len (?l[?i := ?c'])"
      by (rule placed_update[OF pl i(1)]) (use d AB(2)[of "[]"] in simp)
    moreover have "old \<notin> set A \<union> set B" using d by auto
    ultimately show ?thesis
      using p Some AB(1) AB(2)[of "[]"] el
      by (auto simp: table_remove_def Let_def table_inv_def table_handles_def simp del: set_concat)
  qed
qed

interpretation hash_table: keyed_table table_inv key_of table_handles
  "\<lambda>m t (hash, key). table_look_up m t key hash" table_insert "\<lambda>m t (hash, key). table_remove m t key hash"
proof (unfold_locales, goal_cases)
  case (1 m t a b)
  then show ?case by (auto simp: table_inv_def placed_def table_handles_def distinct_map inj_on_def)
next
  case (2 m t k)
  then show ?case using table_look_up_inv by (cases k) auto
next
  case (3 m t a k)
  then show ?case using table_insert_inv by (cases k) auto
next
  case (4 m t k)
  then show ?case using table_remove_inv by (cases k) auto
qed

end
