(* ===== verification/Handle_Chains.thy ===== *)
theory Handle_Chains
  imports Handle_Table Linked_Ring "HOL-Library.Multiset"
begin

text \<open>
  The hash table of \<open>src/leveldb/cache.cc\<close> with its pointers: an array of buckets that point to the
  first entry of a chain, and the chains threaded through the entries by \<open>next_hash\<close>.  It implements
  the table of \<open>Handle_Table\<close>, whose buckets are lists.  A null pointer is \<open>None\<close>; touching a freed
  entry, indexing outside the array and a failed assertion make an operation \<open>None\<close>.
\<close>

record 'v lru_entry = "'v lru_handle" +
  e_next_hash :: "nat option"
  e_next :: "nat option"
  e_prev :: "nat option"

type_synonym 'v entries = "nat \<Rightarrow> 'v lru_entry option"

record chain_table =
  ct_length :: nat
  ct_elems :: nat
  ct_list :: "nat option list"

text \<open>\<open>key()\<close> asserts that the entry is not the head of an empty list.\<close>

definition entry_key :: "'v entries \<Rightarrow> nat \<Rightarrow> slice option" where
  "entry_key h a = Option.bind (h a) (\<lambda>e. if e_next e = Some a then None else Some (h_key e))"

section \<open>Slots\<close>

text \<open>What a \<open>lru_handle**\<close> points to: an element of the array, or the \<open>next_hash\<close> of an entry.\<close>

datatype slot_ptr = Bucket_Slot nat | Next_Hash nat

fun read_slot :: "'v entries \<Rightarrow> nat option list \<Rightarrow> slot_ptr \<Rightarrow> nat option option" where
  "read_slot h l (Bucket_Slot i) = (if i < length l then Some (l ! i) else None)"
| "read_slot h l (Next_Hash a) = map_option e_next_hash (h a)"

fun write_slot :: "slot_ptr \<Rightarrow> nat option \<Rightarrow> 'v entries \<Rightarrow> nat option list \<Rightarrow> ('v entries \<times> nat option list) option" where
  "write_slot (Bucket_Slot i) v h l = (if i < length l then Some (h, l[i := v]) else None)"
| "write_slot (Next_Hash a) v h l = map_option (\<lambda>e. (h(a \<mapsto> e\<lparr>e_next_hash := v\<rparr>), l)) (h a)"

text \<open>\<open>find_pointer\<close>; the hashes are compared first.\<close>

partial_function (option) slot_search ::
  "'v entries \<Rightarrow> nat option list \<Rightarrow> slice \<Rightarrow> u32 \<Rightarrow> slot_ptr \<Rightarrow> slot_ptr option" where
  "slot_search h l key hash ptr =
     Option.bind (read_slot h l ptr) (\<lambda>target.
       case target of
         None \<Rightarrow> Some ptr
       | Some a \<Rightarrow>
           Option.bind (h a) (\<lambda>e.
             if h_hash e \<noteq> hash then slot_search h l key hash (Next_Hash a)
             else Option.bind (entry_key h a) (\<lambda>k.
               if slice_ne key k then slot_search h l key hash (Next_Hash a) else Some ptr)))"

definition find_slot :: "'v entries \<Rightarrow> chain_table \<Rightarrow> slice \<Rightarrow> u32 \<Rightarrow> slot_ptr option" where
  "find_slot h t key hash = slot_search h (ct_list t) key hash (Bucket_Slot (bucket hash (ct_length t)))"

section \<open>Operations\<close>

definition chain_look_up :: "'v entries \<Rightarrow> chain_table \<Rightarrow> slice \<Rightarrow> u32 \<Rightarrow> nat option option" where
  "chain_look_up h t key hash = Option.bind (find_slot h t key hash) (read_slot h (ct_list t))"

text \<open>The inner loop of \<open>resize\<close> moves a chain to the new array, the outer loop all of them.\<close>

partial_function (option) move_chain ::
  "nat \<Rightarrow> 'v entries \<Rightarrow> nat option list \<Rightarrow> nat option \<Rightarrow> nat \<Rightarrow> ('v entries \<times> nat option list \<times> nat) option" where
  "move_chain len h new_list p cnt =
     (case p of
        None \<Rightarrow> Some (h, new_list, cnt)
      | Some a \<Rightarrow>
          Option.bind (h a) (\<lambda>e.
            let i = bucket (h_hash e) len
            in if i < length new_list
               then move_chain len (h(a \<mapsto> e\<lparr>e_next_hash := new_list ! i\<rparr>)) (new_list[i := Some a]) (e_next_hash e) (cnt + 1)
               else None))"

fun move_chains ::
  "nat \<Rightarrow> 'v entries \<Rightarrow> nat option list \<Rightarrow> nat option list \<Rightarrow> nat \<Rightarrow> ('v entries \<times> nat option list \<times> nat) option" where
  "move_chains len h new_list [] cnt = Some (h, new_list, cnt)"
| "move_chains len h new_list (p # ps) cnt =
     Option.bind (move_chain len h new_list p cnt) (\<lambda>(h1, new_list1, cnt1). move_chains len h1 new_list1 ps cnt1)"

definition chain_resize :: "'v entries \<Rightarrow> chain_table \<Rightarrow> ('v entries \<times> chain_table) option" where
  "chain_resize h t =
     (let len = new_length (ct_elems t)
      in Option.bind (move_chains len h (replicate len None) (ct_list t) 0) (\<lambda>(h1, new_list, cnt).
           if ct_elems t = cnt then Some (h1, t\<lparr>ct_list := new_list, ct_length := len\<rparr>) else None))"

definition chain_ctor :: "'v entries \<Rightarrow> ('v entries \<times> chain_table) option" where
  "chain_ctor h = chain_resize h \<lparr>ct_length = 0, ct_elems = 0, ct_list = []\<rparr>"

definition chain_insert :: "'v entries \<Rightarrow> chain_table \<Rightarrow> nat \<Rightarrow> (nat option \<times> 'v entries \<times> chain_table) option" where
  "chain_insert h t a =
     Option.bind (h a) (\<lambda>e.
     Option.bind (entry_key h a) (\<lambda>key.
     Option.bind (find_slot h t key (h_hash e)) (\<lambda>ptr.
     Option.bind (read_slot h (ct_list t) ptr) (\<lambda>old.
     Option.bind (case old of None \<Rightarrow> Some None | Some b \<Rightarrow> map_option e_next_hash (h b)) (\<lambda>next.
     Option.bind (write_slot ptr (Some a) (h(a \<mapsto> e\<lparr>e_next_hash := next\<rparr>)) (ct_list t)) (\<lambda>(h1, l).
       let t1 = t\<lparr>ct_list := l\<rparr>
       in if old = None then
            let t2 = t1\<lparr>ct_elems := ct_elems t1 + 1\<rparr>
            in if ct_length t2 < ct_elems t2 then map_option (Pair old) (chain_resize h1 t2) else Some (old, h1, t2)
          else Some (old, h1, t1)))))))"

definition chain_remove :: "'v entries \<Rightarrow> chain_table \<Rightarrow> slice \<Rightarrow> u32 \<Rightarrow> (nat option \<times> 'v entries \<times> chain_table) option" where
  "chain_remove h t key hash =
     Option.bind (find_slot h t key hash) (\<lambda>ptr.
     Option.bind (read_slot h (ct_list t) ptr) (\<lambda>result.
       case result of
         None \<Rightarrow> Some (result, h, t)
       | Some a \<Rightarrow>
           Option.bind (h a) (\<lambda>e.
           Option.bind (write_slot ptr (e_next_hash e) h (ct_list t)) (\<lambda>(h1, l).
             Some (result, h1, t\<lparr>ct_list := l, ct_elems := ct_elems t - 1\<rparr>)))))"

section \<open>Views of the entries\<close>

definition nhash :: "'v entries \<Rightarrow> nat \<Rightarrow> nat option" where
  "nhash h a = Option.bind (h a) e_next_hash"

definition nxt :: "'v entries \<Rightarrow> nat \<Rightarrow> nat option" where
  "nxt h a = Option.bind (h a) e_next"

definition prv :: "'v entries \<Rightarrow> nat \<Rightarrow> nat option" where
  "prv h a = Option.bind (h a) e_prev"

definition plain :: "'v entries \<Rightarrow> 'v heap" where
  "plain h a = map_option lru_handle.truncate (h a)"

lemma truncate_simps [simp]:
  "h_value (lru_handle.truncate e) = h_value e" "h_charge (lru_handle.truncate e) = h_charge e"
  "h_key (lru_handle.truncate e) = h_key e" "h_in_cache (lru_handle.truncate e) = h_in_cache e"
  "h_refs (lru_handle.truncate e) = h_refs e" "h_hash (lru_handle.truncate e) = h_hash e"
  by (simp_all add: lru_handle.truncate_def)

text \<open>A change of a chain link; it changes nothing else.\<close>

definition rechained :: "'v entries \<Rightarrow> 'v entries \<Rightarrow> bool" where
  "rechained h h' \<longleftrightarrow> plain h' = plain h \<and> nxt h' = nxt h \<and> prv h' = prv h"

lemma rechained_refl [simp]: "rechained h h"
  by (simp add: rechained_def)

lemma rechained_trans: "rechained h h1 \<Longrightarrow> rechained h1 h2 \<Longrightarrow> rechained h h2"
  by (simp add: rechained_def)

lemma set_nhash:
  assumes "h a = Some e"
  shows "nhash (h(a \<mapsto> e\<lparr>e_next_hash := v\<rparr>)) = (nhash h)(a := v)" "rechained h (h(a \<mapsto> e\<lparr>e_next_hash := v\<rparr>))"
  using assms by (auto simp: nhash_def rechained_def plain_def nxt_def prv_def lru_handle.truncate_def fun_eq_iff)

text \<open>The entries that the list model has in its heap are there, and none is the head of an empty list.\<close>

definition entries_for :: "'v entries \<Rightarrow> 'v heap \<Rightarrow> bool" where
  "entries_for h m \<longleftrightarrow> (\<forall>a. m a \<noteq> None \<longrightarrow> plain h a = m a \<and> nxt h a \<noteq> Some a)"

lemma entries_forD:
  assumes "entries_for h m" "m a = Some x"
  obtains e where "h a = Some e" "lru_handle.truncate e = x" "entry_key h a = Some (h_key x)" "h_hash e = h_hash x"
    "nhash h a = e_next_hash e"
proof -
  have "plain h a = Some x" "nxt h a \<noteq> Some a" using assms by (auto simp: entries_for_def)
  then obtain e where "h a = Some e" "lru_handle.truncate e = x" "e_next e \<noteq> Some a"
    by (auto simp: plain_def nxt_def)
  then show thesis by (intro that) (auto simp: entry_key_def nhash_def)
qed

lemma entries_for_rechained: "rechained h h' \<Longrightarrow> entries_for h m \<Longrightarrow> entries_for h' m"
  by (simp add: rechained_def entries_for_def)

section \<open>Searching a chain\<close>

definition slot_at :: "slot_ptr \<Rightarrow> nat list \<Rightarrow> nat \<Rightarrow> slot_ptr" where
  "slot_at ptr as n = (if n = 0 then ptr else Next_Hash (as ! (n - 1)))"

lemma slot_search_found:
  assumes "entries_for h m" "find_pointer m key hash as = Some n" "read_slot h l ptr = Some p" "seg (nhash h) p as None"
  shows "slot_search h l key hash ptr = Some (slot_at ptr as n) \<and> n \<le> length as
    \<and> read_slot h l (slot_at ptr as n) = Some (slot as n)"
  using assms(2-)
proof (induction as arbitrary: n ptr p)
  case Nil
  then show ?case by (auto simp: slot_at_def slot_def slot_search.simps)
next
  case (Cons a as)
  obtain x where x: "m a = Some x" using Cons.prems(1) by (auto split: option.splits)
  obtain e where e: "h a = Some e" "lru_handle.truncate e = x" "entry_key h a = Some (h_key x)" "h_hash e = h_hash x"
    "nhash h a = e_next_hash e" by (rule entries_forD[OF assms(1) x])
  have p: "p = Some a" "seg (nhash h) (e_next_hash e) as None" using Cons.prems(3) e by auto
  show ?case
  proof (cases "h_hash x \<noteq> hash \<or> slice_ne key (h_key x)")
    case True
    then obtain k where k: "find_pointer m key hash as = Some k" "n = Suc k" using Cons.prems(1) x by auto
    have "read_slot h l (Next_Hash a) = Some (e_next_hash e)" using e(1) by simp
    note ih = Cons.IH[OF k(1) this p(2)]
    have "slot_search h l key hash ptr = slot_search h l key hash (Next_Hash a)"
      using True Cons.prems(2) p(1) e by (subst slot_search.simps) auto
    moreover have "slot_at (Next_Hash a) as k = slot_at ptr (a # as) n" using k(2) by (cases k) (auto simp: slot_at_def)
    ultimately show ?thesis using ih k(2) by (simp add: slot_def)
  next
    case False
    then have "n = 0" using Cons.prems(1) x by simp
    moreover have "slot_search h l key hash ptr = Some ptr"
      using False Cons.prems(2) p(1) e by (subst slot_search.simps) auto
    ultimately show ?thesis using Cons.prems(2) p(1) by (simp add: slot_at_def slot_def)
  qed
qed

section \<open>The buckets\<close>

definition buckets :: "(nat \<Rightarrow> nat option) \<Rightarrow> nat option list \<Rightarrow> nat list list \<Rightarrow> bool" where
  "buckets nh l L \<longleftrightarrow> length l = length L \<and> (\<forall>i < length L. seg nh (l ! i) (L ! i) None) \<and> distinct (concat L)"

definition chained_table :: "'v entries \<Rightarrow> chain_table \<Rightarrow> handle_table \<Rightarrow> bool" where
  "chained_table h t T \<longleftrightarrow> ct_length t = ht_length T \<and> ct_elems t = ht_elems T \<and> buckets (nhash h) (ct_list t) (ht_list T)"

lemma nth_concat: "i < length L \<Longrightarrow> a \<in> set (L ! i) \<Longrightarrow> a \<in> set (concat L)"
  by (auto simp: set_concat_nth)

lemma distinct_bucket: "distinct (concat L) \<Longrightarrow> i < length L \<Longrightarrow> distinct (L ! i)"
  by (simp add: distinct_concat_iff)

lemma distinct_concat_nth:
  assumes "distinct (concat L)" "i < length L" "j < length L" "i \<noteq> j"
  shows "set (L ! i) \<inter> set (L ! j) = {}"
proof (rule ccontr)
  assume ne: "set (L ! i) \<inter> set (L ! j) \<noteq> {}"
  obtain A B where AB: "concat L = A @ L ! i @ B" "\<And>ys. concat (L[i := [] @ ys @ []]) = A @ ys @ B"
    by (rule concat_update[OF assms(2), of "[]" "L ! i" "[]"]) auto
  have "set (L ! j) \<subseteq> set (concat (L[i := []]))"
    using nth_concat[of j "L[i := []]"] assms(3,4) by (simp add: subset_iff del: set_concat)
  then have "set (L ! j) \<subseteq> set (A @ B)" using AB(2)[of "[]"] by (simp del: set_concat)
  then show False using ne assms(1) AB(1) by auto
qed

lemma bucketsD:
  assumes "buckets nh l L" "i < length L"
  shows "i < length l" "seg nh (l ! i) (L ! i) None" "distinct (L ! i)"
  using assms distinct_bucket[of L i] by (auto simp: buckets_def)

lemma buckets_cong: "buckets nh l L \<Longrightarrow> (\<And>a. a \<in> set (concat L) \<Longrightarrow> nh' a = nh a) \<Longrightarrow> buckets nh' l L"
  unfolding buckets_def by (meson nth_concat seg_cong)

lemma buckets_update:
  assumes "buckets nh l L" "i < length L" "seg nh' p c None" "distinct (concat (L[i := c]))"
    "\<And>a. a \<notin> set c \<Longrightarrow> a \<notin> set (L ! i) \<Longrightarrow> nh' a = nh a"
  shows "buckets nh' (l[i := p]) (L[i := c])"
  unfolding buckets_def
proof (intro conjI allI impI)
  fix j assume j: "j < length (L[i := c])"
  show "seg nh' (l[i := p] ! j) (L[i := c] ! j) None"
  proof (cases "j = i")
    case True
    then show ?thesis using assms(1-3) by (simp add: buckets_def)
  next
    case False
    have "set (L ! j) \<inter> set (L ! i) = {}"
      using distinct_concat_nth[of L j i] assms(1,2) False j by (simp add: buckets_def)
    moreover have "set (L ! j) \<inter> set c = {}"
      using distinct_concat_nth[OF assms(4), of j i] assms(2) False j by simp
    ultimately have "nh' a = nh a" if "a \<in> set (L ! j)" for a using assms(5)[of a] that by blast
    moreover have "seg nh (l ! j) (L ! j) None" using bucketsD(2)[OF assms(1), of j] j by simp
    ultimately have "seg nh' (l ! j) (L ! j) None" by (rule seg_cong[rotated])
    then show ?thesis using False by simp
  qed
qed (use assms in \<open>simp_all add: buckets_def\<close>)

text \<open>Replacing the entry in a slot, or taking it out.\<close>

lemma slot_split: "c = take n c @ take 1 (drop n c) @ drop (Suc n) c"
proof -
  have "drop n c = take 1 (drop n c) @ drop 1 (drop n c)" by (rule append_take_drop_id[symmetric])
  then show ?thesis by (metis One_nat_def append_take_drop_id drop_drop plus_1_eq_Suc)
qed

lemma distinct_slot:
  assumes "distinct (concat L)" "i < length L" "distinct ys" "set ys \<inter> set (concat L) = {}"
  shows "distinct (concat (L[i := take n (L ! i) @ ys @ drop (Suc n) (L ! i)]))"
proof -
  obtain A B where "concat L = A @ take 1 (drop n (L ! i)) @ B"
    "\<And>ys. concat (L[i := take n (L ! i) @ ys @ drop (Suc n) (L ! i)]) = A @ ys @ B"
    by (rule concat_update[OF assms(2) slot_split[of "L ! i" n]]) (rule that)
  then show ?thesis using assms(1,3,4) by auto
qed

lemma seg_slot:
  assumes "seg nh p c None" "slot c n = Some b"
  shows "seg nh (nh b) (drop (Suc n) c) None"
proof -
  have "seg nh p (take n c @ [b] @ drop (Suc n) c) None"
    using assms(1) found_slot_split[OF assms(2)] by simp
  then show ?thesis by (auto simp: seg_append)
qed

lemma slot_None: "n \<le> length c \<Longrightarrow> slot c n = None \<Longrightarrow> drop (Suc n) c = []"
  by (simp add: slot_def split: if_splits)

text \<open>Storing through the slot that a search returned.\<close>

lemma write_slot_chain:
  fixes L i n
  defines "c \<equiv> L ! i"
  assumes b: "buckets (nhash h) l L" and i: "i < length L" and n: "n \<le> length c"
    and alive: "\<forall>a \<in> set c. h a \<noteq> None"
    and bs: "seg (nhash h) v bs None" "distinct (concat (L[i := take n c @ bs]))"
  shows "\<exists>h' l'. write_slot (slot_at (Bucket_Slot i) c n) v h l = Some (h', l') \<and> rechained h h'
    \<and> buckets (nhash h') l' (L[i := take n c @ bs])"
proof (cases n)
  case 0
  have "buckets (nhash h) (l[i := v]) (L[i := bs])"
    by (rule buckets_update[OF b i bs(1)]) (use bs(2) 0 in auto)
  then show ?thesis using bucketsD(1)[OF b i] 0 by (simp add: slot_at_def)
next
  case (Suc k)
  define a where "a = c ! k"
  have t: "take n c = take k c @ [a]" and a: "a \<in> set c" using Suc n by (auto simp: a_def take_Suc_conv_app_nth)
  obtain e where e: "h a = Some e" using alive a by auto
  let ?h = "h(a \<mapsto> e\<lparr>e_next_hash := v\<rparr>)"
  have new: "distinct (take k c @ [a] @ bs)"
    using distinct_bucket[OF bs(2), of i] i unfolding t by simp
  have "seg (nhash h) (l ! i) (take n c @ drop n c) None" using bucketsD(2)[OF b i] by (simp add: c_def)
  then obtain r where "seg (nhash h) (l ! i) (take k c @ [a]) r" unfolding seg_append t by blast
  then have "seg ((nhash h)(a := v)) (l ! i) (take k c @ [a]) v" by (rule seg_redirect) (use new in auto)
  moreover have "seg ((nhash h)(a := v)) v bs None" by (rule seg_cong[OF bs(1)]) (use new in auto)
  ultimately have "seg (nhash ?h) (l ! i) (take n c @ bs) None"
    unfolding set_nhash(1)[of h, OF e] t by (subst seg_append) blast
  then have "buckets (nhash ?h) (l[i := l ! i]) (L[i := take n c @ bs])"
    by (rule buckets_update[OF b i _ bs(2)]) (use a set_nhash(1)[of h, OF e] in \<open>auto simp: c_def\<close>)
  then show ?thesis using e set_nhash(2)[of h, OF e] Suc by (simp add: slot_at_def a_def)
qed

section \<open>Rehashing\<close>

lemma rehash_append: "rehash m len L (as @ bs) = Option.bind (rehash m len L as) (\<lambda>L'. rehash m len L' bs)"
  by (induction as arbitrary: L) (auto simp: Let_def split: option.split)

lemma mset_push:
  assumes "i < length L"
  shows "mset (concat (L[i := a # L ! i])) = add_mset a (mset (concat L))"
proof -
  obtain A B where "concat L = A @ B" "\<And>ys. concat (L[i := ys @ L ! i]) = A @ ys @ B"
    by (rule concat_update[OF assms, of "[]" "[]" "L ! i"]) auto
  from this(1) this(2)[of "[a]"] show ?thesis by simp
qed

lemma move_chain_refines:
  assumes "entries_for h m" "\<forall>a \<in> set as. m a \<noteq> None" "seg (nhash h) p as None" "buckets (nhash h) l L"
    "distinct (concat L @ as)" "length L = 2 ^ k" "rehash m (length L) L as = Some L'"
  shows "\<exists>h' l'. move_chain (length L) h l p cnt = Some (h', l', cnt + length as) \<and> rechained h h'
    \<and> buckets (nhash h') l' L' \<and> (\<forall>a. a \<notin> set (concat L @ as) \<longrightarrow> nhash h' a = nhash h a)
    \<and> length L' = length L \<and> mset (concat L') = mset (concat L @ as)"
  using assms
proof (induction as arbitrary: h l p L cnt)
  case Nil
  then have "p = None" "L' = L" by simp_all
  with Nil show ?case by (subst move_chain.simps) simp
next
  case (Cons a as)
  obtain x where x: "m a = Some x" using Cons.prems(2) by auto
  obtain e where e: "h a = Some e" "lru_handle.truncate e = x" "entry_key h a = Some (h_key x)" "h_hash e = h_hash x"
    "nhash h a = e_next_hash e" by (rule entries_forD[OF Cons.prems(1) x])
  let ?n = "length L"
  define i where "i = bucket (h_hash x) ?n"
  let ?h = "h(a \<mapsto> e\<lparr>e_next_hash := l ! i\<rparr>)" and ?L = "L[i := a # L ! i]"
  have i: "i < length L" using bucket_less[OF Cons.prems(6)] by (simp add: i_def)
  note h = set_nhash[of h, OF e(1), of "l ! i"] and li = bucketsD[OF Cons.prems(4) i]
  have p: "p = Some a" "seg (nhash h) (e_next_hash e) as None" using Cons.prems(3) e(5) by auto
  have m: "mset (concat ?L) = add_mset a (mset (concat L))" by (rule mset_push[OF i])
  have "mset (concat ?L @ as) = mset (concat L @ a # as)" using m by simp
  then have d: "distinct (concat ?L @ as)" using Cons.prems(5) by (metis mset_eq_imp_distinct_iff)
  have S: "set (concat ?L) = insert a (set (concat L))" using arg_cong[OF m, of set_mset] by (simp del: set_concat)
  have a: "a \<notin> set as" "a \<notin> set (L ! i)" using Cons.prems(5) nth_concat[OF i, of a] by auto
  have "seg (nhash ?h) (l ! i) (L ! i) None" by (rule seg_cong[OF li(2)]) (use a h(1) in auto)
  then have "seg (nhash ?h) (Some a) (a # L ! i) None" by (simp add: h(1))
  then have b: "buckets (nhash ?h) (l[i := Some a]) ?L"
    by (rule buckets_update[OF Cons.prems(4) i]) (use d h(1) in auto)
  have s: "seg (nhash ?h) (e_next_hash e) as None" by (rule seg_cong[OF p(2)]) (use a h(1) in auto)
  have r: "rehash m (length ?L) ?L as = Some L'" using Cons.prems(7) x by (simp add: Let_def i_def)
  have len: "length ?L = 2 ^ k" and m_as: "\<forall>a \<in> set as. m a \<noteq> None" using Cons.prems(2,6) by simp_all
  obtain h' l' where *: "move_chain (length ?L) ?h (l[i := Some a]) (e_next_hash e) (cnt + 1) = Some (h', l', cnt + 1 + length as)"
    "rechained ?h h'" "buckets (nhash h') l' L'" "\<forall>b. b \<notin> set (concat ?L @ as) \<longrightarrow> nhash h' b = nhash ?h b"
    "length L' = length ?L" "mset (concat L') = mset (concat ?L @ as)"
    using Cons.IH[OF entries_for_rechained[OF h(2) Cons.prems(1)] m_as s b d len r, of "cnt + 1"] by blast
  have "move_chain ?n h l p cnt = Some (h', l', cnt + length (a # as))"
    using *(1) e(1,4) p(1) i li(1) by (subst move_chain.simps) (simp add: Let_def i_def)
  moreover have "nhash h' b = nhash h b" if "b \<notin> set (concat L @ a # as)" for b
    using *(4) that h(1) S by (simp del: set_concat)
  moreover have "mset (concat L') = mset (concat L @ a # as)" using *(6) m by simp
  ultimately show ?case using *(2,3,5) rechained_trans[OF h(2)] by fastforce
qed

lemma move_chains_refines:
  assumes "entries_for h m" "\<forall>a \<in> set (concat ass). m a \<noteq> None" "list_all2 (\<lambda>p as. seg (nhash h) p as None) ps ass"
    "buckets (nhash h) l L" "distinct (concat L @ concat ass)" "length L = 2 ^ k"
    "rehash m (length L) L (concat ass) = Some L'"
  shows "\<exists>h' l'. move_chains (length L) h l ps cnt = Some (h', l', cnt + length (concat ass)) \<and> rechained h h'
    \<and> buckets (nhash h') l' L'"
  using assms
proof (induction ass arbitrary: h l ps L cnt)
  case Nil
  then show ?case by simp
next
  case (Cons as ass)
  obtain p ps' where ps: "ps = p # ps'" "seg (nhash h) p as None" "list_all2 (\<lambda>p as. seg (nhash h) p as None) ps' ass"
    using Cons.prems(3) by (auto simp: list_all2_Cons2)
  obtain L1 where L1: "rehash m (length L) L as = Some L1" "rehash m (length L) L1 (concat ass) = Some L'"
    using Cons.prems(7) by (auto simp: rehash_append bind_eq_Some_conv)
  have "\<forall>a \<in> set as. m a \<noteq> None" "distinct (concat L @ as)" using Cons.prems(2,5) by auto
  then obtain h1 l1 where h1: "move_chain (length L) h l p cnt = Some (h1, l1, cnt + length as)" "rechained h h1"
    "buckets (nhash h1) l1 L1" "\<forall>a. a \<notin> set (concat L @ as) \<longrightarrow> nhash h1 a = nhash h a"
    "length L1 = length L" "mset (concat L1) = mset (concat L @ as)"
    using move_chain_refines[OF Cons.prems(1) _ ps(2) Cons.prems(4) _ Cons.prems(6) L1(1), of cnt] by blast
  have "mset (concat L1 @ concat ass) = mset (concat L @ concat (as # ass))" using h1(6) by simp
  then have d: "distinct (concat L1 @ concat ass)" using Cons.prems(5) by (metis mset_eq_imp_distinct_iff)
  have dis: "set (concat ass) \<inter> set (concat L @ as) = {}" using Cons.prems(5) by auto
  have "list_all2 (\<lambda>p as. seg (nhash h1) p as None) ps' ass"
  proof (rule list.rel_mono_strong[OF ps(3)])
    fix q bs assume q: "q \<in> set ps'" "bs \<in> set ass" "seg (nhash h) q bs None"
    have "set bs \<subseteq> set (concat ass)" using q(2) by auto
    then show "seg (nhash h1) q bs None" using dis h1(4) by (intro seg_cong[OF q(3)]) blast
  qed
  then obtain h' l' where "move_chains (length L1) h1 l1 ps' (cnt + length as) = Some (h', l', cnt + length as + length (concat ass))"
    "rechained h1 h'" "buckets (nhash h') l' L'"
    using Cons.IH[OF entries_for_rechained[OF h1(2) Cons.prems(1)] _ _ h1(3) d, of ps' "cnt + length as"] Cons.prems(2,6) L1(2) h1(5)
    by auto
  then show ?case using h1(1,5) rechained_trans[OF h1(2)] ps(1) by (auto simp: add.assoc)
qed

section \<open>The operations refine those on lists\<close>

lemma resize_refines:
  assumes "entries_for h m" "chained_table h t T" "\<forall>a \<in> set (concat (ht_list T)). m a \<noteq> None" "table_resize m T = Some T'"
  shows "\<exists>h' t'. chain_resize h t = Some (h', t') \<and> rechained h h' \<and> chained_table h' t' T'"
proof -
  let ?len = "new_length (ht_elems T)"
  obtain k where k: "?len = 2 ^ k" using new_length_pow by blast
  obtain L' where L': "rehash m ?len (replicate ?len []) (concat (ht_list T)) = Some L'"
    "ht_elems T = length (concat (ht_list T))" "T' = T\<lparr>ht_list := L', ht_length := ?len\<rparr>"
    using assms(4) by (auto simp: table_resize_def Let_def split: option.splits if_splits)
  have t: "ct_elems t = ht_elems T" "buckets (nhash h) (ct_list t) (ht_list T)" using assms(2) by (simp_all add: chained_table_def)
  have "list_all2 (\<lambda>p as. seg (nhash h) p as None) (ct_list t) (ht_list T)"
    using t(2) by (simp add: buckets_def list_all2_conv_all_nth)
  moreover have "buckets (nhash h) (replicate ?len None) (replicate ?len [])" by (simp add: buckets_def)
  moreover have "distinct (concat (replicate ?len []) @ concat (ht_list T))" using t(2) by (simp add: buckets_def)
  ultimately obtain h' l' where "move_chains ?len h (replicate ?len None) (ct_list t) 0 = Some (h', l', length (concat (ht_list T)))"
    "rechained h h'" "buckets (nhash h') l' L'"
    using move_chains_refines[OF assms(1,3), of "ct_list t" "replicate ?len None" "replicate ?len []" k L' 0] k L'(1) by auto
  then show ?thesis using L'(2,3) t(1) by (auto simp: chain_resize_def Let_def chained_table_def)
qed

lemma ctor_refines:
  assumes "table_ctor m = Some T" "entries_for h m"
  shows "\<exists>h' t. chain_ctor h = Some (h', t) \<and> rechained h h' \<and> chained_table h' t T"
  using resize_refines[OF assms(2) _ _ assms(1)[unfolded table_ctor_def], of "\<lparr>ct_length = 0, ct_elems = 0, ct_list = []\<rparr>"]
  by (simp add: chained_table_def buckets_def chain_ctor_def)

lemma find_slot_refines:
  assumes ent: "entries_for h m" and t: "chained_table h t T" and inv: "table_inv m T"
  obtains i n where "i = bucket hash (ht_length T)" "i < length (ht_list T)" "n \<le> length (ht_list T ! i)"
    "find_pointer m key hash (ht_list T ! i) = Some n"
    "find_slot h t key hash = Some (slot_at (Bucket_Slot i) (ht_list T ! i) n)"
    "read_slot h (ct_list t) (slot_at (Bucket_Slot i) (ht_list T ! i) n) = Some (slot (ht_list T ! i) n)"
    "\<forall>a \<in> set (ht_list T ! i). h a \<noteq> None" "seg (nhash h) (ct_list t ! i) (ht_list T ! i) None"
    "distinct (concat (ht_list T))"
proof -
  define i where "i = bucket hash (ht_length T)"
  let ?c = "ht_list T ! i"
  have pl: "placed m (ht_length T) (ht_list T)" using inv by (simp add: table_inv_def)
  have i: "i < length (ht_list T)" using pl bucket_less by (auto simp: placed_def i_def)
  have b: "buckets (nhash h) (ct_list t) (ht_list T)" and len: "ct_length t = ht_length T" using t by (simp_all add: chained_table_def)
  obtain n where n: "find_pointer m key hash ?c = Some n" "n \<le> length ?c"
    using chain_search[OF pl, of key hash] by (auto simp: i_def)
  note bi = bucketsD[OF b i]
  have "read_slot h (ct_list t) (Bucket_Slot i) = Some (ct_list t ! i)" using bi(1) by simp
  note s = slot_search_found[OF ent n(1) this bi(2)]
  have alive: "h a \<noteq> None" if "a \<in> set ?c" for a
  proof -
    have "\<exists>x. m a = Some x" using pl i that by (auto simp: placed_def)
    then show ?thesis using entries_forD[OF ent] by fastforce
  qed
  show thesis by (rule that[OF i_def i n(2,1)]) (use s alive bi b len in \<open>auto simp: find_slot_def i_def buckets_def\<close>)
qed

lemma look_up_refines:
  assumes "entries_for h m" "chained_table h t T" "table_inv m T"
  shows "chain_look_up h t key hash = table_look_up m T key hash"
  by (rule find_slot_refines[OF assms, of hash key]) (simp add: chain_look_up_def table_look_up_def Let_def)

lemma remove_refines:
  assumes ent: "entries_for h m" and t: "chained_table h t T" and inv: "table_inv m T"
    and run: "table_remove m T key hash = Some (r, T')"
  shows "\<exists>h' t'. chain_remove h t key hash = Some (r, h', t') \<and> rechained h h' \<and> chained_table h' t' T'"
proof -
  obtain i n where i: "i = bucket hash (ht_length T)" "i < length (ht_list T)" "n \<le> length (ht_list T ! i)"
    and f: "find_pointer m key hash (ht_list T ! i) = Some n"
    "find_slot h t key hash = Some (slot_at (Bucket_Slot i) (ht_list T ! i) n)"
    "read_slot h (ct_list t) (slot_at (Bucket_Slot i) (ht_list T ! i) n) = Some (slot (ht_list T ! i) n)"
    and alive: "\<forall>a \<in> set (ht_list T ! i). h a \<noteq> None" and c: "seg (nhash h) (ct_list t ! i) (ht_list T ! i) None"
    and d: "distinct (concat (ht_list T))"
    by (rule find_slot_refines[OF ent t inv, of hash key])
  show ?thesis
  proof (cases "slot (ht_list T ! i) n")
    case None
    then show ?thesis using run f t i(1) by (auto simp: table_remove_def chain_remove_def Let_def)
  next
    case (Some b)
    then have T': "r = Some b" "T' = T\<lparr>ht_list := (ht_list T)[i := take n (ht_list T ! i) @ drop (Suc n) (ht_list T ! i)], ht_elems := ht_elems T - 1\<rparr>"
      using run f(1) i(1) by (auto simp: table_remove_def Let_def)
    have "b \<in> set (ht_list T ! i)" using Some by (auto simp: slot_def split: if_splits)
    then obtain e where e: "h b = Some e" using alive by auto
    have "seg (nhash h) (e_next_hash e) (drop (Suc n) (ht_list T ! i)) None"
      using seg_slot[OF c Some] e by (simp add: nhash_def)
    moreover have "distinct (concat ((ht_list T)[i := take n (ht_list T ! i) @ drop (Suc n) (ht_list T ! i)]))"
      using distinct_slot[OF d i(2), of "[]" n] by simp
    ultimately obtain h' l' where "write_slot (slot_at (Bucket_Slot i) (ht_list T ! i) n) (e_next_hash e) h (ct_list t) = Some (h', l')"
      "rechained h h'" "buckets (nhash h') l' ((ht_list T)[i := take n (ht_list T ! i) @ drop (Suc n) (ht_list T ! i)])"
      using write_slot_chain[OF _ i(2,3) alive, of "ct_list t" "e_next_hash e" "drop (Suc n) (ht_list T ! i)"] t
      by (auto simp: chained_table_def)
    then show ?thesis using f(2,3) Some e T' t by (auto simp: chain_remove_def chained_table_def)
  qed
qed

text \<open>Linking a new entry into the slot that the search for its key returned.\<close>

lemma link_new:
  fixes L i n
  defines "c \<equiv> L ! i"
  assumes b: "buckets (nhash h) l L" and i: "i < length L" "n \<le> length c" and a: "a \<notin> set (concat L)" "h a = Some e"
    and alive: "\<forall>b \<in> set c. h b \<noteq> None"
  shows "\<exists>follow h1 l1. (case slot c n of None \<Rightarrow> Some None | Some b \<Rightarrow> map_option e_next_hash (h b)) = Some follow
    \<and> write_slot (slot_at (Bucket_Slot i) c n) (Some a) (h(a \<mapsto> e\<lparr>e_next_hash := follow\<rparr>)) l = Some (h1, l1)
    \<and> rechained h h1 \<and> buckets (nhash h1) l1 (L[i := take n c @ a # drop (Suc n) c])"
proof -
  have "set (drop (Suc n) c) \<subseteq> set (concat L)"
    using nth_concat[OF i(1)] set_drop_subset[of "Suc n" c] by (auto simp: c_def simp del: set_concat)
  then have na: "a \<notin> set (drop (Suc n) c)" using a(1) by blast
  define follow where "follow = (case slot c n of None \<Rightarrow> None | Some b \<Rightarrow> nhash h b)"
  have nx: "(case slot c n of None \<Rightarrow> Some None | Some b \<Rightarrow> map_option e_next_hash (h b)) = Some follow"
    using bspec[OF alive nth_mem, of n] by (auto simp: follow_def nhash_def slot_def split: option.split if_splits)
  let ?h = "h(a \<mapsto> e\<lparr>e_next_hash := follow\<rparr>)"
  note h = set_nhash[of h, OF a(2), of follow]
  have b1: "buckets (nhash ?h) l L" by (rule buckets_cong[OF b]) (use a(1) h(1) in auto)
  have "seg (nhash h) follow (drop (Suc n) c) None"
    using seg_slot[OF bucketsD(2)[OF b i(1), folded c_def]] slot_None[OF i(2)] by (auto simp: follow_def split: option.split)
  then have "seg (nhash ?h) follow (drop (Suc n) c) None" by (rule seg_cong) (use na h(1) in auto)
  then have s: "seg (nhash ?h) (Some a) (a # drop (Suc n) c) None" by (simp add: h(1))
  have "distinct (concat (L[i := take n c @ a # drop (Suc n) c]))"
    using distinct_slot[of L i "[a]" n] a(1) b i(1) by (simp add: c_def buckets_def del: set_concat)
  moreover have "\<forall>b \<in> set c. ?h b \<noteq> None" using alive by simp
  ultimately obtain h1 l1 where "write_slot (slot_at (Bucket_Slot i) c n) (Some a) ?h l = Some (h1, l1)" "rechained ?h h1"
    "buckets (nhash h1) l1 (L[i := take n c @ a # drop (Suc n) c])"
    using write_slot_chain[OF b1 i(1), folded c_def, OF i(2) _ s] by blast
  then show ?thesis using nx rechained_trans[OF h(2)] by blast
qed

lemma insert_refines:
  assumes ent: "entries_for h m" and t: "chained_table h t T" and inv: "table_inv m T"
    and a: "a \<notin> table_handles T" "m a = Some x" and run: "table_insert m T a = Some (old, T')"
  shows "\<exists>h' t'. chain_insert h t a = Some (old, h', t') \<and> rechained h h' \<and> chained_table h' t' T'"
proof -
  obtain e where e: "h a = Some e" "entry_key h a = Some (h_key x)" "h_hash e = h_hash x"
    by (rule entries_forD[OF ent a(2)])
  obtain i n where i: "i = bucket (h_hash x) (ht_length T)" "i < length (ht_list T)" "n \<le> length (ht_list T ! i)"
    and f: "find_pointer m (h_key x) (h_hash x) (ht_list T ! i) = Some n"
    "find_slot h t (h_key x) (h_hash x) = Some (slot_at (Bucket_Slot i) (ht_list T ! i) n)"
    "read_slot h (ct_list t) (slot_at (Bucket_Slot i) (ht_list T ! i) n) = Some (slot (ht_list T ! i) n)"
    and alive: "\<forall>b \<in> set (ht_list T ! i). h b \<noteq> None" and cs: "seg (nhash h) (ct_list t ! i) (ht_list T ! i) None"
    and d: "distinct (concat (ht_list T))"
    by (rule find_slot_refines[OF ent t inv, of "h_hash x" "h_key x"])
  define c where "c = ht_list T ! i"
  let ?c = "take n c @ a # drop (Suc n) c"
  obtain follow h1 l where nx: "(case slot c n of None \<Rightarrow> Some None | Some b \<Rightarrow> map_option e_next_hash (h b)) = Some follow"
    and w: "write_slot (slot_at (Bucket_Slot i) c n) (Some a) (h(a \<mapsto> e\<lparr>e_next_hash := follow\<rparr>)) (ct_list t) = Some (h1, l)"
      "buckets (nhash h1) l ((ht_list T)[i := ?c])"
    and r: "rechained h h1"
    using link_new[of h "ct_list t" "ht_list T" i n a e] t i(2,3) a(1) e(1) alive
    unfolding c_def chained_table_def table_handles_def by blast
  let ?T1 = "T\<lparr>ht_list := (ht_list T)[i := ?c]\<rparr>" and ?t1 = "t\<lparr>ct_list := l\<rparr>"
  let ?T2 = "?T1\<lparr>ht_elems := ht_elems ?T1 + 1\<rparr>" and ?t2 = "?t1\<lparr>ct_elems := ct_elems ?t1 + 1\<rparr>"
  have t1: "chained_table h1 ?t1 ?T1" "chained_table h1 ?t2 ?T2" using t w(2) by (simp_all add: chained_table_def)
  have old: "old = slot c n" "slot c n \<noteq> None \<longrightarrow> T' = ?T1"
    "slot c n = None \<longrightarrow> (if ht_length T < ht_elems T + 1 then table_resize m ?T2 = Some T' else T' = ?T2)"
    using run a(2) f(1) i(1) by (auto simp: table_insert_def Let_def c_def split: if_splits)
  have conc: "chain_insert h t a = (if slot c n = None then
      (if ht_length T < ht_elems T + 1 then map_option (Pair None) (chain_resize h1 ?t2) else Some (None, h1, ?t2))
      else Some (slot c n, h1, ?t1))"
    using e f(2,3) nx w(1) t by (simp add: chain_insert_def c_def[symmetric] chained_table_def Let_def)
  show ?thesis
  proof (cases "slot c n = None \<and> ht_length T < ht_elems T + 1")
    case False
    then show ?thesis using conc old r t1 by auto
  next
    case True
    have "m b \<noteq> None" if "b \<in> set (concat (ht_list ?T2))" for b
    proof -
      have "set (concat ((ht_list T)[i := ?c])) \<subseteq> insert a (set (concat (ht_list T)))"
        using set_update_subset_insert[of "ht_list T" i ?c] nth_concat[OF i(2)] set_take_subset[of n c] set_drop_subset[of "Suc n" c]
        by (fastforce simp: c_def)
      then have "b = a \<or> b \<in> set (concat (ht_list T))" using that by auto
      then show ?thesis using inv a(2) unfolding table_inv_def placed_def set_concat_nth by force
    qed
    then obtain h' t' where "chain_resize h1 ?t2 = Some (h', t')" "rechained h1 h'" "chained_table h' t' T'"
      using resize_refines[OF entries_for_rechained[OF r ent] t1(2)] old(3) True by auto
    then show ?thesis using conc old True rechained_trans[OF r] by auto
  qed
qed

end
