(* ===== verification/Lru_Cache.thy ===== *)
theory Lru_Cache
  imports Handle_Table Murmur_Hash
begin

text \<open>
  \<open>lru_cache\<close> and \<open>sharded_lru_cache\<close> of \<open>src/leveldb/cache.cc\<close>.  The two circular lists are
  lists of addresses from the oldest to the newest entry.  Every assertion, every access to a freed
  entry and every unlinking of an entry that is in neither list is \<open>None\<close>.  The address an
  insertion gets from \<open>malloc\<close> is an argument; the calls of the entries' deleters are collected
  in \<open>deleter_calls\<close>.  Charges are natural numbers, so their sum does not wrap.
\<close>

record 'v lru_cache =
  capacity :: nat
  usage :: nat
  lru :: "nat list"
  in_use :: "nat list"
  table :: handle_table
  heap :: "'v heap"
  deleter_calls :: "(slice \<times> 'v) list"

definition lru_cache_ctor :: "'v heap \<Rightarrow> 'v lru_cache option" where
  "lru_cache_ctor m = map_option (\<lambda>t. \<lparr>capacity = 0, usage = 0, lru = [], in_use = [],
     table = t, heap = m, deleter_calls = []\<rparr>) (table_ctor m)"

definition set_capacity :: "nat \<Rightarrow> 'v lru_cache \<Rightarrow> 'v lru_cache" where
  "set_capacity n c = c\<lparr>capacity := n\<rparr>"

section \<open>Lists and references\<close>

definition lru_remove :: "nat \<Rightarrow> 'v lru_cache \<Rightarrow> 'v lru_cache option" where
  "lru_remove a c =
     (if a \<in> set (lru c) then Some (c\<lparr>lru := remove1 a (lru c)\<rparr>)
      else if a \<in> set (in_use c) then Some (c\<lparr>in_use := remove1 a (in_use c)\<rparr>)
      else None)"

definition append_lru :: "nat \<Rightarrow> 'v lru_cache \<Rightarrow> 'v lru_cache" where
  "append_lru a c = c\<lparr>lru := lru c @ [a]\<rparr>"

definition append_in_use :: "nat \<Rightarrow> 'v lru_cache \<Rightarrow> 'v lru_cache" where
  "append_in_use a c = c\<lparr>in_use := in_use c @ [a]\<rparr>"

definition set_entry :: "nat \<Rightarrow> 'v lru_handle \<Rightarrow> 'v lru_cache \<Rightarrow> 'v lru_cache" where
  "set_entry a e c = c\<lparr>heap := (heap c)(a := Some e)\<rparr>"

definition cache_ref :: "nat \<Rightarrow> 'v lru_cache \<Rightarrow> 'v lru_cache option" where
  "cache_ref a c =
     Option.bind (heap c a) (\<lambda>e.
     Option.bind
       (if h_refs e = 1 \<and> h_in_cache e then map_option (append_in_use a) (lru_remove a c) else Some c) (\<lambda>c1.
     Some (set_entry a (e\<lparr>h_refs := h_refs e + 1\<rparr>) c1)))"

definition un_ref :: "nat \<Rightarrow> 'v lru_cache \<Rightarrow> 'v lru_cache option" where
  "un_ref a c =
     Option.bind (heap c a) (\<lambda>e.
       if \<not> 0 < h_refs e then None
       else
         let e1 = e\<lparr>h_refs := h_refs e - 1\<rparr>; c1 = set_entry a e1 c
         in if h_refs e1 = 0 then
              (if h_in_cache e1 then None
               else Some (c1\<lparr>deleter_calls := deleter_calls c1 @ [(h_key e1, h_value e1)],
                             heap := (heap c1)(a := None)\<rparr>))
            else if h_in_cache e1 \<and> h_refs e1 = 1
            then map_option (append_lru a) (lru_remove a c1)
            else Some c1)"

definition finish_erase :: "nat option \<Rightarrow> 'v lru_cache \<Rightarrow> (bool \<times> 'v lru_cache) option" where
  "finish_erase h c =
     (case h of
        None \<Rightarrow> Some (False, c)
      | Some a \<Rightarrow>
          Option.bind (heap c a) (\<lambda>e.
            if \<not> h_in_cache e then None
            else
              Option.bind (lru_remove a c) (\<lambda>c1.
                map_option (Pair True)
                  (un_ref a ((set_entry a (e\<lparr>h_in_cache := False\<rparr>) c1)\<lparr>usage := usage c1 - h_charge e\<rparr>)))))"

lemma lru_remove_length:
  "lru_remove a c = Some c' \<Longrightarrow> length (lru c') + length (in_use c') < length (lru c) + length (in_use c)"
  by (auto simp: lru_remove_def length_remove1 split: if_splits
      intro!: diff_less length_pos_if_in_set)

lemma finish_erase_length:
  assumes "finish_erase (Some a) c = Some (b, c')"
  shows "length (lru c') + length (in_use c') < length (lru c) + length (in_use c)"
  using assms by (auto simp: finish_erase_def un_ref_def set_entry_def Let_def bind_eq_Some_conv
      dest!: lru_remove_length split: if_splits)

section \<open>Operations\<close>

text \<open>Removing the oldest entry; the assertions are on its count and on its being in the table.\<close>

definition evict_oldest :: "'v lru_cache \<Rightarrow> 'v lru_cache option" where
  "evict_oldest c =
     Option.bind (heap c (hd (lru c))) (\<lambda>e.
       if h_refs e \<noteq> 1 then None
       else
         Option.bind (table_remove (heap c) (table c) (h_key e) (h_hash e)) (\<lambda>(old, t).
         Option.bind (finish_erase old (c\<lparr>table := t\<rparr>)) (\<lambda>(erased, c1).
           if erased then Some c1 else None)))"

lemma evict_oldest_length:
  assumes "evict_oldest c = Some c'"
  shows "length (lru c') + length (in_use c') < length (lru c) + length (in_use c)"
proof -
  obtain old t where "finish_erase old (c\<lparr>table := t\<rparr>) = Some (True, c')"
    using assms by (auto simp: evict_oldest_def bind_eq_Some_conv split: if_splits)
  moreover from this obtain a where "old = Some a" by (cases old) (auto simp: finish_erase_def)
  ultimately show ?thesis using finish_erase_length[of a "c\<lparr>table := t\<rparr>" True c'] by simp
qed

function evict_loop :: "'v lru_cache \<Rightarrow> 'v lru_cache option" where
  "evict_loop c =
     (if capacity c < usage c \<and> lru c \<noteq> []
      then (case evict_oldest c of None \<Rightarrow> None | Some c1 \<Rightarrow> evict_loop c1)
      else Some c)"
  by pat_completeness auto
termination
  by (relation "measure (\<lambda>c. length (lru c) + length (in_use c))") (auto dest: evict_oldest_length)

function prune_loop :: "'v lru_cache \<Rightarrow> 'v lru_cache option" where
  "prune_loop c =
     (if lru c \<noteq> []
      then (case evict_oldest c of None \<Rightarrow> None | Some c1 \<Rightarrow> prune_loop c1)
      else Some c)"
  by pat_completeness auto
termination
  by (relation "measure (\<lambda>c. length (lru c) + length (in_use c))") (auto dest: evict_oldest_length)

declare evict_loop.simps [simp del] prune_loop.simps [simp del]

definition cache_look_up :: "slice \<Rightarrow> u32 \<Rightarrow> 'v lru_cache \<Rightarrow> (nat option \<times> 'v lru_cache) option" where
  "cache_look_up key hash c =
     Option.bind (table_look_up (heap c) (table c) key hash) (\<lambda>r.
       case r of None \<Rightarrow> Some (None, c) | Some a \<Rightarrow> map_option (Pair (Some a)) (cache_ref a c))"

definition cache_release :: "nat \<Rightarrow> 'v lru_cache \<Rightarrow> 'v lru_cache option" where
  "cache_release a c = un_ref a c"

definition cache_insert ::
  "slice \<Rightarrow> u32 \<Rightarrow> 'v \<Rightarrow> nat \<Rightarrow> nat \<Rightarrow> 'v lru_cache \<Rightarrow> (nat \<times> 'v lru_cache) option" where
  "cache_insert key hash val charge a c =
     (let e = \<lparr>h_value = val, h_charge = charge, h_key = key, h_in_cache = False, h_refs = 1, h_hash = hash\<rparr>
      in Option.bind
        (if 0 < capacity c then
           let c1 = append_in_use a (set_entry a (e\<lparr>h_refs := h_refs e + 1, h_in_cache := True\<rparr>) c);
               c2 = c1\<lparr>usage := usage c1 + charge\<rparr>
           in Option.bind (table_insert (heap c2) (table c2) a) (\<lambda>(old, t).
                map_option snd (finish_erase old (c2\<lparr>table := t\<rparr>)))
         else Some (set_entry a e c))
        (\<lambda>c3. map_option (Pair a) (evict_loop c3)))"

definition cache_erase :: "slice \<Rightarrow> u32 \<Rightarrow> 'v lru_cache \<Rightarrow> 'v lru_cache option" where
  "cache_erase key hash c =
     Option.bind (table_remove (heap c) (table c) key hash) (\<lambda>(old, t).
       map_option snd (finish_erase old (c\<lparr>table := t\<rparr>)))"

definition cache_prune :: "'v lru_cache \<Rightarrow> 'v lru_cache option" where
  "cache_prune c = prune_loop c"

definition total_charge :: "'v lru_cache \<Rightarrow> nat" where
  "total_charge c = usage c"

text \<open>The destructor walks the list without unlinking the entries.\<close>

fun destroy_loop :: "nat list \<Rightarrow> 'v lru_cache \<Rightarrow> 'v lru_cache option" where
  "destroy_loop [] c = Some c"
| "destroy_loop (a # as) c =
     Option.bind (heap c a) (\<lambda>e.
       if \<not> h_in_cache e \<or> h_refs e \<noteq> 1 then None
       else Option.bind (un_ref a (set_entry a (e\<lparr>h_in_cache := False\<rparr>) c)) (destroy_loop as))"

definition lru_cache_dtor :: "'v lru_cache \<Rightarrow> 'v lru_cache option" where
  "lru_cache_dtor c = (if in_use c = [] then destroy_loop (lru c) c else None)"

section \<open>Shards\<close>

definition kNumShardBits :: nat where "kNumShardBits = 4"
definition kNumShards :: nat where "kNumShards = 2 ^ kNumShardBits"

record 'v sharded_lru_cache =
  shards :: "'v lru_cache list"
  last_id :: u64

definition hash_slice :: "slice \<Rightarrow> u32" where
  "hash_slice s = Hash s 0"

definition shard_of :: "u32 \<Rightarrow> nat" where
  "shard_of hash = unat (drop_bit (32 - kNumShardBits) hash)"

definition sharded_ctor :: "nat \<Rightarrow> 'v sharded_lru_cache option" where
  "sharded_ctor cap =
     (let per_shard = (cap + (kNumShards - 1)) div kNumShards
      in map_option (\<lambda>c. \<lparr>shards = replicate kNumShards (set_capacity per_shard c), last_id = 0\<rparr>)
           (lru_cache_ctor (\<lambda>_. None)))"

definition on_shard ::
  "nat \<Rightarrow> ('v lru_cache \<Rightarrow> ('r \<times> 'v lru_cache) option) \<Rightarrow> 'v sharded_lru_cache \<Rightarrow> ('r \<times> 'v sharded_lru_cache) option" where
  "on_shard i f s =
     map_option (\<lambda>(r, c). (r, s\<lparr>shards := (shards s)[i := c]\<rparr>)) (f (shards s ! i))"

text \<open>A handle is the address of the entry with the hash stored in it.\<close>

definition sharded_insert ::
  "slice \<Rightarrow> 'v \<Rightarrow> nat \<Rightarrow> nat \<Rightarrow> 'v sharded_lru_cache \<Rightarrow> ((u32 \<times> nat) \<times> 'v sharded_lru_cache) option" where
  "sharded_insert key val charge a s =
     (let hash = hash_slice key
      in on_shard (shard_of hash)
           (\<lambda>c. map_option (\<lambda>(h, c'). ((hash, h), c')) (cache_insert key hash val charge a c)) s)"

definition sharded_look_up ::
  "slice \<Rightarrow> 'v sharded_lru_cache \<Rightarrow> ((u32 \<times> nat) option \<times> 'v sharded_lru_cache) option" where
  "sharded_look_up key s =
     (let hash = hash_slice key
      in on_shard (shard_of hash)
           (\<lambda>c. map_option (\<lambda>(r, c'). (map_option (Pair hash) r, c')) (cache_look_up key hash c)) s)"

definition sharded_release :: "u32 \<times> nat \<Rightarrow> 'v sharded_lru_cache \<Rightarrow> (unit \<times> 'v sharded_lru_cache) option" where
  "sharded_release h s = on_shard (shard_of (fst h)) (\<lambda>c. map_option (Pair ()) (cache_release (snd h) c)) s"

definition sharded_erase :: "slice \<Rightarrow> 'v sharded_lru_cache \<Rightarrow> (unit \<times> 'v sharded_lru_cache) option" where
  "sharded_erase key s =
     (let hash = hash_slice key
      in on_shard (shard_of hash) (\<lambda>c. map_option (Pair ()) (cache_erase key hash c)) s)"

definition sharded_value :: "u32 \<times> nat \<Rightarrow> 'v sharded_lru_cache \<Rightarrow> 'v option" where
  "sharded_value h s = map_option h_value (heap (shards s ! shard_of (fst h)) (snd h))"

definition sharded_new_id :: "'v sharded_lru_cache \<Rightarrow> u64 \<times> 'v sharded_lru_cache" where
  "sharded_new_id s = (last_id s + 1, s\<lparr>last_id := last_id s + 1\<rparr>)"

fun prune_all :: "'v lru_cache list \<Rightarrow> 'v lru_cache list option" where
  "prune_all [] = Some []"
| "prune_all (c # cs) = Option.bind (cache_prune c) (\<lambda>c'. map_option ((#) c') (prune_all cs))"

definition sharded_prune :: "'v sharded_lru_cache \<Rightarrow> 'v sharded_lru_cache option" where
  "sharded_prune s = map_option (\<lambda>cs. s\<lparr>shards := cs\<rparr>) (prune_all (shards s))"

definition sharded_total_charge :: "'v sharded_lru_cache \<Rightarrow> nat" where
  "sharded_total_charge s = sum_list (map total_charge (shards s))"

end
