(* ===== verification/Lru_Cache_Inv.thy ===== *)
theory Lru_Cache_Inv
  imports Lru_Cache
begin

text \<open>
  What the cache of \<open>src/leveldb/cache.cc\<close> promises: the invariant that ties reference counts, the
  two lists, the hash table and the usage together, its preservation by every operation, the reachable
  states of a client that releases what it holds, and the properties of cache, hash table and shards.
\<close>

section \<open>The invariant\<close>

text \<open>
  \<open>cl a\<close> counts the handles to entry \<open>a\<close> that clients hold.  An entry's count is the number of
  those handles plus one for the cache; a cached entry is on the LRU list when no client holds it
  and on the in-use list otherwise; an entry that is neither cached nor held is freed.
\<close>

definition entry_ok :: "'v lru_cache \<Rightarrow> (nat \<Rightarrow> nat) \<Rightarrow> nat \<Rightarrow> bool" where
  "entry_ok c cl a \<longleftrightarrow> (case heap c a of
       None \<Rightarrow> cl a = 0 \<and> a \<notin> set (lru c) \<and> a \<notin> set (in_use c)
     | Some e \<Rightarrow> h_refs e = cl a + (if h_in_cache e then 1 else 0) \<and> 0 < h_refs e
         \<and> (a \<in> set (lru c) \<longleftrightarrow> h_in_cache e \<and> cl a = 0)
         \<and> (a \<in> set (in_use c) \<longleftrightarrow> h_in_cache e \<and> 0 < cl a))"

definition charge_of :: "'v heap \<Rightarrow> nat \<Rightarrow> nat" where
  "charge_of m a = (case m a of None \<Rightarrow> 0 | Some e \<Rightarrow> h_charge e)"

definition lists_inv :: "'v lru_cache \<Rightarrow> (nat \<Rightarrow> nat) \<Rightarrow> nat set \<Rightarrow> bool" where
  "lists_inv c cl hs \<longleftrightarrow> hs = set (lru c) \<union> set (in_use c)
     \<and> distinct (lru c) \<and> distinct (in_use c) \<and> (\<forall>a. entry_ok c cl a)
     \<and> usage c = sum (charge_of (heap c)) hs"

definition cache_inv :: "'v lru_cache \<Rightarrow> (nat \<Rightarrow> nat) \<Rightarrow> bool" where
  "cache_inv c cl \<longleftrightarrow> table_inv (heap c) (table c) \<and> lists_inv c cl (table_handles (table c))"

lemma table_inv_heap:
  assumes "table_inv m t" "\<And>a. a \<in> table_handles t \<Longrightarrow> key_of m' a = key_of m a"
  shows "table_inv m' t"
proof -
  have "\<forall>a \<in> set (concat (ht_list t)). key_of m' a = key_of m a"
    using assms(2) by (simp add: table_handles_def del: set_concat)
  then have "map (key_of m') (concat (ht_list t)) = map (key_of m) (concat (ht_list t))"
    by (intro map_cong) auto
  moreover have "\<exists>e. m' a = Some e \<and> bucket (h_hash e) (ht_length t) = i"
    if i: "i < ht_length t" "a \<in> set (ht_list t ! i)" for i a
  proof -
    have "a \<in> table_handles t" using i assms(1)
      by (auto simp: table_handles_def table_inv_def placed_def set_concat_nth)
    with assms have "key_of m' a = key_of m a" by blast
    moreover obtain e where "m a = Some e" "bucket (h_hash e) (ht_length t) = i"
      using i assms(1) by (auto simp: table_inv_def placed_def)
    ultimately show ?thesis by (auto simp: key_of_def)
  qed
  ultimately show ?thesis using assms(1) by (simp add: table_inv_def placed_def del: map_concat map_eq_conv)
qed

lemma entry_ok_table [simp]: "entry_ok (c\<lparr>table := t\<rparr>) cl a = entry_ok c cl a"
  by (simp add: entry_ok_def split: option.split)

lemma finite_handles [simp]: "finite (table_handles t)"
  by (simp add: table_handles_def)

lemma lists_inv_table [simp]: "lists_inv (c\<lparr>table := t\<rparr>) cl hs = lists_inv c cl hs"
  by (simp add: lists_inv_def)

lemma handle_entry:
  assumes "lists_inv c cl hs" "a \<in> hs"
  obtains e where "heap c a = Some e" "h_in_cache e" "h_refs e = Suc (cl a)"
    "a \<in> set (lru c) \<longleftrightarrow> cl a = 0" "a \<in> set (in_use c) \<longleftrightarrow> 0 < cl a"
proof -
  have "entry_ok c cl a" "a \<in> set (lru c) \<union> set (in_use c)" using assms by (auto simp: lists_inv_def)
  with that show thesis by (cases "heap c a") (auto simp: entry_ok_def)
qed

text \<open>Dropping a cached entry that has just left the table.\<close>

definition dropped :: "nat \<Rightarrow> 'v lru_handle \<Rightarrow> nat \<Rightarrow> 'v lru_cache \<Rightarrow> 'v lru_cache" where
  "dropped a e n c =
     (if n = 0 then c\<lparr>lru := remove1 a (lru c), usage := usage c - h_charge e, heap := (heap c)(a := None),
          deleter_calls := deleter_calls c @ [(h_key e, h_value e)]\<rparr>
      else c\<lparr>in_use := remove1 a (in_use c), usage := usage c - h_charge e,
          heap := (heap c)(a := Some (e\<lparr>h_in_cache := False, h_refs := n\<rparr>))\<rparr>)"

lemma finish_erase_dropped:
  assumes "heap c a = Some e" "h_in_cache e" "h_refs e = Suc n"
    "a \<in> set (lru c) \<longleftrightarrow> n = 0" "a \<in> set (in_use c) \<longleftrightarrow> 0 < n"
  shows "finish_erase (Some a) c = Some (True, dropped a e n c)"
  using assms
  by (cases n) (simp_all add: finish_erase_def lru_remove_def un_ref_def set_entry_def dropped_def Let_def)

lemma dropped_inv:
  assumes inv: "lists_inv c cl hs" and a: "a \<in> hs" and e: "heap c a = Some e"
  shows "lists_inv (dropped a e (cl a) c) cl (hs - {a})"
proof -
  let ?c = "dropped a e (cl a) c"
  obtain e' where e': "heap c a = Some e'" "h_in_cache e'" "h_refs e' = Suc (cl a)"
    "a \<in> set (lru c) \<longleftrightarrow> cl a = 0" "a \<in> set (in_use c) \<longleftrightarrow> 0 < cl a" by (rule handle_entry[OF inv a])
  have heap: "heap ?c b = heap c b" if "b \<noteq> a" for b using that by (simp add: dropped_def)
  have d: "distinct (lru c)" "distinct (in_use c)" using inv by (simp_all add: lists_inv_def)
  have "hs - {a} = set (lru ?c) \<union> set (in_use ?c)"
    using inv e' d unfolding lists_inv_def by (auto simp: dropped_def)
  moreover have "entry_ok ?c cl b" for b
  proof (cases "b = a")
    case True
    then show ?thesis using e' e d by (auto simp: entry_ok_def dropped_def)
  next
    case False
    then have "entry_ok c cl b" using inv by (simp add: lists_inv_def)
    with False heap[OF False] d show ?thesis by (auto simp: entry_ok_def dropped_def split: option.splits)
  qed
  moreover have "usage ?c = sum (charge_of (heap ?c)) (hs - {a})"
  proof -
    have "sum (charge_of (heap ?c)) (hs - {a}) = sum (charge_of (heap c)) (hs - {a})"
      using heap by (intro sum.cong) (auto simp: charge_of_def)
    also have "\<dots> = usage c - charge_of (heap c) a"
      using inv a by (simp add: lists_inv_def sum_diff1_nat)
    finally show ?thesis using e by (simp add: dropped_def charge_of_def)
  qed
  ultimately show ?thesis using d by (auto simp: lists_inv_def dropped_def)
qed

text \<open>Finishing an erase, for the table that no longer holds the entry.\<close>

lemma drop_found:
  assumes inv: "lists_inv c cl hs" and old: "set_option old \<subseteq> hs"
    and t: "table_inv (heap c) (table c)" "table_handles (table c) = hs - set_option old"
  shows "\<exists>c'. finish_erase old c = Some (old \<noteq> None, c') \<and> cache_inv c' cl
    \<and> capacity c' = capacity c \<and> lru c' = (case old of None \<Rightarrow> lru c | Some a \<Rightarrow> remove1 a (lru c))
    \<and> in_use c' = (case old of None \<Rightarrow> in_use c | Some a \<Rightarrow> remove1 a (in_use c))
    \<and> (\<forall>b. b \<notin> set_option old \<longrightarrow> heap c' b = heap c b)"
proof (cases old)
  case None
  with inv t show ?thesis by (auto simp: finish_erase_def cache_inv_def)
next
  case (Some a)
  then have a: "a \<in> hs" using old by simp
  obtain e where e: "heap c a = Some e" "h_in_cache e" "h_refs e = Suc (cl a)"
    "a \<in> set (lru c) \<longleftrightarrow> cl a = 0" "a \<in> set (in_use c) \<longleftrightarrow> 0 < cl a" by (rule handle_entry[OF inv a])
  let ?c = "dropped a e (cl a) c"
  have "key_of (heap ?c) b = key_of (heap c) b" if "b \<in> table_handles (table c)" for b
    using that t(2) Some by (auto simp: key_of_def dropped_def)
  then have "table_inv (heap ?c) (table c)" by (rule table_inv_heap[OF t(1)])
  moreover have "table ?c = table c" "capacity ?c = capacity c" by (simp_all add: dropped_def)
  moreover have "lru ?c = remove1 a (lru c)" "in_use ?c = remove1 a (in_use c)"
    using e by (auto simp: dropped_def remove1_idem)
  moreover have "\<forall>b. b \<noteq> a \<longrightarrow> heap ?c b = heap c b" by (simp add: dropped_def)
  moreover have "lists_inv ?c cl (table_handles (table c))"
    using dropped_inv[OF inv a e(1)] t(2) Some by simp
  ultimately show ?thesis using finish_erase_dropped[OF e] Some by (auto simp: cache_inv_def)
qed

lemma table_remove_handles:
  assumes "cache_inv c cl"
  shows "\<exists>old t. table_remove (heap c) (table c) key hash = Some (old, t)
    \<and> found_in (key_of (heap c)) (table_handles (table c)) (hash, key) old
    \<and> table_inv (heap c) t \<and> table_handles t = table_handles (table c) - set_option old
    \<and> set_option old \<subseteq> table_handles (table c)"
  using table_remove_inv[of "heap c" "table c" key hash] assms
  by (fastforce simp: cache_inv_def found_in_def split: option.splits)

lemma erase_inv:
  assumes "cache_inv c cl"
  shows "\<exists>c'. cache_erase key hash c = Some c' \<and> cache_inv c' cl \<and> capacity c' = capacity c"
proof -
  obtain old t where r: "table_remove (heap c) (table c) key hash = Some (old, t)" "table_inv (heap c) t"
    "table_handles t = table_handles (table c) - set_option old" "set_option old \<subseteq> table_handles (table c)"
    using table_remove_handles[OF assms] by blast
  have "lists_inv (c\<lparr>table := t\<rparr>) cl (table_handles (table c))" using assms by (simp add: cache_inv_def)
  from drop_found[OF this r(4)] r(1-3) show ?thesis by (auto simp: cache_erase_def)
qed

lemma evict_oldest_inv:
  assumes inv: "cache_inv c cl" and "lru c = a # as"
  shows "\<exists>c'. evict_oldest c = Some c' \<and> cache_inv c' cl \<and> lru c' = as \<and> capacity c' = capacity c
    \<and> in_use c' = in_use c \<and> (\<forall>b. b \<noteq> a \<longrightarrow> heap c' b = heap c b)"
proof -
  have l: "lists_inv c cl (table_handles (table c))" and a: "a \<in> table_handles (table c)"
    using assms by (auto simp: cache_inv_def lists_inv_def)
  obtain e where e: "heap c a = Some e" "h_in_cache e" "h_refs e = Suc (cl a)"
    "a \<in> set (lru c) \<longleftrightarrow> cl a = 0" by (rule handle_entry[OF l a])
  obtain old t where r: "table_remove (heap c) (table c) (h_key e) (h_hash e) = Some (old, t)"
    "found_in (key_of (heap c)) (table_handles (table c)) (h_hash e, h_key e) old"
    "table_inv (heap c) t" "table_handles t = table_handles (table c) - set_option old"
    "set_option old \<subseteq> table_handles (table c)"
    using table_remove_handles[OF inv] by blast
  have "found_in (key_of (heap c)) (table_handles (table c)) (h_hash e, h_key e) (Some a)"
    using a e(1) by (simp add: found_in_def key_of_Some)
  then have old: "old = Some a" using hash_table.found_unique r(2) inv unfolding cache_inv_def by blast
  obtain c' where "finish_erase old (c\<lparr>table := t\<rparr>) = Some (old \<noteq> None, c')" "cache_inv c' cl"
    "capacity c' = capacity c" "lru c' = remove1 a (lru c)" "in_use c' = remove1 a (in_use c)"
    "\<forall>b. b \<noteq> a \<longrightarrow> heap c' b = heap c b"
    using drop_found[of "c\<lparr>table := t\<rparr>" cl "table_handles (table c)" old] l r(3-5) old by auto
  moreover have "a \<notin> set (in_use c)" using e assms(2) l by (auto simp: lists_inv_def entry_ok_def dest: spec[of _ a])
  ultimately show ?thesis using e assms(2) r(1) old by (auto simp: evict_oldest_def remove1_idem)
qed

lemma evict_loop_inv:
  "cache_inv c cl \<Longrightarrow> \<exists>c'. evict_loop c = Some c' \<and> cache_inv c' cl \<and> capacity c' = capacity c
    \<and> (usage c' \<le> capacity c' \<or> lru c' = []) \<and> (\<exists>n. lru c' = drop n (lru c))
    \<and> in_use c' = in_use c \<and> (\<forall>b. b \<notin> set (lru c) \<longrightarrow> heap c' b = heap c b)"
proof (induction "lru c" arbitrary: c)
  case Nil
  then show ?case by (subst evict_loop.simps) auto
next
  case (Cons a as)
  obtain c1 where c1: "evict_oldest c = Some c1" "cache_inv c1 cl" "lru c1 = as" "capacity c1 = capacity c"
    "in_use c1 = in_use c" "\<forall>b. b \<noteq> a \<longrightarrow> heap c1 b = heap c b"
    using evict_oldest_inv[OF Cons.prems Cons.hyps(2)[symmetric]] by blast
  obtain c' n where c': "evict_loop c1 = Some c'" "cache_inv c' cl" "capacity c' = capacity c1"
    "usage c' \<le> capacity c' \<or> lru c' = []" "lru c' = drop n (lru c1)"
    "in_use c' = in_use c1" "\<forall>b. b \<notin> set (lru c1) \<longrightarrow> heap c' b = heap c1 b"
    using Cons.hyps(1)[OF c1(3)[symmetric] c1(2)] by blast
  show ?case
  proof (cases "capacity c < usage c")
    case True
    have "lru c' = drop (Suc n) (lru c)" using c'(5) c1(3) Cons.hyps(2)[symmetric] by simp
    then have ex: "\<exists>n. lru c' = drop n (lru c)" by blast
    have "evict_loop c = Some c'"
      using True c1(1) c'(1) Cons.hyps(2)[symmetric] by (subst evict_loop.simps) simp
    moreover have "\<forall>b. b \<notin> set (lru c) \<longrightarrow> heap c' b = heap c b"
      using c1(3,6) c'(7) Cons.hyps(2)[symmetric] by simp
    ultimately show ?thesis using ex c1(4,5) c'(2-4,6) by simp
  next
    case False
    with Cons.prems show ?thesis by (subst evict_loop.simps) (auto intro: exI[of _ 0])
  qed
qed

lemma prune_loop_inv:
  "cache_inv c cl \<Longrightarrow> \<exists>c'. prune_loop c = Some c' \<and> cache_inv c' cl \<and> capacity c' = capacity c \<and> lru c' = []"
proof (induction "lru c" arbitrary: c)
  case Nil
  then show ?case by (subst prune_loop.simps) auto
next
  case (Cons a as)
  obtain c1 where c1: "evict_oldest c = Some c1" "cache_inv c1 cl" "lru c1 = as" "capacity c1 = capacity c"
    using evict_oldest_inv[OF Cons.prems Cons.hyps(2)[symmetric]] by blast
  with Cons.hyps(1)[of c1] Cons.hyps(2)[symmetric] show ?case by (subst prune_loop.simps) auto
qed


text \<open>An entry whose counts or flags change, but not its key and charge.\<close>

lemma update_entry_inv:
  assumes inv: "cache_inv c cl" and e: "heap c a = Some e"
    and c': "table c' = table c" "usage c' = usage c" "heap c' = (heap c)(a := Some e')"
    and e': "h_hash e' = h_hash e" "h_key e' = h_key e" "h_charge e' = h_charge e"
    and l: "distinct (lru c')" "distinct (in_use c')" "set (lru c') \<union> set (in_use c') = set (lru c) \<union> set (in_use c)"
    and ok: "entry_ok c' cl' a" and others: "\<And>b. b \<noteq> a \<Longrightarrow> cl' b = cl b \<and>
      (b \<in> set (lru c') \<longleftrightarrow> b \<in> set (lru c)) \<and> (b \<in> set (in_use c') \<longleftrightarrow> b \<in> set (in_use c))"
  shows "cache_inv c' cl'"
proof -
  have "table_inv (heap c') (table c)"
    by (rule table_inv_heap[of "heap c"]) (use inv e e' c'(3) in \<open>auto simp: cache_inv_def key_of_def\<close>)
  moreover have "charge_of (heap c') = charge_of (heap c)"
    using e e' c'(3) by (auto simp: charge_of_def fun_eq_iff)
  moreover have "entry_ok c' cl' b" for b
  proof (cases "b = a")
    case False
    then have "entry_ok c cl b" using inv by (simp add: cache_inv_def lists_inv_def)
    with False others[OF False] c'(3) show ?thesis by (auto simp: entry_ok_def split: option.splits)
  qed (use ok in simp)
  ultimately show ?thesis using inv l c' by (simp add: cache_inv_def lists_inv_def)
qed

lemma ref_inv:
  assumes inv: "cache_inv c cl" and a: "a \<in> table_handles (table c)"
  shows "\<exists>c'. cache_ref a c = Some c' \<and> cache_inv c' (cl(a := Suc (cl a))) \<and> capacity c' = capacity c"
proof -
  have l: "lists_inv c cl (table_handles (table c))" using inv by (simp add: cache_inv_def)
  obtain e where e: "heap c a = Some e" "h_in_cache e" "h_refs e = Suc (cl a)"
    "a \<in> set (lru c) \<longleftrightarrow> cl a = 0" "a \<in> set (in_use c) \<longleftrightarrow> 0 < cl a" by (rule handle_entry[OF l a])
  have d: "distinct (lru c)" "distinct (in_use c)" using l by (simp_all add: lists_inv_def)
  let ?e = "e\<lparr>h_refs := h_refs e + 1\<rparr>"
  define c' where "c' = (if cl a = 0 then c\<lparr>lru := remove1 a (lru c), in_use := in_use c @ [a], heap := (heap c)(a := Some ?e)\<rparr>
      else c\<lparr>heap := (heap c)(a := Some ?e)\<rparr>)"
  have "cache_ref a c = Some c'"
    using e by (auto simp: cache_ref_def lru_remove_def append_in_use_def set_entry_def c'_def)
  moreover have "cache_inv c' (cl(a := Suc (cl a)))"
    by (rule update_entry_inv[OF inv e(1), of c' ?e]) (use e d in \<open>auto simp: c'_def entry_ok_def\<close>)
  moreover have "capacity c' = capacity c" by (simp add: c'_def)
  ultimately show ?thesis by blast
qed

lemma look_up_inv:
  assumes "cache_inv c cl"
  shows "\<exists>r c'. cache_look_up key hash c = Some (r, c') \<and> capacity c' = capacity c
    \<and> found_in (key_of (heap c)) (table_handles (table c)) (hash, key) r
    \<and> cache_inv c' (case r of None \<Rightarrow> cl | Some a \<Rightarrow> cl(a := Suc (cl a)))"
proof -
  obtain r where r: "table_look_up (heap c) (table c) key hash = Some r"
    "found_in (key_of (heap c)) (table_handles (table c)) (hash, key) r"
    using table_look_up_inv[of "heap c" "table c" key hash] assms by (auto simp: cache_inv_def)
  show ?thesis
  proof (cases r)
    case None
    with r assms show ?thesis by (simp add: cache_look_up_def)
  next
    case (Some a)
    then have "a \<in> table_handles (table c)" using r(2) by (simp add: found_in_def)
    with r Some ref_inv[OF assms] show ?thesis by (force simp: cache_look_up_def)
  qed
qed

lemma release_inv:
  assumes inv: "cache_inv c cl" and held: "0 < cl a"
  shows "\<exists>c'. cache_release a c = Some c' \<and> cache_inv c' (cl(a := cl a - 1)) \<and> capacity c' = capacity c"
proof -
  have ok: "entry_ok c cl a" and d: "distinct (lru c)" "distinct (in_use c)"
    using inv by (simp_all add: cache_inv_def lists_inv_def)
  then obtain e where e: "heap c a = Some e" using held by (cases "heap c a") (auto simp: entry_ok_def)
  have refs: "h_refs e = cl a + (if h_in_cache e then 1 else 0)" "a \<notin> set (lru c)"
    "a \<in> set (in_use c) \<longleftrightarrow> h_in_cache e" using ok e held by (auto simp: entry_ok_def)
  let ?e = "e\<lparr>h_refs := h_refs e - 1\<rparr>"
  show ?thesis
  proof (cases "\<not> h_in_cache e \<and> cl a = 1")
    case True
    define c' where "c' = c\<lparr>heap := (heap c)(a := None), deleter_calls := deleter_calls c @ [(h_key e, h_value e)]\<rparr>"
    have run: "cache_release a c = Some c'"
      using e refs True by (simp add: cache_release_def un_ref_def set_entry_def Let_def c'_def)
    have a: "a \<notin> table_handles (table c)" using inv refs True by (simp add: cache_inv_def lists_inv_def)
    have "table_inv (heap c') (table c)"
      by (rule table_inv_heap[of "heap c"]) (use inv a in \<open>auto simp: cache_inv_def key_of_def c'_def\<close>)
    moreover have "sum (charge_of (heap c')) (table_handles (table c)) = sum (charge_of (heap c)) (table_handles (table c))"
      using a by (intro sum.cong) (auto simp: charge_of_def c'_def)
    moreover have "\<forall>b. entry_ok c' (cl(a := cl a - 1)) b"
    proof
      fix b
      show "entry_ok c' (cl(a := cl a - 1)) b"
      proof (cases "b = a")
        case False
        then have "entry_ok c cl b" using inv by (simp add: cache_inv_def lists_inv_def)
        with False show ?thesis by (auto simp: entry_ok_def c'_def split: option.splits)
      qed (use True refs in \<open>simp add: entry_ok_def c'_def\<close>)
    qed
    moreover have "table c' = table c" "usage c' = usage c" "lru c' = lru c" "in_use c' = in_use c" "capacity c' = capacity c"
      by (simp_all add: c'_def)
    ultimately have "cache_inv c' (cl(a := cl a - 1))" using inv unfolding cache_inv_def lists_inv_def by simp
    then show ?thesis using run by (auto simp: c'_def)
  next
    case False
    define c' where "c' = (if h_in_cache e \<and> cl a = 1
       then c\<lparr>lru := lru c @ [a], in_use := remove1 a (in_use c), heap := (heap c)(a := Some ?e)\<rparr>
       else c\<lparr>heap := (heap c)(a := Some ?e)\<rparr>)"
    have "cache_release a c = Some c'"
      using e refs False held
      by (auto simp: cache_release_def un_ref_def set_entry_def Let_def c'_def lru_remove_def append_lru_def)
    moreover have "cache_inv c' (cl(a := cl a - 1))"
      by (rule update_entry_inv[OF inv e, of c' ?e])
        (use e d refs False held in \<open>auto simp: c'_def entry_ok_def\<close>)
    moreover have "capacity c' = capacity c" by (simp add: c'_def)
    ultimately show ?thesis by blast
  qed
qed


lemma lru_without_key:
  assumes inv: "cache_inv c cl" and k: "found_in (key_of (heap c)) (table_handles (table c)) k old"
  shows "(case old of None \<Rightarrow> lru c | Some b \<Rightarrow> remove1 b (lru c)) = filter (\<lambda>b. key_of (heap c) b \<noteq> Some k) (lru c)"
proof -
  have sub: "set (lru c) \<subseteq> table_handles (table c)" and d: "distinct (lru c)"
    using inv by (auto simp: cache_inv_def lists_inv_def)
  show ?thesis
  proof (cases old)
    case None
    with k sub have "\<forall>b \<in> set (lru c). key_of (heap c) b \<noteq> Some k" by (auto simp: found_in_def)
    with None show ?thesis by simp
  next
    case (Some b)
    have "key_of (heap c) x = Some k \<longleftrightarrow> x = b" if "x \<in> set (lru c)" for x
      using that sub k Some inv hash_table.unique[of "heap c" "table c" x b]
      by (auto simp: found_in_def cache_inv_def)
    then have "filter (\<lambda>x. key_of (heap c) x \<noteq> Some k) (lru c) = filter (\<lambda>x. x \<noteq> b) (lru c)"
      by (intro filter_cong) auto
    with Some d show ?thesis by (simp add: distinct_remove1_removeAll removeAll_filter_not_eq eq_commute)
  qed
qed

lemma insert_inv:
  assumes inv: "cache_inv c cl" and fresh: "heap c a = None"
  shows "\<exists>c'. cache_insert key hash val ch a c = Some (a, c') \<and> cache_inv c' (cl(a := 1))
    \<and> capacity c' = capacity c \<and> (usage c' \<le> capacity c' \<or> lru c' = [])
    \<and> (0 < capacity c \<longrightarrow> a \<in> set (in_use c') \<and> key_of (heap c') a = Some (hash, key)
          \<and> map_option h_value (heap c' a) = Some val \<and> (\<exists>n. lru c' = drop n (filter (\<lambda>b. key_of (heap c) b \<noteq> Some (hash, key)) (lru c))))"
proof -
  let ?hs = "table_handles (table c)"
  have l: "lists_inv c cl ?hs" and tab: "table_inv (heap c) (table c)" using inv by (simp_all add: cache_inv_def)
  have "entry_ok c cl a" using l by (simp add: lists_inv_def)
  then have a: "cl a = 0" "a \<notin> set (lru c)" "a \<notin> set (in_use c)" "a \<notin> ?hs"
    using fresh l by (auto simp: entry_ok_def lists_inv_def)
  let ?cl = "cl(a := 1)"
  let ?e = "\<lparr>h_value = val, h_charge = ch, h_key = key, h_in_cache = False, h_refs = 1, h_hash = hash\<rparr>"
  have keys: "key_of ((heap c)(a := x)) b = key_of (heap c) b" if "b \<in> ?hs" for b x
    using that a(4) by (auto simp: key_of_def)
  have charges: "sum (charge_of ((heap c)(a := x))) ?hs = sum (charge_of (heap c)) ?hs" for x
    using a(4) by (intro sum.cong) (auto simp: charge_of_def)
  have others: "entry_ok c' ?cl b" if "b \<noteq> a" "heap c' b = heap c b" "b \<in> set (lru c') \<longleftrightarrow> b \<in> set (lru c)"
      "b \<in> set (in_use c') \<longleftrightarrow> b \<in> set (in_use c)" for c' :: "'a lru_cache" and b
    using l that by (auto simp: lists_inv_def entry_ok_def dest!: spec[of _ b] split: option.splits)
  show ?thesis
  proof (cases "0 < capacity c")
    case False
    let ?c = "set_entry a ?e c"
    have "entry_ok ?c ?cl b" for b
      by (cases "b = a") (use a others[of b ?c] in \<open>auto simp: entry_ok_def set_entry_def\<close>)
    then have "cache_inv ?c ?cl"
      using l tab table_inv_heap[OF tab, of "heap ?c"] keys charges
      by (simp add: cache_inv_def lists_inv_def set_entry_def)
    from evict_loop_inv[OF this] False show ?thesis
      by (auto simp: cache_insert_def set_entry_def)
  next
    case True
    let ?e2 = "?e\<lparr>h_refs := 2, h_in_cache := True\<rparr>"
    define c2 where "c2 = c\<lparr>in_use := in_use c @ [a], heap := (heap c)(a := Some ?e2), usage := usage c + ch\<rparr>"
    have c2: "heap c2 = (heap c)(a := Some ?e2)" "table c2 = table c" "lru c2 = lru c" "in_use c2 = in_use c @ [a]"
      "capacity c2 = capacity c" by (simp_all add: c2_def)
    have tab2: "table_inv (heap c2) (table c)" unfolding c2(1) by (rule table_inv_heap[OF tab]) (rule keys)
    have ka: "key_of (heap c2) a = Some (hash, key)" by (simp add: c2 key_of_def)
    obtain old t where ins: "table_insert (heap c2) (table c) a = Some (old, t)"
      "found_in (key_of (heap c2)) ?hs (hash, key) old" "table_inv (heap c2) t"
      "table_handles t = insert a (?hs - set_option old)"
      using table_insert_inv[OF tab2 a(4) ka] by blast
    have old: "set_option old \<subseteq> ?hs" using ins(2) by (auto simp: found_in_def split: option.splits)
    have found: "found_in (key_of (heap c)) ?hs (hash, key) old"
      using ins(2) keys unfolding c2(1) by (cases old) (auto simp: found_in_def)
    have "entry_ok c2 ?cl b" for b
      by (cases "b = a") (use a others[of b c2] in \<open>auto simp: entry_ok_def c2\<close>)
    moreover have "usage c2 = sum (charge_of (heap c2)) (insert a ?hs)"
      using a(4) l charges by (simp add: c2 c2_def lists_inv_def charge_of_def)
    ultimately have "lists_inv (c2\<lparr>table := t\<rparr>) ?cl (insert a ?hs)"
      using l a by (simp add: lists_inv_def c2)
    moreover have "table_handles (table (c2\<lparr>table := t\<rparr>)) = insert a ?hs - set_option old"
      using ins(4) old a(4) by auto
    moreover have "set_option old \<subseteq> insert a ?hs" using old by blast
    ultimately obtain c3 where c3: "finish_erase old (c2\<lparr>table := t\<rparr>) = Some (old \<noteq> None, c3)" "cache_inv c3 ?cl"
      "capacity c3 = capacity c2" "lru c3 = (case old of None \<Rightarrow> lru c2 | Some b \<Rightarrow> remove1 b (lru c2))"
      "in_use c3 = (case old of None \<Rightarrow> in_use c2 | Some b \<Rightarrow> remove1 b (in_use c2))"
      "\<forall>b. b \<notin> set_option old \<longrightarrow> heap c3 b = heap c2 b"
      using drop_found[of "c2\<lparr>table := t\<rparr>" ?cl "insert a ?hs" old] ins(3)
      by (cases old) (auto simp del: insert_subset)
    have ao: "a \<notin> set_option old" using a(4) old by blast
    then have "heap c3 a = heap c2 a" using c3(6) by blast
    then have a3: "a \<in> set (in_use c3)" "a \<notin> set (lru c3)" "heap c3 a = heap c2 a"
      using a ao c3(4,5) c2(3,4) by (auto split: option.splits simp: remove1_append dest: notin_set_remove1)
    obtain c4 where c4: "evict_loop c3 = Some c4" "cache_inv c4 ?cl" "capacity c4 = capacity c3"
      "usage c4 \<le> capacity c4 \<or> lru c4 = []" "\<exists>n. lru c4 = drop n (lru c3)" "in_use c4 = in_use c3" "\<forall>b. b \<notin> set (lru c3) \<longrightarrow> heap c4 b = heap c3 b"
      using evict_loop_inv[OF c3(2)] by blast
    have step1: "append_in_use a (set_entry a (?e\<lparr>h_refs := h_refs ?e + 1, h_in_cache := True\<rparr>) c)
        \<lparr>usage := usage (append_in_use a (set_entry a (?e\<lparr>h_refs := h_refs ?e + 1, h_in_cache := True\<rparr>) c)) + ch\<rparr> = c2"
      by (cases c) (simp add: append_in_use_def set_entry_def c2_def numeral_2_eq_2)
    have "cache_insert key hash val ch a c = Some (a, c4)"
      unfolding cache_insert_def Let_def step1 using True ins(1) c3(1) c4(1) by (simp add: c2(2))
    moreover have "key_of (heap c4) a = Some (hash, key)" using c4(7) a3 ka by (simp add: key_of_def)
    moreover have "map_option h_value (heap c4 a) = Some val" using c4(7) a3 c2(1) by simp
    moreover have "lru c3 = filter (\<lambda>b. key_of (heap c) b \<noteq> Some (hash, key)) (lru c)"
      using lru_without_key[OF inv found] unfolding c3(4) c2(3) .
    ultimately show ?thesis using c4 c3(3) c2(5) a3(1) by auto
  qed
qed

text \<open>What an entry holds does not change while it is allocated.\<close>

definition payload :: "'v lru_handle \<Rightarrow> slice \<times> u32 \<times> 'v \<times> nat" where
  "payload e = (h_key e, h_hash e, h_value e, h_charge e)"

definition keeps_payload :: "'v lru_cache \<Rightarrow> 'v lru_cache \<Rightarrow> bool" where
  "keeps_payload c c' \<longleftrightarrow> (\<forall>a e'. heap c' a = Some e' \<longrightarrow> map_option payload (heap c a) = Some (payload e'))"

lemma keeps_payload_refl [simp]: "heap c' = heap c \<Longrightarrow> keeps_payload c c'"
  by (simp add: keeps_payload_def)

lemma keeps_payload_trans: "keeps_payload c c1 \<Longrightarrow> keeps_payload c1 c2 \<Longrightarrow> keeps_payload c c2"
  by (fastforce simp: keeps_payload_def)

lemma lru_remove_heap: "lru_remove a c = Some c' \<Longrightarrow> heap c' = heap c"
  by (auto simp: lru_remove_def split: if_splits)

lemma cache_ref_keeps: "cache_ref a c = Some c' \<Longrightarrow> keeps_payload c c'"
  by (auto simp: cache_ref_def keeps_payload_def set_entry_def append_in_use_def payload_def bind_eq_Some_conv
      dest!: lru_remove_heap split: if_splits)

lemma un_ref_keeps: "un_ref a c = Some c' \<Longrightarrow> keeps_payload c c'"
  by (auto simp: un_ref_def keeps_payload_def set_entry_def append_lru_def payload_def Let_def bind_eq_Some_conv
      dest!: lru_remove_heap split: if_splits)

lemma finish_erase_keeps:
  assumes "finish_erase old c = Some (b, c')"
  shows "keeps_payload c c'"
proof (cases old)
  case None
  with assms show ?thesis by (simp add: finish_erase_def)
next
  case (Some a)
  with assms obtain e c1 where "heap c a = Some e" "heap c1 = heap c"
    "un_ref a ((set_entry a (e\<lparr>h_in_cache := False\<rparr>) c1)\<lparr>usage := usage c1 - h_charge e\<rparr>) = Some c'"
    by (auto simp: finish_erase_def bind_eq_Some_conv dest: lru_remove_heap split: if_splits)
  moreover from this have "keeps_payload c ((set_entry a (e\<lparr>h_in_cache := False\<rparr>) c1)\<lparr>usage := usage c1 - h_charge e\<rparr>)"
    by (auto simp: keeps_payload_def set_entry_def payload_def)
  ultimately show ?thesis by (blast intro: keeps_payload_trans un_ref_keeps)
qed

lemma evict_oldest_keeps: "evict_oldest c = Some c' \<Longrightarrow> keeps_payload c c'"
  by (auto simp: evict_oldest_def keeps_payload_def bind_eq_Some_conv split: if_splits dest!: finish_erase_keeps)

lemma evict_loop_keeps: "evict_loop c = Some c' \<Longrightarrow> keeps_payload c c'"
proof (induction c rule: evict_loop.induct)
  case (1 c)
  then show ?case
    by (subst (asm) (2) evict_loop.simps)
      (auto split: if_splits option.splits dest: evict_oldest_keeps intro: keeps_payload_trans)
qed

lemma prune_loop_keeps: "prune_loop c = Some c' \<Longrightarrow> keeps_payload c c'"
proof (induction c rule: prune_loop.induct)
  case (1 c)
  then show ?case
    by (subst (asm) (2) prune_loop.simps)
      (auto split: if_splits option.splits dest: evict_oldest_keeps intro: keeps_payload_trans)
qed

lemma ctor_total: "\<exists>c :: 'v lru_cache. lru_cache_ctor (\<lambda>_. None) = Some c"
  using table_ctor_inv[of "\<lambda>_. None :: 'v lru_handle option"] by (auto simp: lru_cache_ctor_def)

lemma ctor_inv:
  fixes c :: "'v lru_cache"
  assumes "lru_cache_ctor (\<lambda>_. None) = Some c"
  shows "cache_inv (set_capacity n c) (\<lambda>_. 0)"
  using assms table_ctor_inv[of "\<lambda>_. None :: 'v lru_handle option"]
  by (auto simp: lru_cache_ctor_def set_capacity_def cache_inv_def lists_inv_def entry_ok_def)

section \<open>Clients\<close>

text \<open>
  A client releases the handles it got from \<open>insert\<close> and \<open>look_up\<close>, each at most once, and
  \<open>malloc\<close> returns an address that is not in use.  \<open>cl\<close> counts the handles it holds.
\<close>

inductive cache_step ::
  "'v lru_cache \<Rightarrow> (nat \<Rightarrow> nat) \<Rightarrow> 'v lru_cache \<Rightarrow> (nat \<Rightarrow> nat) \<Rightarrow> bool" where
  insert_hit: "heap c a = None \<Longrightarrow> cache_insert key hash val ch a c = Some (h, c') \<Longrightarrow>
    cache_step c cl c' (cl(h := Suc (cl h)))"
| look_up_hit: "cache_look_up key hash c = Some (Some h, c') \<Longrightarrow> cache_step c cl c' (cl(h := Suc (cl h)))"
| look_up_miss: "cache_look_up key hash c = Some (None, c') \<Longrightarrow> cache_step c cl c' cl"
| released: "0 < cl h \<Longrightarrow> cache_release h c = Some c' \<Longrightarrow> cache_step c cl c' (cl(h := cl h - 1))"
| erased: "cache_erase key hash c = Some c' \<Longrightarrow> cache_step c cl c' cl"
| pruned: "cache_prune c = Some c' \<Longrightarrow> cache_step c cl c' cl"

inductive cache_reach :: "nat \<Rightarrow> 'v lru_cache \<Rightarrow> (nat \<Rightarrow> nat) \<Rightarrow> bool" for cap :: nat where
  start: "lru_cache_ctor (\<lambda>_. None) = Some c \<Longrightarrow> cache_reach cap (set_capacity cap c) (\<lambda>_. 0)"
| step: "cache_reach cap c cl \<Longrightarrow> cache_step c cl c' cl' \<Longrightarrow> cache_reach cap c' cl'"

lemma held_fresh: "cache_inv c cl \<Longrightarrow> heap c a = None \<Longrightarrow> cl a = 0"
  by (auto simp: cache_inv_def lists_inv_def entry_ok_def dest: spec[of _ a])

lemma held_entry: "cache_inv c cl \<Longrightarrow> 0 < cl a \<Longrightarrow> \<exists>e. heap c a = Some e"
  using held_fresh by (cases "heap c a") fastforce+

lemma cache_step_inv:
  assumes "cache_step c cl c' cl'" "cache_inv c cl"
  shows "cache_inv c' cl' \<and> capacity c' = capacity c"
  using assms
proof (cases rule: cache_step.cases)
  case (insert_hit a key hash val ch h)
  have "cl a = 0" by (rule held_fresh[OF assms(2) insert_hit(2)])
  with insert_inv[OF assms(2) insert_hit(2), of key hash val ch] insert_hit show ?thesis by auto
next
  case (look_up_hit key hash h)
  with look_up_inv[OF assms(2), of key hash] show ?thesis by auto
next
  case (look_up_miss key hash)
  with look_up_inv[OF assms(2), of key hash] show ?thesis by auto
next
  case (released h)
  with release_inv[OF assms(2) released(2)] show ?thesis by auto
next
  case (erased key hash)
  with erase_inv[OF assms(2), of key hash] show ?thesis by auto
next
  case pruned
  with prune_loop_inv[OF assms(2)] show ?thesis by (auto simp: cache_prune_def)
qed

lemma cache_reach_inv: "cache_reach cap c cl \<Longrightarrow> cache_inv c cl \<and> capacity c = cap"
proof (induction rule: cache_reach.induct)
  case (start c)
  with ctor_inv[of c cap] show ?case by (simp add: set_capacity_def)
qed (auto dest: cache_step_inv)

lemma found_handle:
  assumes inv: "cache_inv c cl" and a: "a \<in> set (in_use c)" "key_of (heap c) a = Some (hash, key)"
  shows "\<exists>c'. cache_look_up key hash c = Some (Some a, c')"
proof -
  obtain r c' where r: "cache_look_up key hash c = Some (r, c')"
    "found_in (key_of (heap c)) (table_handles (table c)) (hash, key) r"
    using look_up_inv[OF inv] by blast
  have "a \<in> table_handles (table c)" using inv a(1) by (auto simp: cache_inv_def lists_inv_def)
  then have "found_in (key_of (heap c)) (table_handles (table c)) (hash, key) (Some a)"
    using a(2) by (simp add: found_in_def)
  then have "r = Some a" using hash_table.found_unique r(2) inv unfolding cache_inv_def by blast
  with r(1) show ?thesis by blast
qed

lemma destroy_loop_frees:
  assumes "distinct as" "\<forall>a \<in> set as. \<exists>e. heap c a = Some e \<and> h_in_cache e \<and> h_refs e = 1"
  shows "\<exists>c'. destroy_loop as c = Some c' \<and> heap c' = (\<lambda>a. if a \<in> set as then None else heap c a)
    \<and> deleter_calls c' = deleter_calls c @ map (\<lambda>a. (h_key (the (heap c a)), h_value (the (heap c a)))) as"
  using assms
proof (induction as arbitrary: c)
  case (Cons a as)
  then obtain e where e: "heap c a = Some e" "h_in_cache e" "h_refs e = 1" by auto
  let ?c = "c\<lparr>heap := (heap c)(a := None), deleter_calls := deleter_calls c @ [(h_key e, h_value e)]\<rparr>"
  have "un_ref a (set_entry a (e\<lparr>h_in_cache := False\<rparr>) c) = Some ?c"
    using e by (cases c) (simp add: un_ref_def set_entry_def Let_def)
  moreover obtain c' where "destroy_loop as ?c = Some c'" "heap c' = (\<lambda>b. if b \<in> set as then None else heap ?c b)"
    "deleter_calls c' = deleter_calls ?c @ map (\<lambda>b. (h_key (the (heap ?c b)), h_value (the (heap ?c b)))) as"
    using Cons.IH[of ?c] Cons.prems by fastforce
  ultimately show ?case using e Cons.prems(1) by (auto simp: fun_eq_iff)
qed (simp add: fun_eq_iff)

lemma dtor_frees:
  assumes inv: "cache_inv c (\<lambda>_. 0)"
  shows "\<exists>c'. lru_cache_dtor c = Some c' \<and> (\<forall>a. heap c' a = None) \<and> distinct (lru c)
    \<and> set (lru c) = {a. heap c a \<noteq> None}
    \<and> deleter_calls c' = deleter_calls c @ map (\<lambda>a. (h_key (the (heap c a)), h_value (the (heap c a)))) (lru c)"
proof -
  from inv have ok: "\<forall>a. entry_ok c (\<lambda>_. 0) a" and d: "distinct (lru c)" by (auto simp: cache_inv_def lists_inv_def)
  have live: "a \<in> set (lru c) \<longleftrightarrow> (\<exists>e. heap c a = Some e \<and> h_in_cache e \<and> h_refs e = 1)"
      "a \<notin> set (in_use c)" "heap c a \<noteq> None \<longleftrightarrow> a \<in> set (lru c)" for a
    using ok[rule_format, of a] by (auto simp: entry_ok_def split: option.splits if_splits)
  have empty: "in_use c = []" using live(2) by (cases "in_use c") auto
  have "set (lru c) = {a. heap c a \<noteq> None}" using live(3) by blast
  with destroy_loop_frees[OF d, of c] live(1) empty show ?thesis
    by (force simp: lru_cache_dtor_def d)
qed

lemma keeps_payloadD:
  "heap c a = Some e \<Longrightarrow> heap c' a = Some e' \<Longrightarrow> keeps_payload c c' \<Longrightarrow>
    \<exists>e e'. heap c a = Some e \<and> heap c' a = Some e' \<and> payload e' = payload e"
  by (fastforce simp: keeps_payload_def)

lemma look_up_keeps: "cache_look_up key hash c = Some (r, c') \<Longrightarrow> keeps_payload c c'"
  by (auto simp: cache_look_up_def bind_eq_Some_conv split: option.splits dest: cache_ref_keeps)

lemma erase_keeps:
  assumes "cache_erase key hash c = Some c'" shows "keeps_payload c c'"
proof -
  obtain old t b where "finish_erase old (c\<lparr>table := t\<rparr>) = Some (b, c')"
    using assms by (auto simp: cache_erase_def bind_eq_Some_conv)
  from finish_erase_keeps[OF this] show ?thesis by (simp add: keeps_payload_def)
qed

lemma insert_keeps:
  assumes "heap c a = None" "cache_insert key hash val ch a c = Some (h, c')" "heap c b = Some e" "heap c' b = Some e'"
  shows "\<exists>e e'. heap c b = Some e \<and> heap c' b = Some e' \<and> payload e' = payload e"
proof -
  have ne: "b \<noteq> a" using assms(1,3) by auto
  obtain c3 where c3: "evict_loop c3 = Some c'" and start: "\<exists>c2. keeps_payload c2 c3 \<and> heap c2 b = heap c b"
  proof (cases "0 < capacity c")
    case False
    then obtain x where "evict_loop (set_entry a x c) = Some c'"
      using assms(2) by (auto simp: cache_insert_def Let_def)
    moreover have "\<exists>c2. keeps_payload c2 (set_entry a x c) \<and> heap c2 b = heap c b"
      using ne by (intro exI[of _ "set_entry a x c"]) (simp add: set_entry_def)
    ultimately show ?thesis by (rule that)
  next
    case True
    then obtain c2 old t x c3 where "finish_erase old (c2\<lparr>table := t\<rparr>) = Some (x, c3)" "evict_loop c3 = Some c'"
      "heap c2 b = heap c b"
      using assms(2) ne by (auto simp: cache_insert_def Let_def set_entry_def append_in_use_def bind_eq_Some_conv)
    with that finish_erase_keeps show ?thesis by fastforce
  qed
  have "keeps_payload c3 c'" by (rule evict_loop_keeps[OF c3])
  with start assms(3,4) show ?thesis by (fastforce simp: keeps_payload_def)
qed

section \<open>A concrete cache\<close>

definition empty_cache :: "nat \<Rightarrow> nat lru_cache" where
  "empty_cache cap = \<lparr>capacity = cap, usage = 0, lru = [], in_use = [],
     table = \<lparr>ht_length = 4, ht_elems = 0, ht_list = [[], [], [], []]\<rparr>, heap = \<lambda>_. None, deleter_calls = []\<rparr>"

definition one_entry :: "nat \<Rightarrow> nat \<Rightarrow> nat lru_cache" where
  "one_entry cap refs = \<lparr>capacity = cap, usage = 1, lru = (if refs = 1 then [7] else []),
     in_use = (if refs = 1 then [] else [7]),
     table = \<lparr>ht_length = 4, ht_elems = 1, ht_list = [[], [7], [], []]\<rparr>,
     heap = [7 \<mapsto> \<lparr>h_value = 42, h_charge = 1, h_key = [97], h_in_cache = True, h_refs = refs, h_hash = 5\<rparr>],
     deleter_calls = []\<rparr>"

lemma new_length_0: "new_length 0 = 4"
  by (simp add: new_length_def while_unfold)

lemma empty_cache_ctor: "map_option (set_capacity cap) (lru_cache_ctor (\<lambda>_. None)) = Some (empty_cache cap)"
  by (simp add: lru_cache_ctor_def table_ctor_def table_resize_def new_length_0 set_capacity_def
      empty_cache_def Let_def eval_nat_numeral)

lemma empty_cache_reach: "cache_reach cap (empty_cache cap) (\<lambda>_. 0)"
proof -
  obtain c :: "nat lru_cache" where c: "lru_cache_ctor (\<lambda>_. None) = Some c" "set_capacity cap c = empty_cache cap"
    using empty_cache_ctor[of cap] by (cases "lru_cache_ctor (\<lambda>_. None) :: nat lru_cache option") auto
  from cache_reach.start[OF c(1), of cap] c(2) show ?thesis by simp
qed

lemma bucket_5_4: "bucket 5 4 = 1"
  by (simp add: bucket_def)

lemma empty_cache_insert:
  "0 < cap \<Longrightarrow> cache_insert [97] 5 42 1 7 (empty_cache cap) = Some (7, one_entry cap (Suc (Suc 0)))"
  by (simp add: cache_insert_def empty_cache_def one_entry_def append_in_use_def set_entry_def table_insert_def
      bucket_5_4 slot_def finish_erase_def evict_loop.simps)

lemma one_entry_reach: "cache_reach 2 (one_entry 2 2) ((\<lambda>_. 0)(7 := 1))"
  using cache_reach.step[OF empty_cache_reach cache_step.insert_hit[OF _ empty_cache_insert[of 2]]]
  by (simp add: empty_cache_def numeral_2_eq_2)

lemma one_entry_release: "cache_release 7 (one_entry 2 2) = Some (one_entry 2 1)"
  by (simp add: cache_release_def un_ref_def one_entry_def set_entry_def lru_remove_def append_lru_def Let_def)

lemma unused_entry_reach: "cache_reach 2 (one_entry 2 1) (\<lambda>_. 0)"
proof -
  have "((\<lambda>_. 0)(7 := 1))(7 := ((\<lambda>_. 0)(7 := 1)) 7 - 1) = (\<lambda>_ :: nat. 0 :: nat)" by auto
  with cache_reach.step[OF one_entry_reach cache_step.released[OF _ one_entry_release]] show ?thesis by simp
qed

section \<open>Properties\<close>

text \<open>
  No operation of a client that follows the protocol fails an assertion, touches a freed entry
  or unlinks an entry that is on no list, whatever it did before.
\<close>

theorem cache_operations_return:
  assumes "cache_reach cap c cl"
  shows "cache_look_up key hash c \<noteq> None \<and> (heap c a = None \<longrightarrow> cache_insert key hash val ch a c \<noteq> None)
    \<and> (0 < cl h \<longrightarrow> cache_release h c \<noteq> None) \<and> cache_erase key hash c \<noteq> None \<and> cache_prune c \<noteq> None"
proof -
  have inv: "cache_inv c cl" using cache_reach_inv[OF assms] by blast
  have "cache_look_up key hash c \<noteq> None" using look_up_inv[OF inv] by force
  moreover have "heap c a = None \<longrightarrow> cache_insert key hash val ch a c \<noteq> None" using insert_inv[OF inv] by force
  moreover have "0 < cl h \<longrightarrow> cache_release h c \<noteq> None" using release_inv[OF inv] by force
  moreover have "cache_erase key hash c \<noteq> None" using erase_inv[OF inv] by force
  moreover have "cache_prune c \<noteq> None" using prune_loop_inv[OF inv] by (force simp: cache_prune_def)
  ultimately show ?thesis by blast
qed

theorem cache_operations_return_witness:
  "cache_release 7 (one_entry 2 2) \<noteq> None \<and> cache_insert [98] 1 43 1 8 (one_entry 2 2) \<noteq> None"
  using cache_operations_return[OF one_entry_reach, of "[98]" 1 8 43 1 7] by (simp add: one_entry_def)







text \<open>
  C24. The hash table is a map from keys: after an insertion the key of the new entry is found at the
  new entry, after a removal the key is not found, and every other key is found where it was, also
  when the insertion resized the table.
\<close>

theorem table_is_a_map:
  assumes "table_inv m t" "table_look_up m t key hash = Some r"
  shows "(a \<notin> table_handles t \<and> m a = Some e \<and> table_insert m t a = Some (old, t') \<longrightarrow>
      table_look_up m t' key hash = Some (if hash = h_hash e \<and> key = h_key e then Some a else r))
    \<and> (table_remove m t key' hash' = Some (old, t') \<longrightarrow>
      table_look_up m t' key hash = Some (if hash = hash' \<and> key = key' then None else r))"
  using hash_table.look_insert[OF assms(1), of a "(h_hash e, h_key e)" old t' "(hash, key)" r]
    hash_table.look_remove[OF assms(1), of "(hash', key')" old t' "(hash, key)" r] assms(2)
  by (auto simp: key_of_Some)

theorem table_is_a_map_witness:
  "\<exists>t old t'. table_ctor [7 \<mapsto> \<lparr>h_value = 42 :: nat, h_charge = 1, h_key = [97], h_in_cache = True, h_refs = 1, h_hash = 5\<rparr>] = Some t
    \<and> table_insert [7 \<mapsto> \<lparr>h_value = 42 :: nat, h_charge = 1, h_key = [97], h_in_cache = True, h_refs = 1, h_hash = 5\<rparr>] t 7 = Some (old, t')
    \<and> table_look_up [7 \<mapsto> \<lparr>h_value = 42 :: nat, h_charge = 1, h_key = [97], h_in_cache = True, h_refs = 1, h_hash = 5\<rparr>] t' [97] 5 = Some (Some 7)"
proof -
  let ?e = "\<lparr>h_value = 42 :: nat, h_charge = 1, h_key = [97], h_in_cache = True, h_refs = 1, h_hash = 5\<rparr>"
  let ?m = "[7 \<mapsto> ?e]"
  obtain t where t: "table_ctor ?m = Some t" "table_inv ?m t" "table_handles t = {}"
    using table_ctor_inv[of ?m] by blast
  obtain r where "table_look_up ?m t [97] 5 = Some r" using table_look_up_inv[OF t(2)] by blast
  moreover obtain old t' where "table_insert ?m t 7 = Some (old, t')"
    using table_insert_inv[OF t(2), of 7 5 "[97]"] t(3) by (auto simp: key_of_def)
  ultimately show ?thesis using table_is_a_map[OF t(2), of "[97]" 5 r 7 ?e old t'] t by auto
qed

section \<open>Shards\<close>

definition sharded_inv :: "nat \<Rightarrow> 'v sharded_lru_cache \<Rightarrow> (nat \<Rightarrow> nat \<Rightarrow> nat) \<Rightarrow> bool" where
  "sharded_inv cap s cls \<longleftrightarrow> length (shards s) = kNumShards \<and> (\<forall>i < kNumShards. cache_reach cap (shards s ! i) (cls i))"

lemma shard_of_less [simp]: "shard_of hash < kNumShards"
proof -
  have "unat hash < 2 ^ 32" using unsigned_less[of hash] by simp
  then have "unat hash div 2 ^ 28 < 2 ^ 4" by (intro less_mult_imp_div_less) simp
  then show ?thesis by (simp add: shard_of_def kNumShards_def kNumShardBits_def drop_bit_eq_div unat_div_distrib)
qed

lemma sharded_ctor_inv:
  "\<exists>s :: 'v sharded_lru_cache. sharded_ctor cap = Some s \<and> sharded_inv ((cap + 15) div 16) s (\<lambda>_ _. 0)
    \<and> (\<forall>i < kNumShards. heap (shards s ! i) a = None)"
proof -
  obtain c :: "'v lru_cache" where c: "lru_cache_ctor (\<lambda>_. None) = Some c" using ctor_total by blast
  then have "heap c = (\<lambda>_. None)" by (auto simp: lru_cache_ctor_def)
  with c show ?thesis
    by (simp add: sharded_ctor_def sharded_inv_def cache_reach.start set_capacity_def[symmetric] Let_def
        kNumShards_def kNumShardBits_def) (simp add: set_capacity_def)
qed

text \<open>
  In the sharded cache an inserted key is found, with the inserted value, and only the shard of
  the key's hash changes.
\<close>

theorem sharded_insert_look_up:
  assumes "sharded_inv cap s cls" "0 < cap" "heap (shards s ! shard_of (hash_slice key)) a = None"
  shows "\<exists>h s' s''. sharded_insert key val ch a s = Some (h, s') \<and> sharded_value h s' = Some val
    \<and> sharded_look_up key s' = Some (Some h, s'')
    \<and> (\<forall>i. i \<noteq> shard_of (hash_slice key) \<longrightarrow> shards s' ! i = shards s ! i)"
proof -
  let ?h = "hash_slice key" and ?i = "shard_of (hash_slice key)"
  have inv: "cache_inv (shards s ! ?i) (cls ?i)" "capacity (shards s ! ?i) = cap" and len: "?i < length (shards s)"
    using assms(1) cache_reach_inv shard_of_less unfolding sharded_inv_def by metis+
  obtain c where c: "cache_insert key ?h val ch a (shards s ! ?i) = Some (a, c)" "cache_inv c ((cls ?i)(a := 1))"
    "a \<in> set (in_use c)" "key_of (heap c) a = Some (?h, key)" "map_option h_value (heap c a) = Some val"
    using insert_inv[OF inv(1) assms(3), of key ?h val ch] inv(2) assms(2) by auto
  obtain c2 where "cache_look_up key ?h c = Some (Some a, c2)" using found_handle[OF c(2-4)] by blast
  with c len show ?thesis
    by (auto simp: sharded_insert_def sharded_look_up_def sharded_value_def on_shard_def Let_def)
qed

theorem sharded_insert_look_up_witness:
  "\<exists>s h s' s''. sharded_ctor 32 = Some s \<and> sharded_insert [97] (42 :: nat) 1 7 s = Some (h, s')
    \<and> sharded_value h s' = Some 42 \<and> sharded_look_up [97] s' = Some (Some h, s'')"
proof -
  obtain s :: "nat sharded_lru_cache" where s: "sharded_ctor 32 = Some s" "sharded_inv 2 s (\<lambda>_ _. 0)"
    "\<forall>i < kNumShards. heap (shards s ! i) 7 = None" using sharded_ctor_inv[of 32 7] by auto
  with sharded_insert_look_up[OF s(2), of "[97]" 7 42 1] show ?thesis by auto
qed

end
