(* ===== verification/Lru_Links.thy ===== *)
theory Lru_Links
  imports Lru_Cache Handle_Chains
begin

text \<open>
  \<open>lru_cache\<close> of \<open>src/leveldb/cache.cc\<close> with its pointers.  The two circular lists run through the
  \<open>next\<close> and \<open>prev\<close> of the entries around the members \<open>lru_\<close> and \<open>in_use_\<close>, whose addresses are 0
  and 1, and the hash table through their \<open>next_hash\<close>.  A null pointer is \<open>None\<close>; a load or a store
  through a null pointer or in a freed entry and a failed assertion make an operation \<open>None\<close>.  The
  block \<open>malloc\<close> returns is an address with its contents, which are arbitrary.  The lemmas show what
  the links are after each change of them.
\<close>

record 'v lru_links =
  ll_capacity :: nat
  ll_usage :: nat
  ll_table :: chain_table
  ll_heap :: "'v entries"
  ll_calls :: "(slice \<times> 'v) list"

definition lru_head :: nat where "lru_head = 0"
definition in_use_head :: nat where "in_use_head = 1"

section \<open>Links\<close>

definition store_next :: "nat option \<Rightarrow> nat option \<Rightarrow> 'v entries \<Rightarrow> 'v entries option" where
  "store_next p q h = Option.bind p (\<lambda>a. map_option (\<lambda>e. h(a \<mapsto> e\<lparr>e_next := q\<rparr>)) (h a))"

definition store_prev :: "nat option \<Rightarrow> nat option \<Rightarrow> 'v entries \<Rightarrow> 'v entries option" where
  "store_prev p q h = Option.bind p (\<lambda>a. map_option (\<lambda>e. h(a \<mapsto> e\<lparr>e_prev := q\<rparr>)) (h a))"

definition link_remove :: "nat \<Rightarrow> 'v entries \<Rightarrow> 'v entries option" where
  "link_remove a h =
     Option.bind (h a) (\<lambda>e.
     Option.bind (store_prev (e_next e) (e_prev e) h) (\<lambda>h1.
     Option.bind (h1 a) (\<lambda>e1. store_next (e_prev e1) (e_next e1) h1)))"

definition link_append :: "nat \<Rightarrow> nat \<Rightarrow> 'v entries \<Rightarrow> 'v entries option" where
  "link_append l a h =
     Option.bind (store_next (Some a) (Some l) h) (\<lambda>h1.
     Option.bind (h1 l) (\<lambda>head.
     Option.bind (store_prev (Some a) (e_prev head) h1) (\<lambda>h2.
     Option.bind (h2 a) (\<lambda>e2.
     Option.bind (store_next (e_prev e2) (Some a) h2) (\<lambda>h3.
     Option.bind (h3 a) (\<lambda>e3. store_prev (e_next e3) (Some a) h3))))))"

section \<open>References\<close>

definition links_ref :: "nat \<Rightarrow> 'v lru_links \<Rightarrow> 'v lru_links option" where
  "links_ref a c =
     Option.bind (ll_heap c a) (\<lambda>e.
     Option.bind
       (if h_refs e = 1 \<and> h_in_cache e
        then Option.bind (link_remove a (ll_heap c)) (link_append in_use_head a)
        else Some (ll_heap c)) (\<lambda>h.
     Option.bind (h a) (\<lambda>e1. Some (c\<lparr>ll_heap := h(a \<mapsto> e1\<lparr>h_refs := h_refs e1 + 1\<rparr>)\<rparr>))))"

definition links_un_ref :: "nat \<Rightarrow> 'v lru_links \<Rightarrow> 'v lru_links option" where
  "links_un_ref a c =
     Option.bind (ll_heap c a) (\<lambda>e.
       if \<not> 0 < h_refs e then None
       else
         let e1 = e\<lparr>h_refs := h_refs e - 1\<rparr>; h1 = (ll_heap c)(a \<mapsto> e1)
         in if h_refs e1 = 0 then
              (if h_in_cache e1 then None
               else Option.bind (entry_key h1 a) (\<lambda>key.
                 Some (c\<lparr>ll_heap := h1(a := None), ll_calls := ll_calls c @ [(key, h_value e1)]\<rparr>)))
            else if h_in_cache e1 \<and> h_refs e1 = 1
            then map_option (\<lambda>h. c\<lparr>ll_heap := h\<rparr>) (Option.bind (link_remove a h1) (link_append lru_head a))
            else Some (c\<lparr>ll_heap := h1\<rparr>))"

definition links_finish_erase :: "nat option \<Rightarrow> 'v lru_links \<Rightarrow> (bool \<times> 'v lru_links) option" where
  "links_finish_erase p c =
     (case p of
        None \<Rightarrow> Some (False, c)
      | Some a \<Rightarrow>
          Option.bind (ll_heap c a) (\<lambda>e.
            if \<not> h_in_cache e then None
            else
              Option.bind (link_remove a (ll_heap c)) (\<lambda>h.
              Option.bind (h a) (\<lambda>e1.
                map_option (Pair True)
                  (links_un_ref a (c\<lparr>ll_heap := h(a \<mapsto> e1\<lparr>h_in_cache := False\<rparr>), ll_usage := ll_usage c - h_charge e1\<rparr>))))))"

section \<open>Operations\<close>

definition links_ctor :: "'v entries \<Rightarrow> 'v lru_links option" where
  "links_ctor h =
     Option.bind (chain_ctor h) (\<lambda>(h0, t).
     Option.bind (store_next (Some lru_head) (Some lru_head) h0) (\<lambda>h1.
     Option.bind (store_prev (Some lru_head) (Some lru_head) h1) (\<lambda>h2.
     Option.bind (store_next (Some in_use_head) (Some in_use_head) h2) (\<lambda>h3.
     Option.bind (store_prev (Some in_use_head) (Some in_use_head) h3) (\<lambda>h4.
       Some \<lparr>ll_capacity = 0, ll_usage = 0, ll_table = t, ll_heap = h4, ll_calls = []\<rparr>)))))"

definition links_set_capacity :: "nat \<Rightarrow> 'v lru_links \<Rightarrow> 'v lru_links" where
  "links_set_capacity n c = c\<lparr>ll_capacity := n\<rparr>"

definition links_evict :: "nat \<Rightarrow> 'v lru_links \<Rightarrow> 'v lru_links option" where
  "links_evict a c =
     Option.bind (ll_heap c a) (\<lambda>e.
       if h_refs e \<noteq> 1 then None
       else
         Option.bind (entry_key (ll_heap c) a) (\<lambda>key.
         Option.bind (chain_remove (ll_heap c) (ll_table c) key (h_hash e)) (\<lambda>(old, h, t).
         Option.bind (links_finish_erase old (c\<lparr>ll_heap := h, ll_table := t\<rparr>)) (\<lambda>(erased, c1).
           if erased then Some c1 else None))))"

partial_function (option) links_evict_loop :: "'v lru_links \<Rightarrow> 'v lru_links option" where
  "links_evict_loop c =
     (if ll_capacity c < ll_usage c
      then Option.bind (ll_heap c lru_head) (\<lambda>head.
             if e_next head \<noteq> Some lru_head
             then Option.bind (Option.bind (e_next head) (\<lambda>old. links_evict old c)) links_evict_loop
             else Some c)
      else Some c)"

partial_function (option) links_prune_loop :: "'v lru_links \<Rightarrow> 'v lru_links option" where
  "links_prune_loop c =
     Option.bind (ll_heap c lru_head) (\<lambda>head.
       if e_next head \<noteq> Some lru_head
       then Option.bind (Option.bind (e_next head) (\<lambda>e. links_evict e c)) links_prune_loop
       else Some c)"

definition links_look_up :: "slice \<Rightarrow> u32 \<Rightarrow> 'v lru_links \<Rightarrow> (nat option \<times> 'v lru_links) option" where
  "links_look_up key hash c =
     Option.bind (chain_look_up (ll_heap c) (ll_table c) key hash) (\<lambda>r.
       case r of None \<Rightarrow> Some (None, c) | Some a \<Rightarrow> map_option (Pair (Some a)) (links_ref a c))"

definition links_release :: "nat \<Rightarrow> 'v lru_links \<Rightarrow> 'v lru_links option" where
  "links_release a c = links_un_ref a c"

definition links_insert ::
  "slice \<Rightarrow> u32 \<Rightarrow> 'v \<Rightarrow> nat \<Rightarrow> nat \<Rightarrow> 'v lru_entry \<Rightarrow> 'v lru_links \<Rightarrow> (nat \<times> 'v lru_links) option" where
  "links_insert key hash val charge a block c =
     (let e = block\<lparr>h_value := val, h_charge := charge, h_key := key, h_hash := hash, h_in_cache := False, h_refs := 1\<rparr>
      in Option.bind
        (if 0 < ll_capacity c then
           let e1 = e\<lparr>h_refs := h_refs e + 1, h_in_cache := True\<rparr>
           in Option.bind (link_append in_use_head a ((ll_heap c)(a \<mapsto> e1))) (\<lambda>h.
              Option.bind (chain_insert h (ll_table c) a) (\<lambda>(old, h1, t).
                map_option snd (links_finish_erase old (c\<lparr>ll_usage := ll_usage c + charge, ll_heap := h1, ll_table := t\<rparr>))))
         else Some (c\<lparr>ll_heap := (ll_heap c)(a \<mapsto> e\<lparr>e_next := None\<rparr>)\<rparr>))
        (\<lambda>c1. map_option (Pair a) (links_evict_loop c1)))"

definition links_erase :: "slice \<Rightarrow> u32 \<Rightarrow> 'v lru_links \<Rightarrow> 'v lru_links option" where
  "links_erase key hash c =
     Option.bind (chain_remove (ll_heap c) (ll_table c) key hash) (\<lambda>(old, h, t).
       map_option snd (links_finish_erase old (c\<lparr>ll_heap := h, ll_table := t\<rparr>)))"

definition links_prune :: "'v lru_links \<Rightarrow> 'v lru_links option" where
  "links_prune c = links_prune_loop c"

definition links_total_charge :: "'v lru_links \<Rightarrow> nat" where
  "links_total_charge c = ll_usage c"

text \<open>The destructor reads the next entry before it frees this one.\<close>

partial_function (option) links_destroy_loop :: "nat option \<Rightarrow> 'v lru_links \<Rightarrow> 'v lru_links option" where
  "links_destroy_loop p c =
     (if p = Some lru_head then Some c
      else Option.bind p (\<lambda>a. Option.bind (ll_heap c a) (\<lambda>e.
        if \<not> h_in_cache e then None
        else if h_refs e \<noteq> 1 then None
        else Option.bind (links_un_ref a (c\<lparr>ll_heap := (ll_heap c)(a \<mapsto> e\<lparr>h_in_cache := False\<rparr>)\<rparr>))
               (links_destroy_loop (e_next e)))))"

definition links_dtor :: "'v lru_links \<Rightarrow> 'v lru_links option" where
  "links_dtor c =
     Option.bind (ll_heap c in_use_head) (\<lambda>used.
       if e_next used \<noteq> Some in_use_head then None
       else Option.bind (ll_heap c lru_head) (\<lambda>head. links_destroy_loop (e_next head) c))"

section \<open>Stores to the links\<close>

text \<open>A change of the list links; it changes nothing else.\<close>

definition relinked :: "'v entries \<Rightarrow> 'v entries \<Rightarrow> bool" where
  "relinked h h' \<longleftrightarrow> plain h' = plain h \<and> nhash h' = nhash h"

lemma relinked_refl [simp]: "relinked h h"
  by (simp add: relinked_def)

lemma relinked_trans: "relinked h h1 \<Longrightarrow> relinked h1 h2 \<Longrightarrow> relinked h h2"
  by (simp add: relinked_def)

lemma plain_None [simp]: "plain h a = None \<longleftrightarrow> h a = None"
  by (simp add: plain_def)

lemma relinked_alive: "relinked h h' \<Longrightarrow> h' a = None \<longleftrightarrow> h a = None"
  by (metis plain_None relinked_def)

lemma store_next_view:
  assumes "h a \<noteq> None"
  shows "\<exists>h'. store_next (Some a) q h = Some h' \<and> nxt h' = (nxt h)(a := q) \<and> prv h' = prv h \<and> relinked h h'"
proof -
  obtain e where e: "h a = Some e" using assms by auto
  let ?h = "h(a \<mapsto> e\<lparr>e_next := q\<rparr>)"
  have "store_next (Some a) q h = Some ?h" using e by (simp add: store_next_def)
  moreover have "nxt ?h = (nxt h)(a := q)" "prv ?h = prv h" "relinked h ?h"
    using e by (simp_all add: nxt_def prv_def relinked_def plain_def nhash_def fun_eq_iff lru_handle.truncate_def)
  ultimately show ?thesis by blast
qed

lemma store_prev_view:
  assumes "h a \<noteq> None"
  shows "\<exists>h'. store_prev (Some a) q h = Some h' \<and> prv h' = (prv h)(a := q) \<and> nxt h' = nxt h \<and> relinked h h'"
proof -
  obtain e where e: "h a = Some e" using assms by auto
  let ?h = "h(a \<mapsto> e\<lparr>e_prev := q\<rparr>)"
  have "store_prev (Some a) q h = Some ?h" using e by (simp add: store_prev_def)
  moreover have "nxt ?h = nxt h" "prv ?h = (prv h)(a := q)" "relinked h ?h"
    using e by (simp_all add: nxt_def prv_def relinked_def plain_def nhash_def fun_eq_iff lru_handle.truncate_def)
  ultimately show ?thesis by blast
qed

lemma linksD: "nxt h a = Some n \<Longrightarrow> \<exists>e. h a = Some e \<and> e_next e = Some n"
    "prv h a = Some n \<Longrightarrow> \<exists>e. h a = Some e \<and> e_prev e = Some n"
  by (auto simp: nxt_def prv_def bind_eq_Some_conv)

lemma link_remove_ring:
  assumes r: "ring s (nxt h) (prv h) (us @ a # vs)" and alive: "\<forall>b \<in> set (s # us @ a # vs). h b \<noteq> None"
  defines "p \<equiv> last (s # us)" and "n \<equiv> hd (vs @ [s])"
  shows "\<exists>h'. link_remove a h = Some h' \<and> nxt h' = (nxt h)(p := Some n) \<and> prv h' = (prv h)(n := Some p) \<and> relinked h h'
    \<and> ring s (nxt h') (prv h') (us @ vs)"
proof -
  have u: "nxt h a = Some n" "prv h a = Some p" "p \<noteq> a" "n \<noteq> a"
    "ring s ((nxt h)(p := Some n)) ((prv h)(n := Some p)) (us @ vs)"
    using ring_unlink[OF r, of p n] by (simp_all add: p_def n_def)
  have "p \<in> set (s # us)" "n \<in> set (vs @ [s])" by (auto simp: p_def n_def hd_append)
  then have pn: "h p \<noteq> None" "h n \<noteq> None" using alive by auto
  obtain e where e: "h a = Some e" "e_next e = Some n" "e_prev e = Some p" using linksD(1)[OF u(1)] linksD(2)[OF u(2)] by auto
  obtain h1 where h1: "store_prev (Some n) (Some p) h = Some h1" "prv h1 = (prv h)(n := Some p)" "nxt h1 = nxt h" "relinked h h1"
    using store_prev_view[of h n "Some p"] pn by blast
  have "nxt h1 a = Some n" "prv h1 a = Some p" using h1(2,3) u(1,2,4) by simp_all
  then obtain e1 where e1: "h1 a = Some e1" "e_next e1 = Some n" "e_prev e1 = Some p"
    using linksD(1)[of h1 a n] linksD(2)[of h1 a p] by auto
  obtain h2 where h2: "store_next (Some p) (Some n) h1 = Some h2" "nxt h2 = (nxt h1)(p := Some n)" "prv h2 = prv h1" "relinked h1 h2"
    using store_next_view[of h1 p "Some n"] pn(1) relinked_alive[OF h1(4)] by auto
  have "link_remove a h = Some h2" using e h1(1) e1 h2(1) by (simp add: link_remove_def)
  then show ?thesis using h1 h2 u(5) relinked_trans[OF h1(4) h2(4)] by simp
qed

lemma link_append_ring:
  assumes r: "ring s (nxt h) (prv h) xs" and a: "a \<notin> set (s # xs)" "h a \<noteq> None"
    and alive: "\<forall>b \<in> set (s # xs). h b \<noteq> None"
  defines "l \<equiv> last (s # xs)"
  shows "\<exists>h'. link_append s a h = Some h' \<and> nxt h' = (nxt h)(a := Some s, l := Some a)
    \<and> prv h' = (prv h)(a := Some l, s := Some a) \<and> relinked h h' \<and> ring s (nxt h') (prv h') (xs @ [a])"
proof -
  have l: "l \<in> set (s # xs)" unfolding l_def by (rule last_in_set) simp
  then have la: "l \<noteq> a" "s \<noteq> a" using a(1) by auto
  have ps: "prv h s = Some l" using ring_ends[OF r] by (simp add: l_def)
  obtain h1 where h1: "store_next (Some a) (Some s) h = Some h1" "nxt h1 = (nxt h)(a := Some s)" "prv h1 = prv h" "relinked h h1"
    using store_next_view[of h a "Some s"] a(2) by blast
  have "prv h1 s = Some l" using h1(3) ps by simp
  then obtain e1 where e1: "h1 s = Some e1" "e_prev e1 = Some l" using linksD(2) by blast
  have "h1 a \<noteq> None" using a(2) relinked_alive[OF h1(4)] by simp
  then obtain h2 where h2: "store_prev (Some a) (Some l) h1 = Some h2" "prv h2 = (prv h1)(a := Some l)" "nxt h2 = nxt h1" "relinked h1 h2"
    using store_prev_view[of h1 a "Some l"] by blast
  have "prv h2 a = Some l" using h2(2) by simp
  then obtain e2 where e2: "h2 a = Some e2" "e_prev e2 = Some l" using linksD(2) by blast
  note r2 = relinked_trans[OF h1(4) h2(4)]
  have "h2 l \<noteq> None" using alive l relinked_alive[OF r2] by auto
  then obtain h3 where h3: "store_next (Some l) (Some a) h2 = Some h3" "nxt h3 = (nxt h2)(l := Some a)" "prv h3 = prv h2" "relinked h2 h3"
    using store_next_view[of h2 l "Some a"] by blast
  have "nxt h3 a = Some s" using h3(2) h2(3) h1(2) la(1) by simp
  then obtain e3 where e3: "h3 a = Some e3" "e_next e3 = Some s" using linksD(1) by blast
  note r3 = relinked_trans[OF r2 h3(4)]
  have "h3 s \<noteq> None" using alive relinked_alive[OF r3] by auto
  then obtain h4 where h4: "store_prev (Some s) (Some a) h3 = Some h4" "prv h4 = (prv h3)(s := Some a)" "nxt h4 = nxt h3" "relinked h3 h4"
    using store_prev_view[of h3 s "Some a"] by blast
  have run: "link_append s a h = Some h4" using h1(1) e1 h2(1) e2 h3(1) e3 h4(1) by (simp add: link_append_def)
  have views: "nxt h4 = (nxt h)(a := Some s, l := Some a)" "prv h4 = (prv h)(a := Some l, s := Some a)"
    using h1 h2 h3 h4 by simp_all
  show ?thesis using run views relinked_trans[OF r3 h4(4)] ring_append[OF r a(1), of l] by (auto simp: l_def)
qed

text \<open>The other list is not touched, and no entry becomes the head of an empty list.\<close>

lemma link_remove_two:
  assumes r: "ring s (nxt h) (prv h) (us @ a # vs)" and r': "ring s' (nxt h) (prv h) ys"
    and dis: "set (s # us @ a # vs) \<inter> set (s' # ys) = {}" and alive: "\<forall>b \<in> set (s # us @ a # vs). h b \<noteq> None"
    and ent: "entries_for h m" "m s = None"
  shows "\<exists>h'. link_remove a h = Some h' \<and> relinked h h' \<and> ring s (nxt h') (prv h') (us @ vs)
    \<and> ring s' (nxt h') (prv h') ys \<and> entries_for h' m"
proof -
  define p n where "p = last (s # us)" and "n = hd (vs @ [s])"
  obtain h' where h': "link_remove a h = Some h'" "nxt h' = (nxt h)(p := Some n)" "prv h' = (prv h)(n := Some p)"
    "relinked h h'" "ring s (nxt h') (prv h') (us @ vs)"
    using link_remove_ring[OF r alive] by (auto simp: p_def n_def)
  have pn: "p \<in> set (s # us)" "n \<in> set (vs @ [s])" by (auto simp: p_def n_def hd_append)
  have "p \<notin> set (s' # ys)" "n \<notin> set (s' # ys)" using pn dis by auto
  then have "ring s' (nxt h') (prv h') ys" by (intro ring_cong[OF r']) (auto simp: h'(2,3))
  moreover have "nxt h' b \<noteq> Some b" if b: "m b \<noteq> None" for b
  proof (cases "b = p")
    case True
    then have "p \<in> set us" using pn(1) ent(2) b by auto
    then have "n \<noteq> p" using pn(2) r by (auto simp: ring_def)
    with True show ?thesis by (simp add: h'(2))
  next
    case False
    then show ?thesis using ent(1) b by (auto simp: h'(2) entries_for_def)
  qed
  moreover have "plain h' = plain h" using h'(4) by (simp add: relinked_def)
  ultimately show ?thesis using h'(1,4,5) ent(1) by (auto simp: entries_for_def)
qed

lemma link_append_two:
  assumes r: "ring s (nxt h) (prv h) xs" and r': "ring s' (nxt h) (prv h) ys"
    and a: "a \<notin> set (s # xs)" "a \<notin> set (s' # ys)" "m a \<noteq> None" "plain h a = m a"
    and dis: "set (s # xs) \<inter> set (s' # ys) = {}" and alive: "\<forall>b \<in> set (s # xs). h b \<noteq> None"
    and ent: "entries_for h (m(a := None))" "m s = None"
  shows "\<exists>h'. link_append s a h = Some h' \<and> relinked h h' \<and> ring s (nxt h') (prv h') (xs @ [a])
    \<and> ring s' (nxt h') (prv h') ys \<and> entries_for h' m"
proof -
  define l where "l = last (s # xs)"
  have "h a \<noteq> None" using a(3,4) by (metis plain_None)
  then obtain h' where h': "link_append s a h = Some h'" "nxt h' = (nxt h)(a := Some s, l := Some a)"
    "prv h' = (prv h)(a := Some l, s := Some a)" "relinked h h'" "ring s (nxt h') (prv h') (xs @ [a])"
    using link_append_ring[OF r a(1) _ alive] by (auto simp: l_def)
  have l: "l \<in> set (s # xs)" unfolding l_def by (rule last_in_set) simp
  have "ring s' (nxt h') (prv h') ys" by (rule ring_cong[OF r']) (use a(2) l dis in \<open>auto simp: h'(2,3)\<close>)
  moreover have "nxt h' b \<noteq> Some b" if b: "m b \<noteq> None" for b
    using a(1,3) l ent b by (auto simp: h'(2) entries_for_def)
  moreover have "plain h' b = m b" if "m b \<noteq> None" for b
    using ent(1) a(4) that h'(4) by (cases "b = a") (auto simp: entries_for_def relinked_def)
  ultimately show ?thesis using h'(1,4,5) by (auto simp: entries_for_def)
qed

section \<open>The two lists\<close>

definition listed :: "'v entries \<Rightarrow> 'v heap \<Rightarrow> nat list \<Rightarrow> nat list \<Rightarrow> bool" where
  "listed h m xs ys \<longleftrightarrow> ring lru_head (nxt h) (prv h) xs \<and> ring in_use_head (nxt h) (prv h) ys
     \<and> set xs \<inter> set ys = {} \<and> entries_for h m \<and> set xs \<union> set ys \<subseteq> dom m
     \<and> h lru_head \<noteq> None \<and> h in_use_head \<noteq> None \<and> m lru_head = None \<and> m in_use_head = None"

lemma entries_for_alive: "entries_for h m \<Longrightarrow> m a \<noteq> None \<Longrightarrow> h a \<noteq> None"
  by (metis entries_for_def plain_None)

lemma listedD:
  assumes "listed h m xs ys"
  shows "ring lru_head (nxt h) (prv h) xs" "ring in_use_head (nxt h) (prv h) ys"
    "set (lru_head # xs) \<inter> set (in_use_head # ys) = {}" "set (in_use_head # ys) \<inter> set (lru_head # xs) = {}"
    "entries_for h m" "\<forall>b \<in> set (lru_head # xs). h b \<noteq> None" "\<forall>b \<in> set (in_use_head # ys). h b \<noteq> None"
    "m lru_head = None" "m in_use_head = None" "set xs \<union> set ys \<subseteq> dom m"
proof -
  show r: "ring lru_head (nxt h) (prv h) xs" "ring in_use_head (nxt h) (prv h) ys" "entries_for h m"
    and m: "m lru_head = None" "m in_use_head = None" "set xs \<union> set ys \<subseteq> dom m"
    using assms unfolding listed_def by blast+
  have "lru_head \<noteq> in_use_head" by (simp add: lru_head_def in_use_head_def)
  moreover have "lru_head \<notin> set ys" "in_use_head \<notin> set xs" using m by blast+
  moreover have "set xs \<inter> set ys = {}" using assms unfolding listed_def by blast
  ultimately show "set (lru_head # xs) \<inter> set (in_use_head # ys) = {}" by auto
  then show "set (in_use_head # ys) \<inter> set (lru_head # xs) = {}" by blast
  have "h b \<noteq> None" if "b \<in> set xs \<union> set ys" for b using entries_for_alive[OF r(3), of b] that m(3) by blast
  moreover have "h lru_head \<noteq> None" "h in_use_head \<noteq> None" using assms unfolding listed_def by blast+
  ultimately show "\<forall>b \<in> set (lru_head # xs). h b \<noteq> None" "\<forall>b \<in> set (in_use_head # ys). h b \<noteq> None" by simp_all
qed

text \<open>The same heads, after links have changed.\<close>

lemma listed_again:
  assumes "listed h m0 xs0 ys0" "dom h \<subseteq> dom h'" "m lru_head = None" "m in_use_head = None"
    "ring lru_head (nxt h') (prv h') xs" "ring in_use_head (nxt h') (prv h') ys" "entries_for h' m"
    "set xs \<inter> set ys = {}" "set xs \<union> set ys \<subseteq> dom m"
  shows "listed h' m xs ys"
proof -
  have "lru_head \<in> dom h" "in_use_head \<in> dom h" using assms(1) by (auto simp: listed_def)
  then have "h' lru_head \<noteq> None" "h' in_use_head \<noteq> None" using assms(2) by blast+
  then show ?thesis using assms unfolding listed_def by blast
qed

lemma relinked_dom: "relinked h h' \<Longrightarrow> dom h' = dom h"
  using relinked_alive[of h h'] by (auto simp: dom_def)

lemma listed_remove:
  assumes l: "listed h m xs ys" and a: "a \<in> set xs \<union> set ys"
  shows "\<exists>h'. link_remove a h = Some h' \<and> relinked h h' \<and> listed h' m (remove1 a xs) (remove1 a ys)"
proof -
  note d = listedD[OF l]
  have "set (remove1 a xs) \<subseteq> set xs" "set (remove1 a ys) \<subseteq> set ys" by (rule set_remove1_subset)+
  then have sets: "set (remove1 a xs) \<inter> set (remove1 a ys) = {}" "set (remove1 a xs) \<union> set (remove1 a ys) \<subseteq> dom m"
    using d(3,10) unfolding list.set by blast+
  have fin: ?thesis if "\<exists>h'. link_remove a h = Some h' \<and> relinked h h' \<and> ring lru_head (nxt h') (prv h') (remove1 a xs)
    \<and> ring in_use_head (nxt h') (prv h') (remove1 a ys) \<and> entries_for h' m"
    using that listed_again[OF l equalityD1[OF relinked_dom[symmetric]] d(8,9) _ _ _ sets] by blast
  show ?thesis
  proof (cases "a \<in> set xs")
    case True
    then obtain us vs where xs: "xs = us @ a # vs" "a \<notin> set us" by (meson split_list_first)
    have "a \<notin> set ys" using True d(3) by auto
    then have "remove1 a xs = us @ vs" "remove1 a ys = ys" using xs by (auto simp: remove1_append remove1_idem)
    moreover have "\<exists>h'. link_remove a h = Some h' \<and> relinked h h' \<and> ring lru_head (nxt h') (prv h') (us @ vs)
      \<and> ring in_use_head (nxt h') (prv h') ys \<and> entries_for h' m"
      by (rule link_remove_two[OF d(1)[unfolded xs(1)] d(2) d(3)[unfolded xs(1)] d(6)[unfolded xs(1)] d(5,8)])
    ultimately show ?thesis using fin by simp
  next
    case False
    then obtain us vs where ys: "ys = us @ a # vs" "a \<notin> set us" using a by (meson UnE split_list_first)
    have "remove1 a ys = us @ vs" "remove1 a xs = xs" using ys False by (auto simp: remove1_append remove1_idem)
    moreover have "\<exists>h'. link_remove a h = Some h' \<and> relinked h h' \<and> ring in_use_head (nxt h') (prv h') (us @ vs)
      \<and> ring lru_head (nxt h') (prv h') xs \<and> entries_for h' m"
      by (rule link_remove_two[OF d(2)[unfolded ys(1)] d(1) d(4)[unfolded ys(1)] d(7)[unfolded ys(1)] d(5,9)])
    ultimately show ?thesis using fin by auto
  qed
qed

lemma listed_append:
  assumes l: "listed h (m(a := None)) xs ys" and a: "a \<notin> {lru_head, in_use_head}" "m a \<noteq> None" "plain h a = m a"
  shows "\<exists>h'. link_append lru_head a h = Some h' \<and> relinked h h' \<and> listed h' m (xs @ [a]) ys"
    "\<exists>h'. link_append in_use_head a h = Some h' \<and> relinked h h' \<and> listed h' m xs (ys @ [a])"
proof -
  note d = listedD[OF l]
  have n: "a \<notin> set (lru_head # xs)" "a \<notin> set (in_use_head # ys)" using d(10) a(1) by auto
  have heads: "m lru_head = None" "m in_use_head = None" using d(8,9) a(1) by (simp_all split: if_splits)
  have sub: "set xs \<union> set ys \<union> {a} \<subseteq> dom m" using d(10) a(2) by auto
  note again = listed_again[OF l equalityD1[OF relinked_dom[symmetric]] heads]
  obtain h' where h': "link_append lru_head a h = Some h'" "relinked h h'" "ring lru_head (nxt h') (prv h') (xs @ [a])"
    "ring in_use_head (nxt h') (prv h') ys" "entries_for h' m"
    using link_append_two[OF d(1,2) n a(2,3) d(3,6,5) heads(1)] by blast
  have "listed h' m (xs @ [a]) ys" by (rule again[OF h'(2-5)]) (use d(3) n sub in auto)
  then show "\<exists>h'. link_append lru_head a h = Some h' \<and> relinked h h' \<and> listed h' m (xs @ [a]) ys" using h'(1,2) by blast
  obtain g where g: "link_append in_use_head a h = Some g" "relinked h g" "ring in_use_head (nxt g) (prv g) (ys @ [a])"
    "ring lru_head (nxt g) (prv g) xs" "entries_for g m"
    using link_append_two[OF d(2,1) n(2,1) a(2,3) d(4,7,5) heads(2)] by blast
  have "listed g m xs (ys @ [a])" by (rule again[OF g(2,4,3,5)]) (use d(3) n sub in auto)
  then show "\<exists>h'. link_append in_use_head a h = Some h' \<and> relinked h h' \<and> listed h' m xs (ys @ [a])" using g(1,2) by blast
qed

lemma listed_weaken: "listed h m xs ys \<Longrightarrow> a \<notin> set xs \<union> set ys \<Longrightarrow> listed h (m(a := None)) xs ys"
  by (auto simp: listed_def entries_for_def)

lemma listed_move:
  assumes l: "listed h m xs ys" and a: "a \<in> set xs \<union> set ys"
  shows "\<exists>h'. Option.bind (link_remove a h) (link_append lru_head a) = Some h' \<and> relinked h h'
      \<and> listed h' m (remove1 a xs @ [a]) (remove1 a ys)"
    "\<exists>h'. Option.bind (link_remove a h) (link_append in_use_head a) = Some h' \<and> relinked h h'
      \<and> listed h' m (remove1 a xs) (remove1 a ys @ [a])"
proof -
  note d = listedD[OF l]
  have m: "m a \<noteq> None" using a d(10) by blast
  then have p: "plain h a = m a" "a \<notin> {lru_head, in_use_head}" using d(5,8,9) by (auto simp: entries_for_def)
  have "distinct xs" "distinct ys" using d(1,2) by (simp_all add: ring_def)
  then have n: "a \<notin> set (remove1 a xs) \<union> set (remove1 a ys)" by simp
  obtain h1 where h1: "link_remove a h = Some h1" "relinked h h1" "listed h1 m (remove1 a xs) (remove1 a ys)"
    using listed_remove[OF l a] by blast
  have p1: "plain h1 a = m a" using h1(2) p(1) by (simp add: relinked_def)
  note app = listed_append[OF listed_weaken[OF h1(3) n] p(2) m p1]
  show "\<exists>h'. Option.bind (link_remove a h) (link_append lru_head a) = Some h' \<and> relinked h h'
      \<and> listed h' m (remove1 a xs @ [a]) (remove1 a ys)" using app(1) h1(1) relinked_trans[OF h1(2)] by auto
  show "\<exists>h'. Option.bind (link_remove a h) (link_append in_use_head a) = Some h' \<and> relinked h h'
      \<and> listed h' m (remove1 a xs) (remove1 a ys @ [a])" using app(2) h1(1) relinked_trans[OF h1(2)] by auto
qed

end
