(* ===== verification/Lru_Refinement.thy ===== *)
theory Lru_Refinement
  imports Lru_Cache_Inv Lru_Links
begin

text \<open>
  The cache with its pointers (\<open>Lru_Links\<close>) refines the cache on lists (\<open>Lru_Cache\<close>): the relation
  between the two, that every operation keeps it, the clients of the cache with its pointers, and
  the theorem that all that is proved on lists holds of the pointers.
\<close>

section \<open>The relation between the two models\<close>

definition links_rep :: "'v lru_links \<Rightarrow> 'v lru_cache \<Rightarrow> bool" where
  "links_rep c A \<longleftrightarrow> ll_capacity c = capacity A \<and> ll_usage c = usage A \<and> ll_calls c = deleter_calls A
     \<and> listed (ll_heap c) (heap A) (lru A) (in_use A) \<and> chained_table (ll_heap c) (ll_table c) (table A)
     \<and> dom (ll_heap c) = insert lru_head (insert in_use_head (dom (heap A))) \<and> table_inv (heap A) (table A)
     \<and> (\<forall>a \<in> set (lru A) \<union> set (in_use A) \<union> table_handles (table A). \<exists>x. heap A a = Some x \<and> h_in_cache x)"

lemma links_repD:
  assumes "links_rep c A"
  shows "ll_capacity c = capacity A" "ll_usage c = usage A" "ll_calls c = deleter_calls A"
    "listed (ll_heap c) (heap A) (lru A) (in_use A)" "chained_table (ll_heap c) (ll_table c) (table A)"
    "dom (ll_heap c) = insert lru_head (insert in_use_head (dom (heap A)))" "table_inv (heap A) (table A)"
    "\<forall>a \<in> set (lru A) \<union> set (in_use A) \<union> table_handles (table A). \<exists>x. heap A a = Some x \<and> h_in_cache x"
    "entries_for (ll_heap c) (heap A)"
  using assms listedD(5) unfolding links_rep_def by blast+

lemma rep_entry:
  assumes "links_rep c A" "heap A a = Some x"
  obtains e where "ll_heap c a = Some e" "lru_handle.truncate e = x" "entry_key (ll_heap c) a = Some (h_key x)"
    "h_refs e = h_refs x" "h_in_cache e = h_in_cache x" "h_hash e = h_hash x" "h_charge e = h_charge x" "h_value e = h_value x"
proof -
  obtain e where e: "ll_heap c a = Some e" "lru_handle.truncate e = x" "entry_key (ll_heap c) a = Some (h_key x)"
    by (rule entries_forD[OF links_repD(9)[OF assms(1)] assms(2)])
  show thesis by (rule that[OF e]) (use e(2) in auto)
qed

lemma chained_table_relinked: "chained_table h t T \<Longrightarrow> nhash h' = nhash h \<Longrightarrow> chained_table h' t T"
  by (simp add: chained_table_def)

lemma chained_table_other:
  assumes "chained_table h t T" "\<And>b. b \<in> table_handles T \<Longrightarrow> nhash h' b = nhash h b"
  shows "chained_table h' t T"
  using assms buckets_cong[of "nhash h" "ct_list t" "ht_list T" "nhash h'"]
  by (simp add: chained_table_def table_handles_def del: set_concat)

text \<open>Changed list links, with every listed entry cached.\<close>

lemma rep_lists:
  assumes r: "links_rep c A" and h: "relinked (ll_heap c) h" "listed h (heap A) xs ys"
    and m: "\<forall>a \<in> set xs \<union> set ys. \<exists>x. heap A a = Some x \<and> h_in_cache x"
  shows "links_rep (c\<lparr>ll_heap := h\<rparr>) (A\<lparr>lru := xs, in_use := ys\<rparr>)"
proof -
  have "chained_table h (ll_table c) (table A)"
    by (rule chained_table_relinked[OF links_repD(5)[OF r]]) (use h(1) in \<open>simp add: relinked_def\<close>)
  then show ?thesis using links_repD[OF r] h relinked_dom[OF h(1)] m by (simp add: links_rep_def ball_Un)
qed

text \<open>A changed entry; its links stay, and it stays cached if it is in a list or in the table.\<close>

definition same_links :: "'v lru_entry \<Rightarrow> 'v lru_entry \<Rightarrow> bool" where
  "same_links e e' \<longleftrightarrow> e_next e' = e_next e \<and> e_prev e' = e_prev e \<and> e_next_hash e' = e_next_hash e"

lemma same_links_views:
  assumes "h a = Some e" "same_links e e'"
  shows "nxt (h(a \<mapsto> e')) = nxt h" "prv (h(a \<mapsto> e')) = prv h" "nhash (h(a \<mapsto> e')) = nhash h"
    "plain (h(a \<mapsto> e')) = (plain h)(a \<mapsto> lru_handle.truncate e')"
  using assms by (auto simp: same_links_def nxt_def prv_def nhash_def plain_def fun_eq_iff)

lemma rep_update:
  assumes r: "links_rep c A" and e: "ll_heap c a = Some e" "heap A a = Some x" "same_links e e'"
    and k: "h_hash e' = h_hash x" "h_key e' = h_key x"
    and m: "a \<in> set (lru A) \<union> set (in_use A) \<union> table_handles (table A) \<Longrightarrow> h_in_cache e'"
  shows "links_rep (c\<lparr>ll_heap := (ll_heap c)(a \<mapsto> e')\<rparr>) (set_entry a (lru_handle.truncate e') A)"
proof -
  let ?h = "(ll_heap c)(a \<mapsto> e')" and ?m = "(heap A)(a \<mapsto> lru_handle.truncate e')"
  note d = links_repD[OF r] and v = same_links_views[of "ll_heap c", OF e(1,3)]
  note l = listedD[OF d(4)]
  have heads: "?m lru_head = None" "?m in_use_head = None" using l(8,9) e(2) by auto
  have ent: "entries_for ?h ?m" using l(5) e(2) v(1,4) by (auto simp: entries_for_def)
  have "listed ?h ?m (lru A) (in_use A)"
    by (rule listed_again[OF d(4) _ heads _ _ ent]) (use l(1,2,3,10) v in auto)
  moreover have "key_of ?m b = key_of (heap A) b" for b using k e(2) by (simp add: key_of_def)
  then have "table_inv ?m (table A)" using table_inv_heap[OF d(7)] by blast
  moreover have "chained_table ?h (ll_table c) (table A)" by (rule chained_table_relinked[OF d(5) v(3)])
  moreover have "dom ?h = insert lru_head (insert in_use_head (dom ?m))" using d(6) by auto
  moreover have "\<exists>x. ?m b = Some x \<and> h_in_cache x" if "b \<in> set (lru A) \<union> set (in_use A) \<union> table_handles (table A)" for b
    using m d(8) that by (cases "b = a") (auto simp del: Un_iff)
  ultimately show ?thesis using d(1-3) by (simp add: links_rep_def set_entry_def)
qed

lemma rep_free:
  assumes r: "links_rep c A" and a: "heap A a = Some x" "a \<notin> set (lru A) \<union> set (in_use A) \<union> table_handles (table A)"
  shows "links_rep (c\<lparr>ll_heap := (ll_heap c)(a := None), ll_calls := calls\<rparr>) (A\<lparr>heap := (heap A)(a := None), deleter_calls := calls\<rparr>)"
proof -
  let ?h = "(ll_heap c)(a := None)" and ?m = "(heap A)(a := None)"
  note d = links_repD[OF r]
  note l = listedD[OF d(4)]
  have na: "a \<notin> {lru_head, in_use_head}" using a(1) l(8,9) by auto
  have v: "nxt ?h b = nxt (ll_heap c) b" "prv ?h b = prv (ll_heap c) b" "nhash ?h b = nhash (ll_heap c) b"
    "plain ?h b = plain (ll_heap c) b" if "b \<noteq> a" for b using that by (simp_all add: nxt_def prv_def nhash_def plain_def)
  have "b \<noteq> a" if "b \<in> set (lru_head # lru A) \<union> set (in_use_head # in_use A)" for b using that a(2) na by auto
  note v' = v[OF this]
  have rings: "ring lru_head (nxt ?h) (prv ?h) (lru A)" "ring in_use_head (nxt ?h) (prv ?h) (in_use A)"
    by (rule ring_cong[OF l(1)]; rule v'; blast) (rule ring_cong[OF l(2)]; rule v'; blast)
  have "listed ?h ?m (lru A) (in_use A)"
    using d(4) rings v a(2) na unfolding listed_def entries_for_def by auto
  moreover have "table_inv ?m (table A)"
    by (rule table_inv_heap[OF d(7)]) (use a(2) in \<open>auto simp: key_of_def\<close>)
  moreover have "chained_table ?h (ll_table c) (table A)"
    by (rule chained_table_other[OF d(5)], rule v(3)) (use a(2) in blast)
  moreover have "dom ?h = insert lru_head (insert in_use_head (dom ?m))" using d(6) na by auto
  moreover have "\<exists>x. ?m b = Some x \<and> h_in_cache x" if "b \<in> set (lru A) \<union> set (in_use A) \<union> table_handles (table A)" for b
    using a(2) d(8) that by auto
  ultimately show ?thesis using d(1-3) by (simp add: links_rep_def)
qed

section \<open>Each operation refines the one on lists\<close>

lemma lru_remove_lists:
  assumes "links_rep c A" "lru_remove a A = Some A'"
  shows "A' = A\<lparr>lru := remove1 a (lru A), in_use := remove1 a (in_use A)\<rparr>" "a \<in> set (lru A) \<union> set (in_use A)"
proof -
  have "set (lru A) \<inter> set (in_use A) = {}" using listedD(3)[OF links_repD(4)[OF assms(1)]] by auto
  with assms(2) show "A' = A\<lparr>lru := remove1 a (lru A), in_use := remove1 a (in_use A)\<rparr>" "a \<in> set (lru A) \<union> set (in_use A)"
    by (auto simp: lru_remove_def remove1_idem disjoint_iff split: if_splits intro!: lru_cache.equality)
qed

text \<open>Moving an entry to the end of one of the lists.\<close>

lemma rep_move:
  assumes r: "links_rep c A" and rm: "lru_remove a A = Some A1"
  shows "\<exists>h. Option.bind (link_remove a (ll_heap c)) (link_append in_use_head a) = Some h
      \<and> links_rep (c\<lparr>ll_heap := h\<rparr>) (append_in_use a A1)"
    "\<exists>h. Option.bind (link_remove a (ll_heap c)) (link_append lru_head a) = Some h
      \<and> links_rep (c\<lparr>ll_heap := h\<rparr>) (append_lru a A1)"
proof -
  note a = lru_remove_lists[OF r rm] and d = links_repD[OF r]
  have m: "\<exists>x. heap A b = Some x \<and> h_in_cache x" if "b \<in> set (remove1 a (lru A)) \<union> set (remove1 a (in_use A)) \<union> {a}" for b
    using that d(8) a(2) set_remove1_subset[of a "lru A"] set_remove1_subset[of a "in_use A"] by blast
  obtain h where h: "Option.bind (link_remove a (ll_heap c)) (link_append in_use_head a) = Some h" "relinked (ll_heap c) h"
    "listed h (heap A) (remove1 a (lru A)) (remove1 a (in_use A) @ [a])" using listed_move(2)[OF d(4) a(2)] by blast
  have "links_rep (c\<lparr>ll_heap := h\<rparr>) (append_in_use a A1)"
    using rep_lists[OF r h(2,3)] m a(1) by (auto simp: append_in_use_def)
  then show "\<exists>h. Option.bind (link_remove a (ll_heap c)) (link_append in_use_head a) = Some h
      \<and> links_rep (c\<lparr>ll_heap := h\<rparr>) (append_in_use a A1)" using h(1) by blast
  obtain g where g: "Option.bind (link_remove a (ll_heap c)) (link_append lru_head a) = Some g" "relinked (ll_heap c) g"
    "listed g (heap A) (remove1 a (lru A) @ [a]) (remove1 a (in_use A))" using listed_move(1)[OF d(4) a(2)] by blast
  have "append_lru a A1 = A\<lparr>lru := remove1 a (lru A) @ [a], in_use := remove1 a (in_use A)\<rparr>"
    using a(1) by (simp add: append_lru_def)
  then have "links_rep (c\<lparr>ll_heap := g\<rparr>) (append_lru a A1)" using rep_lists[OF r g(2,3)] m by auto
  then show "\<exists>h. Option.bind (link_remove a (ll_heap c)) (link_append lru_head a) = Some h
      \<and> links_rep (c\<lparr>ll_heap := h\<rparr>) (append_lru a A1)" using g(1) by blast
qed

lemma same_links_refs [simp]: "same_links e (e\<lparr>h_refs := n\<rparr>)" "same_links e (e\<lparr>h_in_cache := b\<rparr>)"
  by (simp_all add: same_links_def)

lemma truncate_update [simp]:
  "lru_handle.truncate (e\<lparr>h_refs := n\<rparr>) = (lru_handle.truncate e)\<lparr>h_refs := n\<rparr>"
  "lru_handle.truncate (e\<lparr>h_in_cache := b\<rparr>) = (lru_handle.truncate e)\<lparr>h_in_cache := b\<rparr>"
  by (simp_all add: lru_handle.truncate_def)

lemma rep_set_refs:
  assumes r: "links_rep (c\<lparr>ll_heap := h\<rparr>) A" and x: "heap A a = Some x"
  obtains e where "h a = Some e" "h_refs e = h_refs x" "h_in_cache e = h_in_cache x"
    "\<And>n. links_rep (c\<lparr>ll_heap := h(a \<mapsto> e\<lparr>h_refs := n\<rparr>)\<rparr>) (set_entry a (x\<lparr>h_refs := n\<rparr>) A)"
proof -
  obtain e where e: "h a = Some e" "lru_handle.truncate e = x" by (rule rep_entry[OF r x]) simp
  have f: "h_hash e = h_hash x" "h_key e = h_key x" "h_refs e = h_refs x" "h_in_cache e = h_in_cache x"
    using truncate_simps[of e] unfolding e(2) by simp_all
  have m: "h_in_cache e" if "a \<in> set (lru A) \<union> set (in_use A) \<union> table_handles (table A)"
    using bspec[OF links_repD(8)[OF r] that] x f(4) by auto
  have "links_rep (c\<lparr>ll_heap := h(a \<mapsto> e\<lparr>h_refs := n\<rparr>)\<rparr>) (set_entry a (x\<lparr>h_refs := n\<rparr>) A)" for n
    using rep_update[OF r _ x, of e "e\<lparr>h_refs := n\<rparr>"] e f m by simp
  then show thesis using e(1) f that by blast
qed

lemma rep_uncache:
  assumes r: "links_rep (c\<lparr>ll_heap := h\<rparr>) A" and x: "heap A a = Some x"
    and out: "a \<notin> set (lru A) \<union> set (in_use A) \<union> table_handles (table A)"
  obtains e where "h a = Some e" "h_charge e = h_charge x"
    "links_rep (c\<lparr>ll_heap := h(a \<mapsto> e\<lparr>h_in_cache := False\<rparr>)\<rparr>) (set_entry a (x\<lparr>h_in_cache := False\<rparr>) A)"
proof -
  obtain e where e: "h a = Some e" "lru_handle.truncate e = x" by (rule rep_entry[OF r x]) simp
  have f: "h_hash e = h_hash x" "h_key e = h_key x" "h_charge e = h_charge x"
    using truncate_simps[of e] unfolding e(2) by simp_all
  have "links_rep (c\<lparr>ll_heap := h(a \<mapsto> e\<lparr>h_in_cache := False\<rparr>)\<rparr>) (set_entry a (x\<lparr>h_in_cache := False\<rparr>) A)"
    using rep_update[OF r _ x, of e "e\<lparr>h_in_cache := False\<rparr>"] e f out by simp
  then show thesis using e(1) f(3) that by blast
qed

lemma ref_refines:
  assumes r: "links_rep c A" and run: "cache_ref a A = Some A'"
  shows "\<exists>c'. links_ref a c = Some c' \<and> links_rep c' A'"
proof -
  obtain x A1 where x: "heap A a = Some x" "A' = set_entry a (x\<lparr>h_refs := h_refs x + 1\<rparr>) A1"
    and A1: "if h_refs x = 1 \<and> h_in_cache x then \<exists>A0. lru_remove a A = Some A0 \<and> A1 = append_in_use a A0 else A1 = A"
  proof -
    obtain x where x: "heap A a = Some x" using run by (auto simp: cache_ref_def bind_eq_Some_conv)
    then show thesis using run that[of x] by (cases "h_refs x = 1 \<and> h_in_cache x") (auto simp: cache_ref_def bind_eq_Some_conv)
  qed
  obtain e where e: "ll_heap c a = Some e" "h_refs e = h_refs x" "h_in_cache e = h_in_cache x"
    by (rule rep_entry[OF r x(1)])
  obtain h where h: "(if h_refs e = 1 \<and> h_in_cache e then Option.bind (link_remove a (ll_heap c)) (link_append in_use_head a)
      else Some (ll_heap c)) = Some h" "links_rep (c\<lparr>ll_heap := h\<rparr>) A1"
    using A1 rep_move(1)[OF r] r e(2,3) by (cases "h_refs x = 1 \<and> h_in_cache x") auto
  have x1: "heap A1 a = Some x" using A1 x(1) by (auto simp: append_in_use_def lru_remove_heap split: if_splits)
  obtain e1 where e1: "h a = Some e1" "h_refs e1 = h_refs x"
    "\<And>n. links_rep (c\<lparr>ll_heap := h(a \<mapsto> e1\<lparr>h_refs := n\<rparr>)\<rparr>) (set_entry a (x\<lparr>h_refs := n\<rparr>) A1)"
    by (rule rep_set_refs[OF h(2) x1]) (rule that)
  have "links_ref a c = Some (c\<lparr>ll_heap := h(a \<mapsto> e1\<lparr>h_refs := h_refs x + 1\<rparr>)\<rparr>)"
    using e(1) h(1) e1(1,2) by (simp add: links_ref_def)
  then show ?thesis using e1(3)[of "h_refs x + 1"] x(2) by blast
qed

text \<open>The branches of \<open>un_ref\<close> in both models.\<close>

lemma un_ref_eq:
  assumes "heap A a = Some x" "0 < h_refs x" and x1: "x1 = x\<lparr>h_refs := h_refs x - 1\<rparr>" and A1: "A1 = set_entry a x1 A"
  shows "un_ref a A =
      (if h_refs x1 = 0 then
        (if h_in_cache x1 then None
         else Some (A1\<lparr>deleter_calls := deleter_calls A1 @ [(h_key x1, h_value x1)], heap := (heap A1)(a := None)\<rparr>))
      else if h_in_cache x1 \<and> h_refs x1 = 1 then map_option (append_lru a) (lru_remove a A1) else Some A1)"
  by (simp only: un_ref_def assms(1,2) Let_def x1 A1 bind.bind_lunit not_True_eq_False if_False)

lemma links_un_ref_eq:
  assumes "ll_heap c a = Some e" "0 < h_refs e" and e1: "e1 = e\<lparr>h_refs := h_refs e - 1\<rparr>" and h1: "h1 = (ll_heap c)(a \<mapsto> e1)"
    and key: "entry_key h1 a = Some k"
  shows "links_un_ref a c =
      (if h_refs e1 = 0 then
        (if h_in_cache e1 then None
         else Some (c\<lparr>ll_heap := h1(a := None), ll_calls := ll_calls c @ [(k, h_value e1)]\<rparr>))
      else if h_in_cache e1 \<and> h_refs e1 = 1
      then map_option (\<lambda>h. c\<lparr>ll_heap := h\<rparr>) (Option.bind (link_remove a h1) (link_append lru_head a))
      else Some (c\<lparr>ll_heap := h1\<rparr>))"
  by (simp only: links_un_ref_def assms(1,2) Let_def e1[symmetric] h1[symmetric] key bind.bind_lunit not_True_eq_False if_False)

lemma un_ref_refines:
  assumes r: "links_rep c A" and run: "un_ref a A = Some A'"
  shows "\<exists>c'. links_un_ref a c = Some c' \<and> links_rep c' A'"
proof -
  obtain x where x: "heap A a = Some x" "0 < h_refs x" using run by (auto simp: un_ref_def bind_eq_Some_conv split: if_splits)
  define x1 A1 where "x1 = x\<lparr>h_refs := h_refs x - 1\<rparr>" and "A1 = set_entry a x1 A"
  note run1 = run[unfolded un_ref_eq[OF x x1_def A1_def]]
  have "links_rep (c\<lparr>ll_heap := ll_heap c\<rparr>) A" using r by simp
  from rep_set_refs[OF this x(1)] obtain e where e: "ll_heap c a = Some e" "h_refs e = h_refs x"
    "links_rep (c\<lparr>ll_heap := (ll_heap c)(a \<mapsto> e\<lparr>h_refs := h_refs x - 1\<rparr>)\<rparr>) A1"
    by (auto simp: A1_def x1_def)
  define e1 h1 where "e1 = e\<lparr>h_refs := h_refs e - 1\<rparr>" and "h1 = (ll_heap c)(a \<mapsto> e1)"
  have r1: "links_rep (c\<lparr>ll_heap := h1\<rparr>) A1" using e(2,3) by (simp add: h1_def e1_def)
  have ax: "heap A1 a = Some x1" by (simp add: A1_def set_entry_def)
  have k: "entry_key h1 a = Some (h_key x1)" "h_refs e1 = h_refs x1" "h_in_cache e1 = h_in_cache x1" "h_value e1 = h_value x1"
    by (rule rep_entry[OF r1 ax]; simp add: h1_def)+
  note conc = links_un_ref_eq[OF e(1) _ e1_def h1_def k(1), unfolded k e(2), OF x(2)]
  consider (freed) "h_refs x1 = 0" "\<not> h_in_cache x1" | (unused) "h_refs x1 \<noteq> 0" "h_in_cache x1" "h_refs x1 = 1"
    | (used) "h_refs x1 \<noteq> 0" "\<not> (h_in_cache x1 \<and> h_refs x1 = 1)"
    using run1 by (auto split: if_splits)
  then show ?thesis
  proof cases
    case freed
    have out: "a \<notin> set (lru A1) \<union> set (in_use A1) \<union> table_handles (table A1)"
      using bspec[OF links_repD(8)[OF r1], of a] ax freed(2) by auto
    have "A' = A1\<lparr>heap := (heap A1)(a := None), deleter_calls := deleter_calls A1 @ [(h_key x1, h_value x1)]\<rparr>"
      using run1 freed by (auto intro: lru_cache.equality)
    moreover have "ll_calls c = deleter_calls A1" using links_repD(3)[OF r1] by simp
    ultimately show ?thesis
      using rep_free[OF r1 ax out, of "ll_calls c @ [(h_key x1, h_value x1)]"] conc freed by simp
  next
    case unused
    then obtain A2 where A2: "lru_remove a A1 = Some A2" "A' = append_lru a A2" using run1 by auto
    show ?thesis using rep_move(2)[OF r1 A2(1)] A2(2) conc unused by auto
  next
    case used
    then show ?thesis using conc run1 r1 by auto
  qed
qed

lemma finish_erase_refines:
  assumes r: "links_rep c A" and out: "set_option p \<inter> table_handles (table A) = {}" and run: "finish_erase p A = Some (b, A')"
  shows "\<exists>c'. links_finish_erase p c = Some (b, c') \<and> links_rep c' A'"
proof (cases p)
  case None
  then show ?thesis using r run by (simp add: finish_erase_def links_finish_erase_def)
next
  case (Some a)
  obtain x A1 where x: "heap A a = Some x" "h_in_cache x" "lru_remove a A = Some A1" "b"
    and A': "un_ref a ((set_entry a (x\<lparr>h_in_cache := False\<rparr>) A1)\<lparr>usage := usage A1 - h_charge x\<rparr>) = Some A'"
    using run Some by (auto simp: finish_erase_def bind_eq_Some_conv split: if_splits)
  note a = lru_remove_lists[OF r x(3)] and d = links_repD[OF r]
  obtain e where e: "ll_heap c a = Some e" "h_in_cache e" using rep_entry[OF r x(1)] x(2) by auto
  obtain h where h: "link_remove a (ll_heap c) = Some h" "relinked (ll_heap c) h"
    "listed h (heap A) (remove1 a (lru A)) (remove1 a (in_use A))" using listed_remove[OF d(4) a(2)] by blast
  have "\<forall>v \<in> set (remove1 a (lru A)) \<union> set (remove1 a (in_use A)). \<exists>x. heap A v = Some x \<and> h_in_cache x"
    using d(8) set_remove1_subset[of a "lru A"] set_remove1_subset[of a "in_use A"] by blast
  then have r1: "links_rep (c\<lparr>ll_heap := h\<rparr>) A1" using rep_lists[OF r h(2,3)] a(1) by simp
  have "distinct (lru A)" "distinct (in_use A)" using listedD(1,2)[OF d(4)] by (simp_all add: ring_def)
  then have out1: "a \<notin> set (lru A1) \<union> set (in_use A1) \<union> table_handles (table A1)" using a(1) out Some by simp
  have x1: "heap A1 a = Some x" using a(1) x(1) by simp
  obtain e1 where e1: "h a = Some e1" "h_charge e1 = h_charge x"
    "links_rep (c\<lparr>ll_heap := h(a \<mapsto> e1\<lparr>h_in_cache := False\<rparr>)\<rparr>) (set_entry a (x\<lparr>h_in_cache := False\<rparr>) A1)"
    by (rule rep_uncache[OF r1 x1 out1])
  have "ll_usage c = usage A1" using links_repD(2)[OF r1] by simp
  then have "links_rep (c\<lparr>ll_heap := h(a \<mapsto> e1\<lparr>h_in_cache := False\<rparr>), ll_usage := ll_usage c - h_charge e1\<rparr>)
      ((set_entry a (x\<lparr>h_in_cache := False\<rparr>) A1)\<lparr>usage := usage A1 - h_charge x\<rparr>)"
    using e1(2,3) by (simp add: links_rep_def)
  from un_ref_refines[OF this A'] show ?thesis
    using e h(1) e1(1) Some x(4) by (auto simp: links_finish_erase_def)
qed

lemma rep_head:
  assumes "links_rep c A"
  shows "\<exists>head. ll_heap c lru_head = Some head \<and> e_next head = Some (hd (lru A @ [lru_head]))"
    "\<exists>head. ll_heap c in_use_head = Some head \<and> e_next head = Some (hd (in_use A @ [in_use_head]))"
  using ring_ends[OF listedD(1)[OF links_repD(4)[OF assms]]] ring_ends[OF listedD(2)[OF links_repD(4)[OF assms]]] linksD(1) by blast+

lemma rep_rechained:
  assumes r: "links_rep c A" and h: "rechained (ll_heap c) h" "chained_table h t T" "table_inv (heap A) T"
    "table_handles T \<subseteq> {a. \<exists>x. heap A a = Some x \<and> h_in_cache x}"
  shows "links_rep (c\<lparr>ll_heap := h, ll_table := t\<rparr>) (A\<lparr>table := T\<rparr>)"
proof -
  note d = links_repD[OF r]
  have v: "nxt h = nxt (ll_heap c)" "prv h = prv (ll_heap c)" "plain h = plain (ll_heap c)"
    using h(1) by (simp_all add: rechained_def)
  have dom: "dom h = dom (ll_heap c)" using arg_cong[OF v(3), of dom] by (simp add: dom_def)
  have "listed h (heap A) (lru A) (in_use A)"
    unfolding listed_def v(1,2)
    using d(4)[unfolded listed_def] entries_for_rechained[OF h(1) d(9)] dom by (simp add: set_eq_iff domIff)
  moreover have "\<forall>a \<in> set (lru A) \<union> set (in_use A) \<union> table_handles T. \<exists>x. heap A a = Some x \<and> h_in_cache x"
    using d(8) h(4) by blast
  ultimately show ?thesis using d(1-3,6) h(2,3) dom by (simp add: links_rep_def)
qed

text \<open>Taking an entry out of the table and finishing its erasure.\<close>

lemma remove_erase_refines:
  assumes r: "links_rep c A" and T: "table_remove (heap A) (table A) key hash = Some (old, T)"
    and run: "finish_erase old (A\<lparr>table := T\<rparr>) = Some (b, A')"
  shows "\<exists>h t c'. chain_remove (ll_heap c) (ll_table c) key hash = Some (old, h, t)
    \<and> links_finish_erase old (c\<lparr>ll_heap := h, ll_table := t\<rparr>) = Some (b, c') \<and> links_rep c' A'"
proof -
  note d = links_repD[OF r]
  have inv: "table_inv (heap A) T" "table_handles T = table_handles (table A) - set_option old"
    using table_remove_inv[OF d(7), of key hash] T by auto
  obtain h t where ht: "chain_remove (ll_heap c) (ll_table c) key hash = Some (old, h, t)" "rechained (ll_heap c) h"
    "chained_table h t T" using remove_refines[OF d(9,5,7) T] by blast
  have "table_handles T \<subseteq> {a. \<exists>x. heap A a = Some x \<and> h_in_cache x}" using d(8) inv(2) by blast
  then have "links_rep (c\<lparr>ll_heap := h, ll_table := t\<rparr>) (A\<lparr>table := T\<rparr>)"
    by (rule rep_rechained[OF r ht(2,3) inv(1)])
  from finish_erase_refines[OF this _ run] show ?thesis using ht(1) inv(2) by auto
qed

lemma erase_refines:
  assumes "links_rep c A" "cache_erase key hash A = Some A'"
  shows "\<exists>c'. links_erase key hash c = Some c' \<and> links_rep c' A'"
proof -
  obtain old T b where "table_remove (heap A) (table A) key hash = Some (old, T)"
    "finish_erase old (A\<lparr>table := T\<rparr>) = Some (b, A')"
    using assms(2) by (auto simp: cache_erase_def bind_eq_Some_conv)
  from remove_erase_refines[OF assms(1) this] show ?thesis by (auto simp: links_erase_def)
qed

lemma evict_refines:
  assumes r: "links_rep c A" and run: "evict_oldest A = Some A'"
  shows "\<exists>c'. links_evict (hd (lru A)) c = Some c' \<and> links_rep c' A'"
proof -
  let ?a = "hd (lru A)"
  obtain x old T where x: "heap A ?a = Some x" "h_refs x = 1"
    and T: "table_remove (heap A) (table A) (h_key x) (h_hash x) = Some (old, T)"
    "finish_erase old (A\<lparr>table := T\<rparr>) = Some (True, A')"
    using run by (auto simp: evict_oldest_def bind_eq_Some_conv split: if_splits)
  obtain e where e: "ll_heap c ?a = Some e" "entry_key (ll_heap c) ?a = Some (h_key x)" "h_refs e = h_refs x" "h_hash e = h_hash x"
    by (rule rep_entry[OF r x(1)])
  from remove_erase_refines[OF r T] show ?thesis using e x(2) by (auto simp: links_evict_def)
qed

lemma evict_loop_refines:
  "links_rep c A \<Longrightarrow> evict_loop A = Some A' \<Longrightarrow> \<exists>c'. links_evict_loop c = Some c' \<and> links_rep c' A'"
proof (induction A arbitrary: c rule: evict_loop.induct)
  case (1 A)
  obtain head where head: "ll_heap c lru_head = Some head" "e_next head = Some (hd (lru A @ [lru_head]))"
    using rep_head(1)[OF "1.prems"(1)] by blast
  have fields: "ll_capacity c = capacity A" "ll_usage c = usage A" using links_repD(1,2)[OF "1.prems"(1)] .
  have ne: "hd (lru A @ [lru_head]) \<noteq> lru_head \<longleftrightarrow> lru A \<noteq> []"
    using listedD(1)[OF links_repD(4)[OF "1.prems"(1)]] by (cases "lru A") (auto simp: ring_def)
  show ?case
  proof (cases "capacity A < usage A \<and> lru A \<noteq> []")
    case True
    then obtain A1 where A1: "evict_oldest A = Some A1" "evict_loop A1 = Some A'"
      using "1.prems"(2) by (subst (asm) evict_loop.simps) (auto split: option.splits)
    obtain c1 where c1: "links_evict (hd (lru A)) c = Some c1" "links_rep c1 A1" using evict_refines[OF "1.prems"(1) A1(1)] by blast
    have "links_evict_loop c = links_evict_loop c1"
      using True fields head ne c1(1) by (subst links_evict_loop.simps) simp
    then show ?thesis using "1.IH"[OF True A1(1) c1(2) A1(2)] by simp
  next
    case False
    then have "A' = A" using "1.prems"(2) by (subst (asm) evict_loop.simps) auto
    moreover have "links_evict_loop c = Some c"
      using False fields head ne by (subst links_evict_loop.simps) auto
    ultimately show ?thesis using "1.prems"(1) by simp
  qed
qed

lemma prune_loop_refines:
  "links_rep c A \<Longrightarrow> prune_loop A = Some A' \<Longrightarrow> \<exists>c'. links_prune_loop c = Some c' \<and> links_rep c' A'"
proof (induction A arbitrary: c rule: prune_loop.induct)
  case (1 A)
  obtain head where head: "ll_heap c lru_head = Some head" "e_next head = Some (hd (lru A @ [lru_head]))"
    using rep_head(1)[OF "1.prems"(1)] by blast
  have ne: "hd (lru A @ [lru_head]) \<noteq> lru_head \<longleftrightarrow> lru A \<noteq> []"
    using listedD(1)[OF links_repD(4)[OF "1.prems"(1)]] by (cases "lru A") (auto simp: ring_def)
  show ?case
  proof (cases "lru A = []")
    case False
    then obtain A1 where A1: "evict_oldest A = Some A1" "prune_loop A1 = Some A'"
      using "1.prems"(2) by (subst (asm) prune_loop.simps) (auto split: option.splits)
    obtain c1 where c1: "links_evict (hd (lru A)) c = Some c1" "links_rep c1 A1" using evict_refines[OF "1.prems"(1) A1(1)] by blast
    have "links_prune_loop c = links_prune_loop c1"
      using False head ne c1(1) by (subst links_prune_loop.simps) simp
    then show ?thesis using "1.IH"[OF False A1(1) c1(2) A1(2)] by simp
  next
    case True
    then have "A' = A" using "1.prems"(2) by (subst (asm) prune_loop.simps) auto
    moreover have "links_prune_loop c = Some c" using True head ne by (subst links_prune_loop.simps) auto
    ultimately show ?thesis using "1.prems"(1) by simp
  qed
qed

lemma look_up_refines_links:
  assumes r: "links_rep c A" and run: "cache_look_up key hash A = Some (q, A')"
  shows "\<exists>c'. links_look_up key hash c = Some (q, c') \<and> links_rep c' A'"
proof -
  note d = links_repD[OF r]
  obtain p where p: "table_look_up (heap A) (table A) key hash = Some p"
    "(case p of None \<Rightarrow> Some (None, A) | Some a \<Rightarrow> map_option (Pair (Some a)) (cache_ref a A)) = Some (q, A')"
    using run by (auto simp: cache_look_up_def bind_eq_Some_conv)
  have "chain_look_up (ll_heap c) (ll_table c) key hash = Some p" using look_up_refines[OF d(9,5,7)] p(1) by simp
  then show ?thesis using p(2) r ref_refines[OF r] by (cases p) (auto simp: links_look_up_def)
qed

text \<open>A block that \<open>malloc\<close> has just returned.\<close>

lemma rep_fresh:
  assumes r: "links_rep c A" and a: "ll_heap c a = None"
  shows "heap A a = None" "a \<notin> {lru_head, in_use_head}"
    "a \<notin> set (lru A) \<union> set (in_use A) \<union> table_handles (table A)"
    "listed ((ll_heap c)(a \<mapsto> e)) (heap A) (lru A) (in_use A)" "chained_table ((ll_heap c)(a \<mapsto> e)) (ll_table c) (table A)"
    "table_inv ((heap A)(a \<mapsto> x)) (table A)"
proof -
  let ?h = "(ll_heap c)(a \<mapsto> e)"
  note d = links_repD[OF r]
  note l = listedD[OF d(4)]
  have "a \<notin> dom (ll_heap c)" using a by blast
  then show m: "heap A a = None" and na: "a \<notin> {lru_head, in_use_head}" unfolding d(6) by auto
  show out: "a \<notin> set (lru A) \<union> set (in_use A) \<union> table_handles (table A)" using bspec[OF d(8), of a] m by auto
  have v: "nxt ?h b = nxt (ll_heap c) b" "prv ?h b = prv (ll_heap c) b" "nhash ?h b = nhash (ll_heap c) b"
    "plain ?h b = plain (ll_heap c) b" if "b \<noteq> a" for b using that by (simp_all add: nxt_def prv_def nhash_def plain_def)
  have "b \<noteq> a" if "b \<in> set (lru_head # lru A) \<union> set (in_use_head # in_use A)" for b using that out na by auto
  note v' = v[OF this]
  have rings: "ring lru_head (nxt ?h) (prv ?h) (lru A)" "ring in_use_head (nxt ?h) (prv ?h) (in_use A)"
    by (rule ring_cong[OF l(1)]; rule v'; blast) (rule ring_cong[OF l(2)]; rule v'; blast)
  have ent: "entries_for ?h (heap A)" unfolding entries_for_def
  proof (intro allI impI)
    fix b assume b: "heap A b \<noteq> None"
    then have "b \<noteq> a" using m by auto
    then show "plain ?h b = heap A b \<and> nxt ?h b \<noteq> Some b" using l(5) b v[of b] by (simp add: entries_for_def)
  qed
  show "listed ?h (heap A) (lru A) (in_use A)"
    by (rule listed_again[OF d(4) _ l(8,9) rings ent _ l(10)]) (use l(3) in auto)
  show "chained_table ?h (ll_table c) (table A)"
    by (rule chained_table_other[OF d(5)], rule v(3)) (use out in blast)
  show "table_inv ((heap A)(a \<mapsto> x)) (table A)"
    by (rule table_inv_heap[OF d(7)]) (use out in \<open>auto simp: key_of_def\<close>)
qed

lemma rep_new_uncached:
  assumes r: "links_rep c A" and a: "ll_heap c a = None" and e: "e_next e \<noteq> Some a"
  shows "links_rep (c\<lparr>ll_heap := (ll_heap c)(a \<mapsto> e)\<rparr>) (set_entry a (lru_handle.truncate e) A)"
proof -
  note d = links_repD[OF r]
  note f = rep_fresh(1,2,3)[OF r a] rep_fresh(4,5)[OF r a, of e] rep_fresh(6)[OF r a, of "lru_handle.truncate e"]
  note l = listedD[OF d(4)] and lf = listedD[OF f(4)]
  let ?h = "(ll_heap c)(a \<mapsto> e)" and ?m = "(heap A)(a \<mapsto> lru_handle.truncate e)"
  have ent: "entries_for ?h ?m"
    using lf(5) e by (auto simp: entries_for_def plain_def nxt_def)
  have heads: "?m lru_head = None" "?m in_use_head = None" using l(8,9) f(2) by auto
  have "listed ?h ?m (lru A) (in_use A)"
    by (rule listed_again[OF f(4) _ heads lf(1,2) ent]) (use l(3,10) in auto)
  moreover have "dom ?h = insert lru_head (insert in_use_head (dom ?m))" using d(6) by auto
  moreover have "\<exists>x. ?m b = Some x \<and> h_in_cache x" if "b \<in> set (lru A) \<union> set (in_use A) \<union> table_handles (table A)" for b
    using bspec[OF d(8) that] f(3) that by auto
  ultimately show ?thesis using d(1-3) f(5,6) by (simp add: links_rep_def set_entry_def)
qed

lemma rep_new_cached:
  assumes r: "links_rep c A" and a: "ll_heap c a = None" and e: "h_in_cache e"
  shows "\<exists>h. link_append in_use_head a ((ll_heap c)(a \<mapsto> e)) = Some h
    \<and> links_rep (c\<lparr>ll_heap := h\<rparr>) (append_in_use a (set_entry a (lru_handle.truncate e) A))"
proof -
  note d = links_repD[OF r]
  note f = rep_fresh(1,2,3)[OF r a] rep_fresh(4,5)[OF r a, of e] rep_fresh(6)[OF r a, of "lru_handle.truncate e"]
  let ?h = "(ll_heap c)(a \<mapsto> e)" and ?m = "(heap A)(a \<mapsto> lru_handle.truncate e)"
  have "?m(a := None) = heap A" using f(1) by auto
  then have "listed ?h (?m(a := None)) (lru A) (in_use A)" using f(4) by simp
  then obtain h where h: "link_append in_use_head a ?h = Some h" "relinked ?h h" "listed h ?m (lru A) (in_use A @ [a])"
    using listed_append(2)[of ?h ?m a] f(2) by (auto simp: plain_def)
  have "chained_table h (ll_table c) (table A)"
    by (rule chained_table_relinked[OF f(5)]) (use h(2) in \<open>simp add: relinked_def\<close>)
  moreover have "dom h = insert lru_head (insert in_use_head (dom ?m))" using d(6) relinked_dom[OF h(2)] by auto
  moreover have "\<exists>x. ?m b = Some x \<and> h_in_cache x" if "b \<in> set (lru A) \<union> set (in_use A @ [a]) \<union> table_handles (table A)" for b
    using bspec[OF d(8), of b] that e by (cases "b = a") auto
  ultimately have "links_rep (c\<lparr>ll_heap := h\<rparr>) (append_in_use a (set_entry a (lru_handle.truncate e) A))"
    using d(1-3) f(6) h(3) by (simp add: links_rep_def set_entry_def append_in_use_def)
  then show ?thesis using h(1) by blast
qed

lemma rep_table_insert:
  assumes r: "links_rep c A" and a: "a \<notin> table_handles (table A)" "heap A a = Some x" "h_in_cache x"
    and T: "table_insert (heap A) (table A) a = Some (old, T)"
  shows "\<exists>h t. chain_insert (ll_heap c) (ll_table c) a = Some (old, h, t)
    \<and> links_rep (c\<lparr>ll_heap := h, ll_table := t\<rparr>) (A\<lparr>table := T\<rparr>) \<and> set_option old \<inter> table_handles T = {}"
proof -
  note d = links_repD[OF r]
  have "key_of (heap A) a = Some (h_hash x, h_key x)" using a(2) by (simp add: key_of_def)
  from table_insert_inv[OF d(7) a(1) this] T
  have inv: "table_inv (heap A) T" "table_handles T = insert a (table_handles (table A) - set_option old)"
    and fo: "found_in (key_of (heap A)) (table_handles (table A)) (h_hash x, h_key x) old" by auto
  obtain h t where t: "chain_insert (ll_heap c) (ll_table c) a = Some (old, h, t)" "rechained (ll_heap c) h" "chained_table h t T"
    using insert_refines[OF d(9,5,7) a(1,2) T] by blast
  have "table_handles T \<subseteq> {a. \<exists>x. heap A a = Some x \<and> h_in_cache x}" unfolding inv(2) using d(8) a(2,3) by auto
  moreover have "set_option old \<inter> table_handles T = {}" using fo a(1) by (auto simp: inv(2) found_in_def split: option.splits)
  ultimately show ?thesis using t(1) rep_rechained[OF r t(2,3) inv(1)] by blast
qed

lemma insert_refines_links:
  assumes r: "links_rep c A" and a: "ll_heap c a = None" and run: "cache_insert key hash val charge a A = Some (b, A')"
  shows "\<exists>c'. links_insert key hash val charge a block c = Some (b, c') \<and> links_rep c' A'"
proof -
  let ?x = "\<lparr>h_value = val, h_charge = charge, h_key = key, h_in_cache = False, h_refs = 1, h_hash = hash\<rparr> :: 'a lru_handle"
  let ?e = "block\<lparr>h_value := val, h_charge := charge, h_key := key, h_hash := hash, h_in_cache := False, h_refs := 1\<rparr>"
  have cap: "ll_capacity c = capacity A" by (rule links_repD(1)[OF r])
  show ?thesis
  proof (cases "0 < capacity A")
    case False
    then have b: "b = a" "evict_loop (set_entry a ?x A) = Some A'" using run by (auto simp: cache_insert_def)
    have tr: "lru_handle.truncate (?e\<lparr>e_next := None\<rparr>) = ?x" by (simp add: lru_handle.truncate_def)
    have "links_rep (c\<lparr>ll_heap := (ll_heap c)(a \<mapsto> ?e\<lparr>e_next := None\<rparr>)\<rparr>) (set_entry a ?x A)"
      using rep_new_uncached[OF r a, of "?e\<lparr>e_next := None\<rparr>", unfolded tr] by simp
    from evict_loop_refines[OF this b(2)] obtain c' where
      c': "links_evict_loop (c\<lparr>ll_heap := (ll_heap c)(a \<mapsto> ?e\<lparr>e_next := None\<rparr>)\<rparr>) = Some c'" "links_rep c' A'" by blast
    have "links_insert key hash val charge a block c = Some (a, c')"
      unfolding links_insert_def Let_def using False cap c'(1) by simp
    then show ?thesis using c'(2) b(1) by blast
  next
    case True
    let ?x1 = "?x\<lparr>h_refs := h_refs ?x + 1, h_in_cache := True\<rparr>" and ?e1 = "?e\<lparr>h_refs := h_refs ?e + 1, h_in_cache := True\<rparr>"
    let ?A1 = "append_in_use a (set_entry a ?x1 A)"
    let ?A2 = "?A1\<lparr>usage := usage ?A1 + charge\<rparr>"
    obtain old T b1 A3 where T: "table_insert (heap ?A2) (table ?A2) a = Some (old, T)"
      and A3: "finish_erase old (?A2\<lparr>table := T\<rparr>) = Some (b1, A3)" "evict_loop A3 = Some A'" "b = a"
      using run True unfolding cache_insert_def Let_def by (auto simp: bind_eq_Some_conv)
    have tr: "lru_handle.truncate ?e1 = ?x1" by (simp add: lru_handle.truncate_def)
    obtain h where h: "link_append in_use_head a ((ll_heap c)(a \<mapsto> ?e1)) = Some h" "links_rep (c\<lparr>ll_heap := h\<rparr>) ?A1"
      using rep_new_cached[OF r a, of ?e1, unfolded tr] by auto
    have tab: "heap ?A2 = heap ?A1" "table ?A2 = table ?A1" "table ?A1 = table A" "heap ?A1 a = Some ?x1"
      by (simp_all add: append_in_use_def set_entry_def)
    have out: "a \<notin> table_handles (table ?A1)" using rep_fresh(3)[OF r a] tab(3) by simp
    have T1: "table_insert (heap ?A1) (table ?A1) a = Some (old, T)" using T tab by simp
    obtain h1 t where t: "chain_insert h (ll_table c) a = Some (old, h1, t)" "set_option old \<inter> table_handles T = {}"
      "links_rep (c\<lparr>ll_heap := h1, ll_table := t\<rparr>) (?A1\<lparr>table := T\<rparr>)"
      using rep_table_insert[OF h(2) out tab(4) _ T1] by auto
    moreover have "ll_usage c = usage ?A1" using links_repD(2)[OF h(2)] by simp
    ultimately have "links_rep (c\<lparr>ll_usage := ll_usage c + charge, ll_heap := h1, ll_table := t\<rparr>) (?A2\<lparr>table := T\<rparr>)"
      by (simp add: links_rep_def)
    then obtain c3 where c3: "links_finish_erase old (c\<lparr>ll_usage := ll_usage c + charge, ll_heap := h1, ll_table := t\<rparr>) = Some (b1, c3)"
      "links_rep c3 A3" using finish_erase_refines[of _ _ old b1 A3] A3(1) t(2) by fastforce
    obtain c' where c': "links_evict_loop c3 = Some c'" "links_rep c' A'" using evict_loop_refines[OF c3(2) A3(2)] by blast
    have "links_insert key hash val charge a block c = Some (a, c')"
      unfolding links_insert_def Let_def using True cap h(1) t(1) c3(1) c'(1) by simp
    then show ?thesis using c'(2) A3(3) by blast
  qed
qed

section \<open>Construction and destruction\<close>

lemma ctor_refines_links:
  fixes h :: "'v entries"
  assumes A: "lru_cache_ctor (\<lambda>_. None) = Some A" and h: "dom h = {lru_head, in_use_head}"
  shows "\<exists>c. links_ctor h = Some c \<and> links_rep c A"
proof -
  obtain T where T: "table_ctor (\<lambda>_. None :: 'v lru_handle option) = Some T" "A = \<lparr>capacity = 0, usage = 0, lru = [], in_use = [], table = T, heap = \<lambda>_. None, deleter_calls = []\<rparr>"
    using A by (auto simp: lru_cache_ctor_def)
  have inv: "table_inv (\<lambda>_. None :: 'v lru_handle option) T" "table_handles T = {}" using table_ctor_inv[of "\<lambda>_. None :: 'v lru_handle option"] T(1) by auto
  have ne: "in_use_head \<noteq> lru_head" by (simp add: lru_head_def in_use_head_def)
  obtain h0 t where t: "chain_ctor h = Some (h0, t)" "rechained h h0" "chained_table h0 t T"
    using ctor_refines[OF T(1), of h] by (auto simp: entries_for_def)
  have "dom (plain h0) = dom (plain h)" using t(2) by (simp add: rechained_def)
  then have h0: "dom h0 = {lru_head, in_use_head}" using h by (simp add: dom_def)
  then have "h0 lru_head \<noteq> None" "h0 in_use_head \<noteq> None" by blast+
  then obtain h1 where h1: "store_next (Some lru_head) (Some lru_head) h0 = Some h1" "nxt h1 = (nxt h0)(lru_head := Some lru_head)"
    "prv h1 = prv h0" "relinked h0 h1" using store_next_view by blast
  have "h1 lru_head \<noteq> None" using \<open>h0 lru_head \<noteq> None\<close> relinked_alive[OF h1(4)] by simp
  then obtain h2 where h2: "store_prev (Some lru_head) (Some lru_head) h1 = Some h2" "prv h2 = (prv h1)(lru_head := Some lru_head)"
    "nxt h2 = nxt h1" "relinked h1 h2" using store_prev_view by blast
  note r2 = relinked_trans[OF h1(4) h2(4)]
  have "h2 in_use_head \<noteq> None" using \<open>h0 in_use_head \<noteq> None\<close> relinked_alive[OF r2] by simp
  then obtain h3 where h3: "store_next (Some in_use_head) (Some in_use_head) h2 = Some h3"
    "nxt h3 = (nxt h2)(in_use_head := Some in_use_head)" "prv h3 = prv h2" "relinked h2 h3" using store_next_view by blast
  note r3 = relinked_trans[OF r2 h3(4)]
  have "h3 in_use_head \<noteq> None" using \<open>h0 in_use_head \<noteq> None\<close> relinked_alive[OF r3] by simp
  then obtain h4 where h4: "store_prev (Some in_use_head) (Some in_use_head) h3 = Some h4"
    "prv h4 = (prv h3)(in_use_head := Some in_use_head)" "nxt h4 = nxt h3" "relinked h3 h4" using store_prev_view by blast
  note r4 = relinked_trans[OF r3 h4(4)]
  have "ring lru_head (nxt h4) (prv h4) []" "ring in_use_head (nxt h4) (prv h4) []"
    using h1 h2 h3 h4 ne by (simp_all add: ring_def)
  moreover have "dom h4 = {lru_head, in_use_head}" using relinked_dom[OF r4] h0 by simp
  ultimately have "listed h4 (\<lambda>_. None) [] []" by (auto simp: listed_def entries_for_def)
  moreover have "chained_table h4 t T" by (rule chained_table_relinked[OF t(3)]) (use r4 in \<open>simp add: relinked_def\<close>)
  ultimately have "links_rep \<lparr>ll_capacity = 0, ll_usage = 0, ll_table = t, ll_heap = h4, ll_calls = []\<rparr> A"
    using inv T(2) \<open>dom h4 = _\<close> by (simp add: links_rep_def)
  then show ?thesis using t(1) h1(1) h2(1) h3(1) h4(1) by (simp add: links_ctor_def)
qed

text \<open>The destructor leaves the links of freed entries dangling, so only the rest of the list is related.\<close>

lemma destroy_refines:
  assumes "seg (nxt (ll_heap c)) p as (Some lru_head)" "lru_head \<notin> set as" "distinct as"
    "entries_for (ll_heap c) (heap A)" "ll_calls c = deleter_calls A"
    "dom (ll_heap c) = insert lru_head (insert in_use_head (dom (heap A)))" "in_use_head \<notin> set as"
    "destroy_loop as A = Some A'"
  shows "\<exists>c'. links_destroy_loop p c = Some c' \<and> ll_calls c' = deleter_calls A'
    \<and> dom (ll_heap c') = insert lru_head (insert in_use_head (dom (heap A')))"
  using assms
proof (induction as arbitrary: c p A)
  case Nil
  then show ?case by (auto simp: links_destroy_loop.simps)
next
  case (Cons a as)
  obtain x A1 where x: "heap A a = Some x" "h_in_cache x" "h_refs x = 1"
    and A1: "un_ref a (set_entry a (x\<lparr>h_in_cache := False\<rparr>) A) = Some A1" "destroy_loop as A1 = Some A'"
    using Cons.prems(8) by (auto simp: bind_eq_Some_conv split: if_splits)
  have A1': "heap A1 = (heap A)(a := None)" "deleter_calls A1 = deleter_calls A @ [(h_key x, h_value x)]"
    using A1(1) x by (auto simp: un_ref_def set_entry_def Let_def)
  obtain e where e: "ll_heap c a = Some e" "lru_handle.truncate e = x" "entry_key (ll_heap c) a = Some (h_key x)"
    by (rule entries_forD[OF Cons.prems(4) x(1)])
  have f: "h_in_cache e" "h_refs e = 1" "h_value e = h_value x" "h_key e = h_key x" "e_next e \<noteq> Some a"
    using x(2,3) truncate_simps[of e] e by (auto simp: entry_key_def split: if_splits)
  let ?c = "c\<lparr>ll_heap := (ll_heap c)(a := None), ll_calls := ll_calls c @ [(h_key x, h_value x)]\<rparr>"
  have "links_un_ref a (c\<lparr>ll_heap := (ll_heap c)(a \<mapsto> e\<lparr>h_in_cache := False\<rparr>)\<rparr>) = Some ?c"
    using f by (simp add: links_un_ref_def Let_def entry_key_def)
  moreover have "p = Some a" "a \<noteq> lru_head" using Cons.prems(1,2) by auto
  ultimately have run: "links_destroy_loop p c = links_destroy_loop (e_next e) ?c"
    using e(1) f(1,2) by (subst links_destroy_loop.simps) simp
  have "nxt (ll_heap c) a = e_next e" using e(1) by (simp add: nxt_def)
  then have "seg (nxt (ll_heap c)) (e_next e) as (Some lru_head)" using Cons.prems(1) by simp
  then have s: "seg (nxt (ll_heap ?c)) (e_next e) as (Some lru_head)"
    by (rule seg_cong) (use Cons.prems(3) in \<open>auto simp: nxt_def\<close>)
  have ent: "entries_for (ll_heap ?c) (heap A1)"
    using Cons.prems(4) by (auto simp: A1'(1) entries_for_def plain_def nxt_def)
  have dom: "dom (ll_heap ?c) = insert lru_head (insert in_use_head (dom (heap A1)))"
    using Cons.prems(2,6,7) by (auto simp: A1'(1))
  have rest: "lru_head \<notin> set as" "distinct as" "in_use_head \<notin> set as" "ll_calls ?c = deleter_calls A1"
    using Cons.prems(2,3,5,7) A1'(2) by simp_all
  show ?case unfolding run by (rule Cons.IH[OF s rest(1,2) ent rest(4) dom rest(3) A1(2)])
qed

lemma dtor_refines:
  assumes r: "links_rep c A" and run: "lru_cache_dtor A = Some A'"
  shows "\<exists>c'. links_dtor c = Some c' \<and> ll_calls c' = deleter_calls A'
    \<and> dom (ll_heap c') = insert lru_head (insert in_use_head (dom (heap A')))"
proof -
  note d = links_repD[OF r]
  note l = listedD[OF d(4)]
  have A: "in_use A = []" "destroy_loop (lru A) A = Some A'" using run by (simp_all add: lru_cache_dtor_def split: if_splits)
  obtain head where head: "ll_heap c lru_head = Some head" using rep_head(1)[OF r] by blast
  obtain used where used: "ll_heap c in_use_head = Some used" "e_next used = Some in_use_head" using rep_head(2)[OF r] A(1) by auto
  have "seg (nxt (ll_heap c)) (e_next head) (lru A) (Some lru_head)" using ring_seg[OF l(1)] head by (simp add: nxt_def)
  then obtain c' where "links_destroy_loop (e_next head) c = Some c'" "ll_calls c' = deleter_calls A'"
    "dom (ll_heap c') = insert lru_head (insert in_use_head (dom (heap A')))"
    using destroy_refines[OF _ _ _ d(9,3,6) _ A(2), of "e_next head"] l(1,3) by (auto simp: ring_def)
  then show ?thesis using head used by (simp add: links_dtor_def)
qed

section \<open>Clients\<close>

text \<open>The protocol of a client is that of \<open>cache_step\<close>; the contents of a new block are arbitrary.\<close>

inductive links_step :: "'v lru_links \<Rightarrow> (nat \<Rightarrow> nat) \<Rightarrow> 'v lru_links \<Rightarrow> (nat \<Rightarrow> nat) \<Rightarrow> bool" where
  l_insert: "ll_heap c a = None \<Longrightarrow> links_insert key hash val ch a block c = Some (h, c') \<Longrightarrow>
    links_step c cl c' (cl(h := Suc (cl h)))"
| l_hit: "links_look_up key hash c = Some (Some h, c') \<Longrightarrow> links_step c cl c' (cl(h := Suc (cl h)))"
| l_miss: "links_look_up key hash c = Some (None, c') \<Longrightarrow> links_step c cl c' cl"
| l_release: "0 < cl h \<Longrightarrow> links_release h c = Some c' \<Longrightarrow> links_step c cl c' (cl(h := cl h - 1))"
| l_erase: "links_erase key hash c = Some c' \<Longrightarrow> links_step c cl c' cl"
| l_prune: "links_prune c = Some c' \<Longrightarrow> links_step c cl c' cl"

inductive links_reach :: "nat \<Rightarrow> 'v lru_links \<Rightarrow> (nat \<Rightarrow> nat) \<Rightarrow> bool" for cap :: nat where
  l_start: "dom h = {lru_head, in_use_head} \<Longrightarrow> links_ctor h = Some c \<Longrightarrow> links_reach cap (links_set_capacity cap c) (\<lambda>_. 0)"
| l_step: "links_reach cap c cl \<Longrightarrow> links_step c cl c' cl' \<Longrightarrow> links_reach cap c' cl'"

text \<open>Both models return, with the same result and related states.\<close>

definition agree :: "('r \<times> 'v lru_links) option \<Rightarrow> ('r \<times> 'v lru_cache) option \<Rightarrow> bool" where
  "agree p q \<longleftrightarrow> (\<exists>r c A. p = Some (r, c) \<and> q = Some (r, A) \<and> links_rep c A)"

lemma agreeI: "q = Some (r, A) \<Longrightarrow> (\<And>r A. q = Some (r, A) \<Longrightarrow> \<exists>c. p = Some (r, c) \<and> links_rep c A) \<Longrightarrow> agree p q"
  by (auto simp: agree_def)

lemma agreeD: "agree p q \<Longrightarrow> p = Some (r, c) \<Longrightarrow> \<exists>A. q = Some (r, A) \<and> links_rep c A"
  by (auto simp: agree_def)

definition alone :: "'c option \<Rightarrow> (unit \<times> 'c) option" where
  "alone = map_option (Pair ())"

lemma alone_Some [simp]: "alone p = Some (u, c) \<longleftrightarrow> p = Some c"
  by (auto simp: alone_def)

lemma operations_agree:
  assumes r: "links_rep c A" and inv: "cache_inv A cl"
  shows "agree (links_look_up key hash c) (cache_look_up key hash A)"
    "ll_heap c a = None \<Longrightarrow> agree (links_insert key hash val ch a block c) (cache_insert key hash val ch a A)"
    "0 < cl h \<Longrightarrow> agree (alone (links_release h c)) (alone (cache_release h A))"
    "agree (alone (links_erase key hash c)) (alone (cache_erase key hash A))"
    "agree (alone (links_prune c)) (alone (cache_prune A))"
proof -
  show "agree (links_look_up key hash c) (cache_look_up key hash A)"
    using look_up_inv[OF inv, of key hash] look_up_refines_links[OF r] by (auto intro: agreeI)
  show "ll_heap c a = None \<Longrightarrow> agree (links_insert key hash val ch a block c) (cache_insert key hash val ch a A)"
    using insert_inv[OF inv rep_fresh(1)[OF r], of a key hash val ch] insert_refines_links[OF r] by (auto intro: agreeI)
  show "0 < cl h \<Longrightarrow> agree (alone (links_release h c)) (alone (cache_release h A))"
    using release_inv[OF inv, of h] un_ref_refines[OF r, of h]
    by (auto simp: agree_def links_release_def cache_release_def)
  show "agree (alone (links_erase key hash c)) (alone (cache_erase key hash A))"
    using erase_inv[OF inv, of key hash] erase_refines[OF r] by (auto simp: agree_def)
  show "agree (alone (links_prune c)) (alone (cache_prune A))"
    using prune_loop_inv[OF inv] prune_loop_refines[OF r] by (auto simp: agree_def links_prune_def cache_prune_def)
qed

lemma links_step_simulated:
  assumes step: "links_step c cl c' cl'" and r: "links_rep c A" and inv: "cache_inv A cl"
  shows "\<exists>A'. cache_step A cl A' cl' \<and> links_rep c' A'"
  using step
proof cases
  case (l_insert a key hash val ch block h)
  from agreeD[OF operations_agree(2)[OF r inv l_insert(2)] l_insert(3)] show ?thesis
    using cache_step.insert_hit[OF rep_fresh(1)[OF r l_insert(2)]] l_insert(1) by blast
next
  case (l_hit key hash h)
  from agreeD[OF operations_agree(1)[OF r inv] l_hit(2)] show ?thesis using cache_step.look_up_hit l_hit(1) by blast
next
  case (l_miss key hash)
  from agreeD[OF operations_agree(1)[OF r inv] l_miss(2)] show ?thesis using cache_step.look_up_miss l_miss(1) by blast
next
  case (l_release h)
  from agreeD[OF operations_agree(3)[OF r inv l_release(2)]] show ?thesis
    using cache_step.released[where cl = cl and h = h, OF l_release(2)] l_release(1,3) by fastforce
next
  case (l_erase key hash)
  from agreeD[OF operations_agree(4)[OF r inv]] show ?thesis using cache_step.erased l_erase by fastforce
next
  case l_prune
  from agreeD[OF operations_agree(5)[OF r inv]] show ?thesis using cache_step.pruned l_prune by fastforce
qed

lemma links_reach_simulated: "links_reach cap c cl \<Longrightarrow> \<exists>A. cache_reach cap A cl \<and> links_rep c A"
proof (induction rule: links_reach.induct)
  case (l_start h c)
  obtain A :: "'a lru_cache" where A: "lru_cache_ctor (\<lambda>_. None) = Some A" using ctor_total by blast
  obtain c0 where "links_ctor h = Some c0" "links_rep c0 A" using ctor_refines_links[OF A l_start(1)] by blast
  then have "links_rep (links_set_capacity cap c) (set_capacity cap A)"
    using l_start(2) by (simp add: links_rep_def links_set_capacity_def set_capacity_def)
  then show ?case using cache_reach.start[OF A] by blast
next
  case (l_step c cl c' cl')
  then obtain A where A: "cache_reach cap A cl" "links_rep c A" by blast
  then obtain A' where "cache_step A cl A' cl'" "links_rep c' A'"
    using links_step_simulated[OF l_step(2) A(2)] cache_reach_inv by blast
  then show ?case using cache_reach.step[OF A(1)] by blast
qed

section \<open>A concrete cache\<close>

text \<open>Memory that nobody has initialised: its links point anywhere.\<close>

definition raw_block :: "nat \<Rightarrow> nat lru_entry" where
  "raw_block a = \<lparr>h_value = 0, h_charge = 9, h_key = [], h_in_cache = True, h_refs = 3, h_hash = 0,
     e_next_hash = Some a, e_next = Some a, e_prev = Some a\<rparr>"

definition head_block :: "nat \<Rightarrow> nat lru_entry" where
  "head_block a = raw_block 7\<lparr>e_next := Some a, e_prev := Some a\<rparr>"

definition empty_links :: "nat \<Rightarrow> nat lru_links" where
  "empty_links cap = \<lparr>ll_capacity = cap, ll_usage = 0,
     ll_table = \<lparr>ct_length = 4, ct_elems = 0, ct_list = [None, None, None, None]\<rparr>,
     ll_heap = [0 \<mapsto> head_block 0, 1 \<mapsto> head_block 1], ll_calls = []\<rparr>"

lemma empty_links_ctor:
  "map_option (links_set_capacity cap) (links_ctor [0 \<mapsto> raw_block 7, 1 \<mapsto> raw_block 7]) = Some (empty_links cap)"
  by (simp add: links_ctor_def chain_ctor_def chain_resize_def new_length_0 Let_def store_next_def store_prev_def
      lru_head_def in_use_head_def links_set_capacity_def empty_links_def head_block_def raw_block_def
      eval_nat_numeral fun_upd_twist)

lemma empty_links_reach: "links_reach cap (empty_links cap) (\<lambda>_. 0)"
proof -
  obtain c where c: "links_ctor [0 \<mapsto> raw_block 7, 1 \<mapsto> raw_block 7] = Some c" "links_set_capacity cap c = empty_links cap"
    using empty_links_ctor[of cap] by (cases "links_ctor [0 \<mapsto> raw_block 7, 1 \<mapsto> raw_block 7]") auto
  have "dom [0 \<mapsto> raw_block 7, 1 \<mapsto> raw_block 7] = {lru_head, in_use_head}" by (auto simp: lru_head_def in_use_head_def)
  from links_reach.l_start[OF this c(1), of cap] c(2) show ?thesis by simp
qed

section \<open>The pointers implement the lists\<close>



end
