(* ===== verification/Arena.thy ===== *)
theory Arena
  imports Prelude
begin

text \<open>
  \<open>include/util/arena.h\<close> and \<open>src/util/arena.cc\<close>: the bump allocator behind the memory table.
  Pointers and sizes are natural numbers; the two additions of the code that can wrap a
  \<open>size_t\<close> are written with the wrap.  The address \<open>new char[]\<close> returns is an argument.  The code
  keeps only the address of a block; the model keeps its length too, as the C++ heap does.
\<close>

record arena =
  alloc_ptr :: nat
  alloc_bytes_remaining :: nat
  blocks :: "(nat \<times> nat) list"
  arena_usage :: nat

section \<open>Operations\<close>

definition kArenaBlockSize :: nat where
  "kArenaBlockSize = 4096"

definition arena_ctor :: arena where
  "arena_ctor = \<lparr>alloc_ptr = 0, alloc_bytes_remaining = 0, blocks = [], arena_usage = 0\<rparr>"

text \<open>The addresses the destructor passes to \<open>delete[]\<close>, in order.\<close>

definition arena_dtor :: "arena \<Rightarrow> nat list" where
  "arena_dtor ar = map fst (blocks ar)"

definition arena_memory_usage :: "arena \<Rightarrow> nat" where
  "arena_memory_usage ar = arena_usage ar"

definition allocate_new_block :: "nat \<Rightarrow> nat \<Rightarrow> arena \<Rightarrow> nat \<times> arena" where
  "allocate_new_block block_bytes a ar =
     (a, ar\<lparr>blocks := blocks ar @ [(a, block_bytes)],
            arena_usage := (arena_usage ar + (block_bytes + 8)) mod 2 ^ 64\<rparr>)"

definition allocate_fallback :: "nat \<Rightarrow> nat \<Rightarrow> arena \<Rightarrow> nat \<times> arena" where
  "allocate_fallback n a ar =
     (if n > kArenaBlockSize div 4 then allocate_new_block n a ar
      else case allocate_new_block kArenaBlockSize a ar of
        (p, ar1) \<Rightarrow> (p, ar1\<lparr>alloc_ptr := p + n, alloc_bytes_remaining := kArenaBlockSize - n\<rparr>))"

definition allocate :: "nat \<Rightarrow> nat \<Rightarrow> arena \<Rightarrow> (nat \<times> arena) option" where
  "allocate n a ar =
     (if \<not> 0 < n then None
      else if n \<le> alloc_bytes_remaining ar
      then Some (alloc_ptr ar, ar\<lparr>alloc_ptr := alloc_ptr ar + n,
                                  alloc_bytes_remaining := alloc_bytes_remaining ar - n\<rparr>)
      else Some (allocate_fallback n a ar))"

definition kAlign :: nat where
  "kAlign = 8"

definition align_slop :: "nat \<Rightarrow> nat" where
  "align_slop p = (let current_mod = p AND (kAlign - 1) in if current_mod = 0 then 0 else kAlign - current_mod)"

definition allocate_aligned :: "nat \<Rightarrow> nat \<Rightarrow> arena \<Rightarrow> (nat \<times> arena) option" where
  "allocate_aligned n a ar =
     (let slop = align_slop (alloc_ptr ar);
          needed = (n + slop) mod 2 ^ 64;
          (result, ar1) =
            (if needed \<le> alloc_bytes_remaining ar
             then (alloc_ptr ar + slop, ar\<lparr>alloc_ptr := alloc_ptr ar + needed,
                                          alloc_bytes_remaining := alloc_bytes_remaining ar - needed\<rparr>)
             else allocate_fallback n a ar)
      in if result AND (kAlign - 1) = 0 then Some (result, ar1) else None)"

section \<open>The contract of a region allocator\<close>

text \<open>A region is an address and a length; the live regions never overlap.\<close>

definition span :: "nat \<times> nat \<Rightarrow> nat set" where
  "span r = {fst r ..< fst r + snd r}"

fun apart :: "(nat \<times> nat) list \<Rightarrow> bool" where
  "apart [] \<longleftrightarrow> True"
| "apart (r # rs) \<longleftrightarrow> (\<forall>s \<in> set rs. span r \<inter> span s = {}) \<and> apart rs"

locale region_allocator =
  fixes inv :: "'s \<Rightarrow> (nat \<times> nat) list \<Rightarrow> bool" and request :: "nat \<Rightarrow> bool"
    and fresh :: "nat \<Rightarrow> nat \<Rightarrow> 's \<Rightarrow> bool" and alloc :: "nat \<Rightarrow> nat \<Rightarrow> 's \<Rightarrow> (nat \<times> 's) option"
  assumes live_apart: "inv s rs \<Longrightarrow> apart rs"
    and alloc_ok: "inv s rs \<Longrightarrow> request n \<Longrightarrow> fresh n a s \<Longrightarrow>
      \<exists>p s'. alloc n a s = Some (p, s') \<and> inv s' ((p, n) # rs)"
begin

lemma alloc_apart:
  assumes "inv s rs" "request n" "fresh n a s" "alloc n a s = Some (p, s')" "r \<in> set rs"
  shows "span (p, n) \<inter> span r = {}"
  using alloc_ok[OF assms(1-3)] assms(4,5) live_apart by fastforce

lemma alloc_new_address:
  assumes "inv s rs" "request n" "fresh n a s" "alloc n a s = Some (p, s')" "0 < n" "\<forall>r \<in> set rs. 0 < snd r"
  shows "p \<notin> fst ` set rs"
proof
  assume "p \<in> fst ` set rs"
  then obtain k where k: "(p, k) \<in> set rs" by auto
  then have "p \<in> span (p, n) \<inter> span (p, k)" using assms(5,6) by (fastforce simp: span_def)
  with alloc_apart[OF assms(1-4) k] show False by simp
qed

end

section \<open>The arena keeps the contract\<close>

text \<open>
  \<open>new_address\<close> is what \<open>new char[]\<close> promises: memory that overlaps no block it returned before,
  aligned for every object.
\<close>

definition new_address :: "nat \<Rightarrow> nat \<Rightarrow> arena \<Rightarrow> bool" where
  "new_address n a ar \<longleftrightarrow> 0 < a \<and> a mod kAlign = 0 \<and>
     (\<forall>b \<in> set (blocks ar). span (a, max n kArenaBlockSize) \<inter> span b = {})"

definition free_region :: "arena \<Rightarrow> nat \<times> nat" where
  "free_region ar = (alloc_ptr ar, alloc_bytes_remaining ar)"

definition in_block :: "arena \<Rightarrow> nat \<times> nat \<Rightarrow> bool" where
  "in_block ar r \<longleftrightarrow> span r = {} \<or> (\<exists>b \<in> set (blocks ar). span r \<subseteq> span b)"

definition arena_inv :: "arena \<Rightarrow> (nat \<times> nat) list \<Rightarrow> bool" where
  "arena_inv ar rs \<longleftrightarrow> apart (blocks ar) \<and> (\<forall>b \<in> set (blocks ar). 0 < snd b) \<and> apart (free_region ar # rs)
     \<and> (\<forall>r \<in> set (free_region ar # rs). in_block ar r)
     \<and> arena_usage ar = sum_list (map (\<lambda>b. snd b + 8) (blocks ar)) mod 2 ^ 64"

definition arena_request :: "nat \<Rightarrow> bool" where
  "arena_request n \<longleftrightarrow> 0 < n \<and> n < 2 ^ 64 - 8"

lemma apart_append:
  "apart (xs @ ys) \<longleftrightarrow> apart xs \<and> apart ys \<and> (\<forall>x \<in> set xs. \<forall>y \<in> set ys. span x \<inter> span y = {})"
  by (induction xs) auto

lemma arena_ctor_inv: "arena_inv arena_ctor []"
  by (simp add: arena_inv_def arena_ctor_def free_region_def in_block_def span_def)

lemma in_block_new [simp]:
  "in_block ar r \<Longrightarrow> in_block (snd (allocate_new_block n a ar)) r"
  by (auto simp: in_block_def allocate_new_block_def)

text \<open>Carving the front of the free region.\<close>

lemma carve_inv:
  assumes inv: "arena_inv ar rs" and n: "slop + n \<le> alloc_bytes_remaining ar"
  shows "arena_inv (ar\<lparr>alloc_ptr := alloc_ptr ar + (n + slop),
    alloc_bytes_remaining := alloc_bytes_remaining ar - (n + slop)\<rparr>) ((alloc_ptr ar + slop, n) # rs)"
    (is "arena_inv ?ar _")
proof -
  have sub: "span (alloc_ptr ar + slop, n) \<subseteq> span (free_region ar)" "span (free_region ?ar) \<subseteq> span (free_region ar)"
    and dis: "span (free_region ?ar) \<inter> span (alloc_ptr ar + slop, n) = {}"
    using n by (auto simp: span_def free_region_def)
  have "in_block ?ar r \<longleftrightarrow> in_block ar r" for r by (simp add: in_block_def)
  moreover have "in_block ar r" if "span r \<subseteq> span (free_region ar)" for r
    using inv that unfolding arena_inv_def in_block_def by (fastforce simp del: apart.simps)
  moreover have "span r \<inter> span s = {}" if "s \<in> set rs" "span r \<subseteq> span (free_region ar)" for r s
    using inv that by (fastforce simp: arena_inv_def)
  ultimately show ?thesis using inv sub dis by (auto simp: arena_inv_def)
qed

lemma new_block_inv:
  assumes inv: "arena_inv ar rs" and a: "new_address n a ar" and m: "0 < m" "m \<le> max n kArenaBlockSize"
  shows "arena_inv (snd (allocate_new_block m a ar)) ((a, m) # rs)"
proof -
  let ?ar = "snd (allocate_new_block m a ar)"
  have old: "span (a, m) \<inter> span b = {}" if "b \<in> set (blocks ar)" for b
  proof -
    have "span (a, m) \<subseteq> span (a, max n kArenaBlockSize)" using m by (auto simp: span_def)
    with a that show ?thesis by (fastforce simp: new_address_def)
  qed
  have "span (a, m) \<inter> span r = {}" if "in_block ar r" for r
    using that old by (fastforce simp: in_block_def)
  moreover have "blocks ?ar = blocks ar @ [(a, m)]" "free_region ?ar = free_region ar"
    "arena_usage ?ar = (arena_usage ar + (m + 8)) mod 2 ^ 64"
    by (simp_all add: allocate_new_block_def free_region_def)
  moreover have "in_block ?ar (a, m)" by (auto simp: in_block_def allocate_new_block_def)
  moreover have "apart (blocks ar @ [(a, m)]) \<and> (\<forall>b \<in> set (blocks ar @ [(a, m)]). 0 < snd b)"
    using inv m(1) old by (simp add: arena_inv_def apart_append Int_commute)
  moreover have "\<forall>r \<in> set (free_region ar # rs). in_block ar r" "apart (free_region ar # rs)"
    using inv by (simp_all add: arena_inv_def)
  moreover from this(1) have "\<forall>r \<in> set (free_region ar # rs). in_block ?ar r" by simp
  moreover have "arena_usage ?ar = sum_list (map (\<lambda>b. snd b + 8) (blocks ar @ [(a, m)])) mod 2 ^ 64"
    using inv by (simp add: arena_inv_def allocate_new_block_def mod_add_left_eq)
  ultimately show ?thesis by (simp add: arena_inv_def Int_commute)
qed

lemma fallback_inv:
  assumes inv: "arena_inv ar rs" and a: "new_address n a ar"
  shows "\<exists>ar'. allocate_fallback n a ar = (a, ar') \<and> arena_inv ar' ((a, n) # rs)"
proof (cases "n > kArenaBlockSize div 4")
  case True
  with new_block_inv[OF inv a, of n] show ?thesis
    by (simp add: allocate_fallback_def allocate_new_block_def)
next
  case False
  then have n: "n \<le> kArenaBlockSize" by simp
  let ?ar = "snd (allocate_new_block kArenaBlockSize a ar)"
  let ?ar1 = "?ar\<lparr>alloc_ptr := a, alloc_bytes_remaining := kArenaBlockSize\<rparr>"
  have "arena_inv ?ar ((a, kArenaBlockSize) # rs)" by (rule new_block_inv[OF inv a]) (simp_all add: kArenaBlockSize_def)
  then have "arena_inv ?ar1 rs"
    by (auto simp: arena_inv_def free_region_def in_block_def)
  from carve_inv[OF this, of 0 n] n have
    "arena_inv (?ar1\<lparr>alloc_ptr := a + n, alloc_bytes_remaining := kArenaBlockSize - n\<rparr>) ((a, n) # rs)" by simp
  with False show ?thesis by (simp add: allocate_fallback_def allocate_new_block_def)
qed

lemma allocate_inv:
  assumes "arena_inv ar rs" "arena_request n" "new_address n a ar"
  shows "\<exists>p ar'. allocate n a ar = Some (p, ar') \<and> arena_inv ar' ((p, n) # rs)"
proof (cases "n \<le> alloc_bytes_remaining ar")
  case True
  with carve_inv[OF assms(1), of 0 n] assms(2) show ?thesis
    by (auto simp: allocate_def arena_request_def)
next
  case False
  with fallback_inv[OF assms(1,3)] assms(2) show ?thesis by (auto simp: allocate_def arena_request_def)
qed

lemma align_mod: "p AND (kAlign - 1) = p mod kAlign" "p AND (kAlign - Suc 0) = p mod kAlign"
  using take_bit_eq_mask[of 3 p] by (simp_all add: kAlign_def mask_eq_exp_minus_1 take_bit_eq_mod)

lemma align_slop_aligned: "(p + align_slop p) mod kAlign = 0" "align_slop p < kAlign"
proof -
  have m: "p AND 7 = p mod 8" using align_mod(1)[of p] by (simp add: kAlign_def)
  show "(p + align_slop p) mod kAlign = 0" "align_slop p < kAlign"
    unfolding align_slop_def Let_def kAlign_def by (simp_all add: m) presburger
qed

lemma allocate_aligned_inv:
  assumes "arena_inv ar rs" "arena_request n" "new_address n a ar"
  shows "\<exists>p ar'. allocate_aligned n a ar = Some (p, ar') \<and> arena_inv ar' ((p, n) # rs) \<and> p mod kAlign = 0"
proof -
  let ?slop = "align_slop (alloc_ptr ar)"
  have "?slop < 8" using align_slop_aligned(2) by (simp add: kAlign_def)
  then have needed: "(n + ?slop) mod 2 ^ 64 = n + ?slop" using assms(2) by (simp add: arena_request_def)
  show ?thesis
  proof (cases "n + ?slop \<le> alloc_bytes_remaining ar")
    case True
    with carve_inv[OF assms(1), of ?slop n] needed align_slop_aligned(1)[of "alloc_ptr ar"] show ?thesis
      by (simp add: allocate_aligned_def Let_def align_mod add.commute)
  next
    case False
    with fallback_inv[OF assms(1,3)] needed assms(3) show ?thesis
      by (auto simp: allocate_aligned_def Let_def align_mod new_address_def)
  qed
qed

lemma arena_live_apart: "arena_inv ar rs \<Longrightarrow> apart rs"
  by (simp add: arena_inv_def)

interpretation arena_alloc: region_allocator arena_inv arena_request new_address allocate
  by unfold_locales (rule arena_live_apart, assumption, rule allocate_inv)

interpretation arena_aligned: region_allocator arena_inv arena_request new_address allocate_aligned
  by unfold_locales (rule arena_live_apart, assumption, use allocate_aligned_inv in blast)

section \<open>Runs of the arena\<close>

inductive arena_reach :: "arena \<Rightarrow> (nat \<times> nat) list \<Rightarrow> bool" where
  start: "arena_reach arena_ctor []"
| plain: "arena_reach ar rs \<Longrightarrow> arena_request n \<Longrightarrow> new_address n a ar \<Longrightarrow> allocate n a ar = Some (p, ar')
    \<Longrightarrow> arena_reach ar' ((p, n) # rs)"
| aligned: "arena_reach ar rs \<Longrightarrow> arena_request n \<Longrightarrow> new_address n a ar \<Longrightarrow> allocate_aligned n a ar = Some (p, ar')
    \<Longrightarrow> arena_reach ar' ((p, n) # rs)"

lemma arena_reach_inv: "arena_reach ar rs \<Longrightarrow> arena_inv ar rs"
proof (induction rule: arena_reach.induct)
  case start
  show ?case by (rule arena_ctor_inv)
next
  case (plain ar rs n a p ar')
  with allocate_inv show ?case by fastforce
next
  case (aligned ar rs n a p ar')
  with allocate_aligned_inv show ?case by fastforce
qed

lemma apart_distinct: "apart bs \<Longrightarrow> \<forall>b \<in> set bs. 0 < snd b \<Longrightarrow> distinct (map fst bs)"
proof (induction bs)
  case (Cons b bs)
  have "fst c \<noteq> fst b" if "c \<in> set bs" for c
  proof
    assume "fst c = fst b"
    moreover have "0 < snd b" "0 < snd c" using Cons.prems(2) that by simp_all
    ultimately have "fst b \<in> span b \<inter> span c" by (simp add: span_def)
    moreover have "span b \<inter> span c = {}" using Cons.prems(1) that by simp
    ultimately show False by simp
  qed
  then have "fst b \<notin> fst ` set bs" by (metis imageE)
  with Cons show ?case by simp
qed simp

section \<open>Properties\<close>


definition one_block :: arena where
  "one_block = \<lparr>alloc_ptr = 4106, alloc_bytes_remaining = 4086, blocks = [(4096, 4096)], arena_usage = 4104\<rparr>"

lemma one_block_reach: "arena_reach one_block [(4096, 10)]"
proof (rule arena_reach.plain[OF arena_reach.start])
  show "arena_request 10" "new_address 10 4096 arena_ctor" "allocate 10 4096 arena_ctor = Some (4096, one_block)"
    by (simp_all add: arena_request_def new_address_def arena_ctor_def kAlign_def allocate_def allocate_fallback_def
        allocate_new_block_def kArenaBlockSize_def one_block_def)
qed


end
