(* ===== verification/Skip_List.thy ===== *)
theory Skip_List
  imports Arena Key_Order Lehmer_Random
begin

text \<open>
  \<open>include/leveldb/__detail/skip_list.h\<close>.  Nodes live in a memory, a map from addresses to nodes; a
  pointer is an optional address.  A link that was never stored and one above the height of its
  node are \<open>None\<close> and reading or storing through them fails, as does a failed assertion.  A loop
  of the code that searches is \<open>partial_function\<close>, so that not returning is \<open>None\<close>; its body is a
  definition of its own, because a concurrent reader executes it one turn at a time.
\<close>

type_synonym ptr = "nat option"

record 'k node =
  sn_key :: 'k
  sn_next :: "ptr option list"

type_synonym 'k memory = "nat \<Rightarrow> 'k node option"

record 'k skip_list =
  sl_arena :: arena
  sl_head :: nat
  sl_max_height :: nat
  sl_rnd :: u32
  sl_nodes :: "'k memory"

definition kMaxHeight :: nat where
  "kMaxHeight = 12"

section \<open>Nodes\<close>

definition node_next :: "'k memory \<Rightarrow> nat \<Rightarrow> nat \<Rightarrow> ptr option" where
  "node_next m x n =
     (case m x of None \<Rightarrow> None | Some nd \<Rightarrow> if n < length (sn_next nd) then sn_next nd ! n else None)"

definition node_set_next :: "'k memory \<Rightarrow> nat \<Rightarrow> nat \<Rightarrow> ptr \<Rightarrow> 'k memory option" where
  "node_set_next m x n p =
     (case m x of
        None \<Rightarrow> None
      | Some nd \<Rightarrow>
          if n < length (sn_next nd) then Some (m(x \<mapsto> nd\<lparr>sn_next := (sn_next nd)[n := Some p]\<rparr>)) else None)"

text \<open>A key and one link take 16 bytes for the keys of the memory table, which are pointers.\<close>

definition node_size :: "nat \<Rightarrow> nat" where
  "node_size height = 16 + 8 * (height - 1)"

definition new_node ::
  "'k \<Rightarrow> nat \<Rightarrow> nat \<Rightarrow> arena \<Rightarrow> 'k memory \<Rightarrow> (nat \<times> arena \<times> 'k memory) option" where
  "new_node key height a ar m =
     map_option (\<lambda>(p, ar'). (p, ar', m(p \<mapsto> \<lparr>sn_key = key, sn_next = replicate height None\<rparr>)))
       (allocate_aligned (node_size height) a ar)"

section \<open>Searching\<close>

definition key_is_after_node :: "('k \<Rightarrow> 'k \<Rightarrow> int option) \<Rightarrow> 'k memory \<Rightarrow> 'k \<Rightarrow> ptr \<Rightarrow> bool option" where
  "key_is_after_node cmp m key n =
     (case n of
        None \<Rightarrow> Some False
      | Some x \<Rightarrow> Option.bind (m x) (\<lambda>nd. map_option (\<lambda>r. r < 0) (cmp (sn_key nd) key)))"

datatype 'r search = Search nat nat | Found 'r

text \<open>One turn of \<open>find_greater_or_equal\<close>, with the array \<open>prev\<close> when it is not null.\<close>

definition fge_step ::
  "('k \<Rightarrow> 'k \<Rightarrow> int option) \<Rightarrow> 'k memory \<Rightarrow> 'k \<Rightarrow> nat \<Rightarrow> nat \<Rightarrow> ptr list option \<Rightarrow> (ptr search \<times> ptr list option) option" where
  "fge_step cmp m key x level prev =
     Option.bind (node_next m x level) (\<lambda>next.
     Option.bind (key_is_after_node cmp m key next) (\<lambda>after.
       if after then Some (Search (the next) level, prev)
       else
         let prev' = map_option (\<lambda>ps. ps[level := Some x]) prev
         in if level = 0 then Some (Found next, prev') else Some (Search x (level - 1), prev')))"

partial_function (option) fge_loop ::
  "('k \<Rightarrow> 'k \<Rightarrow> int option) \<Rightarrow> 'k memory \<Rightarrow> 'k \<Rightarrow> nat \<Rightarrow> nat \<Rightarrow> ptr list option \<Rightarrow> (ptr \<times> ptr list option) option" where
  "fge_loop cmp m key x level prev =
     Option.bind (fge_step cmp m key x level prev) (\<lambda>(r, prev').
       case r of Found next \<Rightarrow> Some (next, prev') | Search x' level' \<Rightarrow> fge_loop cmp m key x' level' prev')"

definition find_greater_or_equal ::
  "('k \<Rightarrow> 'k \<Rightarrow> int option) \<Rightarrow> 'k skip_list \<Rightarrow> 'k \<Rightarrow> ptr list option \<Rightarrow> (ptr \<times> ptr list option) option" where
  "find_greater_or_equal cmp s key prev =
     (if sl_max_height s = 0 then None
      else fge_loop cmp (sl_nodes s) key (sl_head s) (sl_max_height s - 1) prev)"

definition flt_step ::
  "('k \<Rightarrow> 'k \<Rightarrow> int option) \<Rightarrow> 'k memory \<Rightarrow> nat \<Rightarrow> 'k \<Rightarrow> nat \<Rightarrow> nat \<Rightarrow> nat search option" where
  "flt_step cmp m head key x level =
     Option.bind (if x = head then Some True else key_is_after_node cmp m key (Some x)) (\<lambda>ok.
       if \<not> ok then None
       else
         Option.bind (node_next m x level) (\<lambda>next.
         Option.bind (key_is_after_node cmp m key next) (\<lambda>after.
           if \<not> after then (if level = 0 then Some (Found x) else Some (Search x (level - 1)))
           else Some (Search (the next) level))))"

partial_function (option) flt_loop ::
  "('k \<Rightarrow> 'k \<Rightarrow> int option) \<Rightarrow> 'k memory \<Rightarrow> nat \<Rightarrow> 'k \<Rightarrow> nat \<Rightarrow> nat \<Rightarrow> nat option" where
  "flt_loop cmp m head key x level =
     Option.bind (flt_step cmp m head key x level) (\<lambda>r.
       case r of Found y \<Rightarrow> Some y | Search x' level' \<Rightarrow> flt_loop cmp m head key x' level')"

definition find_less_than :: "('k \<Rightarrow> 'k \<Rightarrow> int option) \<Rightarrow> 'k skip_list \<Rightarrow> 'k \<Rightarrow> nat option" where
  "find_less_than cmp s key =
     (if sl_max_height s = 0 then None
      else flt_loop cmp (sl_nodes s) (sl_head s) key (sl_head s) (sl_max_height s - 1))"

definition last_step :: "'k memory \<Rightarrow> nat \<Rightarrow> nat \<Rightarrow> nat search option" where
  "last_step m x level =
     Option.bind (node_next m x level) (\<lambda>next.
       case next of
         None \<Rightarrow> (if level = 0 then Some (Found x) else Some (Search x (level - 1)))
       | Some y \<Rightarrow> Some (Search y level))"

partial_function (option) last_loop :: "'k memory \<Rightarrow> nat \<Rightarrow> nat \<Rightarrow> nat option" where
  "last_loop m x level =
     Option.bind (last_step m x level) (\<lambda>r.
       case r of Found y \<Rightarrow> Some y | Search x' level' \<Rightarrow> last_loop m x' level')"

definition find_last :: "'k skip_list \<Rightarrow> nat option" where
  "find_last s =
     (if sl_max_height s = 0 then None
      else last_loop (sl_nodes s) (sl_head s) (sl_max_height s - 1))"

section \<open>Construction and insertion\<close>

fun clear_links :: "nat \<Rightarrow> nat \<Rightarrow> 'k memory \<Rightarrow> 'k memory option" where
  "clear_links x 0 m = Some m"
| "clear_links x (Suc n) m = Option.bind (clear_links x n m) (\<lambda>m'. node_set_next m' x n None)"

text \<open>\<open>zero\<close> is the key of the head node, which is never compared.\<close>

definition skip_list_ctor :: "'k \<Rightarrow> nat \<Rightarrow> arena \<Rightarrow> 'k skip_list option" where
  "skip_list_ctor zero a ar =
     Option.bind (new_node zero kMaxHeight a ar (\<lambda>_. None)) (\<lambda>(h, ar', m).
       map_option (\<lambda>m'. \<lparr>sl_arena = ar', sl_head = h, sl_max_height = 1, sl_rnd = random_ctor 0xdeadbeef, sl_nodes = m'\<rparr>)
         (clear_links h kMaxHeight m))"

function random_height_loop :: "nat \<Rightarrow> u32 \<Rightarrow> (nat \<times> u32) option" where
  "random_height_loop height rnd =
     (if height < kMaxHeight then
        Option.bind (random_one_in rnd 4) (\<lambda>(b, rnd').
          if b then random_height_loop (height + 1) rnd' else Some (height, rnd'))
      else Some (height, rnd))"
  by pat_completeness auto
termination by (relation "measure (\<lambda>(h, r). kMaxHeight - h)") auto

declare random_height_loop.simps [simp del]

definition random_height :: "u32 \<Rightarrow> (nat \<times> u32) option" where
  "random_height rnd =
     Option.bind (random_height_loop 1 rnd) (\<lambda>(h, rnd').
       if 0 < h \<and> h \<le> kMaxHeight then Some (h, rnd') else None)"

text \<open>
  The last loop of \<open>insert\<close> performs two stores at each level: it links the new node to its
  successor, then its predecessor to the new node.  Store number \<open>n\<close> is the one of level \<open>n div 2\<close>.
\<close>

definition link_store :: "nat \<Rightarrow> ptr list \<Rightarrow> nat \<Rightarrow> 'k memory \<Rightarrow> 'k memory option" where
  "link_store x prev n m =
     (let i = n div 2
      in Option.bind (prev ! i) (\<lambda>p.
           if even n then Option.bind (node_next m p i) (node_set_next m x i)
           else node_set_next m p i (Some x)))"

fun link_stores :: "nat \<Rightarrow> ptr list \<Rightarrow> nat \<Rightarrow> 'k memory \<Rightarrow> 'k memory option" where
  "link_stores x prev 0 m = Some m"
| "link_stores x prev (Suc n) m = Option.bind (link_stores x prev n m) (link_store x prev n)"

definition raise_prev :: "nat \<Rightarrow> nat \<Rightarrow> nat \<Rightarrow> ptr list \<Rightarrow> ptr list" where
  "raise_prev head lo hi prev = map (\<lambda>i. if lo \<le> i \<and> i < hi then Some head else prev ! i) [0..<length prev]"

definition key_equal :: "('k \<Rightarrow> 'k \<Rightarrow> int option) \<Rightarrow> 'k memory \<Rightarrow> 'k \<Rightarrow> nat \<Rightarrow> bool option" where
  "key_equal cmp m key x = Option.bind (m x) (\<lambda>nd. map_option (\<lambda>r. r = 0) (cmp key (sn_key nd)))"

text \<open>Everything before the linking loop: the new node, \<open>prev\<close>, the height and the list.\<close>

definition insert_prepare ::
  "('k \<Rightarrow> 'k \<Rightarrow> int option) \<Rightarrow> 'k \<Rightarrow> nat \<Rightarrow> 'k skip_list \<Rightarrow> (nat \<times> ptr list \<times> nat \<times> 'k skip_list) option" where
  "insert_prepare cmp key a s =
     Option.bind (find_greater_or_equal cmp s key (Some (replicate kMaxHeight None))) (\<lambda>(x, prev).
     Option.bind (case x of None \<Rightarrow> Some False | Some y \<Rightarrow> key_equal cmp (sl_nodes s) key y) (\<lambda>dup.
       if dup then None
       else
         Option.bind (random_height (sl_rnd s)) (\<lambda>(height, rnd).
           let prev1 = (if height > sl_max_height s
                        then raise_prev (sl_head s) (sl_max_height s) height (the prev) else the prev)
           in Option.bind (new_node key height a (sl_arena s) (sl_nodes s)) (\<lambda>(p, ar, m).
                Some (p, prev1, height, s\<lparr>sl_rnd := rnd, sl_max_height := max (sl_max_height s) height,
                                          sl_arena := ar, sl_nodes := m\<rparr>)))))"

definition sl_insert :: "('k \<Rightarrow> 'k \<Rightarrow> int option) \<Rightarrow> 'k \<Rightarrow> nat \<Rightarrow> 'k skip_list \<Rightarrow> 'k skip_list option" where
  "sl_insert cmp key a s =
     Option.bind (insert_prepare cmp key a s) (\<lambda>(x, prev, height, s1).
       map_option (\<lambda>m. s1\<lparr>sl_nodes := m\<rparr>) (link_stores x prev (2 * height) (sl_nodes s1)))"

definition sl_contains :: "('k \<Rightarrow> 'k \<Rightarrow> int option) \<Rightarrow> 'k \<Rightarrow> 'k skip_list \<Rightarrow> bool option" where
  "sl_contains cmp key s =
     Option.bind (find_greater_or_equal cmp s key None) (\<lambda>(x, _).
       case x of None \<Rightarrow> Some False | Some y \<Rightarrow> key_equal cmp (sl_nodes s) key y)"

section \<open>Iterators\<close>

text \<open>An iterator is the node it stands at.\<close>

definition iter_ctor :: ptr where
  "iter_ctor = None"

definition iter_valid :: "ptr \<Rightarrow> bool" where
  "iter_valid it \<longleftrightarrow> it \<noteq> None"

definition iter_key :: "'k skip_list \<Rightarrow> ptr \<Rightarrow> 'k option" where
  "iter_key s it = Option.bind it (\<lambda>x. map_option sn_key (sl_nodes s x))"

definition iter_next :: "'k skip_list \<Rightarrow> ptr \<Rightarrow> ptr option" where
  "iter_next s it = Option.bind it (\<lambda>x. node_next (sl_nodes s) x 0)"

definition iter_prev :: "('k \<Rightarrow> 'k \<Rightarrow> int option) \<Rightarrow> 'k skip_list \<Rightarrow> ptr \<Rightarrow> ptr option" where
  "iter_prev cmp s it =
     Option.bind it (\<lambda>x. Option.bind (sl_nodes s x) (\<lambda>nd.
       map_option (\<lambda>y. if y = sl_head s then None else Some y) (find_less_than cmp s (sn_key nd))))"

definition iter_seek :: "('k \<Rightarrow> 'k \<Rightarrow> int option) \<Rightarrow> 'k skip_list \<Rightarrow> 'k \<Rightarrow> ptr option" where
  "iter_seek cmp s target = map_option fst (find_greater_or_equal cmp s target None)"

definition iter_seek_to_first :: "'k skip_list \<Rightarrow> ptr option" where
  "iter_seek_to_first s = node_next (sl_nodes s) (sl_head s) 0"

definition iter_seek_to_last :: "'k skip_list \<Rightarrow> ptr option" where
  "iter_seek_to_last s = map_option (\<lambda>y. if y = sl_head s then None else Some y) (find_last s)"

end
