(* ===== verification/Skip_List_Inv.thy ===== *)
theory Skip_List_Inv
  imports Skip_List
begin

text \<open>
  What the skip list promises: a view of the memory as one list of nodes per level, searches that
  return the first node at or after a key, insertion into the ordered list, and readers that run
  while an insertion stores its links one by one.
\<close>

section \<open>Levels as lists\<close>

definition hd_opt :: "'a list \<Rightarrow> 'a option" where
  "hd_opt xs = (case xs of [] \<Rightarrow> None | x # _ \<Rightarrow> Some x)"

lemma hd_opt_simps [simp]: "hd_opt [] = None" "hd_opt (x # xs) = Some x" "hd_opt xs = None \<longleftrightarrow> xs = []"
  by (simp_all add: hd_opt_def split: list.split)

text \<open>\<open>linked m i x ys p\<close>: at level \<open>i\<close> the links lead from \<open>x\<close> through \<open>ys\<close> to \<open>p\<close>.\<close>

fun linked :: "'k memory \<Rightarrow> nat \<Rightarrow> nat \<Rightarrow> nat list \<Rightarrow> ptr \<Rightarrow> bool" where
  "linked m i x [] p \<longleftrightarrow> node_next m x i = Some p"
| "linked m i x (y # ys) p \<longleftrightarrow> node_next m x i = Some (Some y) \<and> linked m i y ys p"

lemma linked_append:
  "linked m i x (ys @ z # zs) p \<longleftrightarrow> linked m i x ys (Some z) \<and> linked m i z zs p"
  by (induction ys arbitrary: x) auto

lemma linked_split:
  "linked m i x (pre @ suf) p \<Longrightarrow> linked m i x pre (if suf = [] then p else hd_opt suf)
    \<and> linked m i (last (x # pre)) suf p"
proof (induction pre arbitrary: x)
  case Nil
  then show ?case by (cases suf) auto
qed auto

lemma linked_next: "linked m i x suf None \<Longrightarrow> node_next m x i = Some (hd_opt suf)"
  by (cases suf) auto

lemma linked_same_next: "linked m i p suf None \<Longrightarrow> node_next m x i = Some (hd_opt suf) \<Longrightarrow> linked m i x suf None"
  by (cases suf) auto

lemma linked_frame:
  "\<forall>y \<in> set (x # ys). node_next m' y i = node_next m y i \<Longrightarrow> linked m' i x ys p = linked m i x ys p"
  by (induction ys arbitrary: x) auto

definition nkey :: "'k memory \<Rightarrow> nat \<Rightarrow> 'k" where
  "nkey m x = sn_key (the (m x))"

definition before :: "('k \<Rightarrow> 'k \<Rightarrow> int option) \<Rightarrow> 'k memory \<Rightarrow> 'k \<Rightarrow> nat \<Rightarrow> bool" where
  "before cmp m key x \<longleftrightarrow> key_lt cmp (nkey m x) key"

definition level_ok :: "('k \<Rightarrow> bool) \<Rightarrow> ('k \<Rightarrow> 'k \<Rightarrow> int option) \<Rightarrow> 'k memory \<Rightarrow> nat \<Rightarrow> nat \<Rightarrow> nat list \<Rightarrow> bool" where
  "level_ok valid cmp m head i l \<longleftrightarrow> linked m i head l None
     \<and> sorted_wrt (\<lambda>x y. key_lt cmp (nkey m x) (nkey m y)) l
     \<and> (\<forall>x \<in> set l. m x \<noteq> None \<and> valid (nkey m x) \<and> x \<noteq> head)"

definition sl_view ::
  "('k \<Rightarrow> bool) \<Rightarrow> ('k \<Rightarrow> 'k \<Rightarrow> int option) \<Rightarrow> 'k memory \<Rightarrow> nat \<Rightarrow> (nat \<Rightarrow> nat list) \<Rightarrow> bool" where
  "sl_view valid cmp m head L \<longleftrightarrow>
     (\<forall>i < kMaxHeight. level_ok valid cmp m head i (L i) \<and> (0 < i \<longrightarrow> set (L i) \<subseteq> set (L (i - 1))))"

text \<open>Where a search for \<open>key\<close> may stand at a level.\<close>

definition search_at ::
  "('k \<Rightarrow> 'k \<Rightarrow> int option) \<Rightarrow> 'k memory \<Rightarrow> nat \<Rightarrow> (nat \<Rightarrow> nat list) \<Rightarrow> 'k \<Rightarrow> nat \<Rightarrow> nat \<Rightarrow> bool" where
  "search_at cmp m head L key x level \<longleftrightarrow>
     level < kMaxHeight \<and> (x = head \<or> x \<in> set (L level) \<and> before cmp m key x)"

definition first_ge :: "('k \<Rightarrow> 'k \<Rightarrow> int option) \<Rightarrow> 'k memory \<Rightarrow> 'k \<Rightarrow> nat list \<Rightarrow> ptr" where
  "first_ge cmp m key l = hd_opt (dropWhile (before cmp m key) l)"

definition last_lt :: "('k \<Rightarrow> 'k \<Rightarrow> int option) \<Rightarrow> 'k memory \<Rightarrow> nat \<Rightarrow> 'k \<Rightarrow> nat list \<Rightarrow> nat" where
  "last_lt cmp m head key l = last (head # takeWhile (before cmp m key) l)"

lemma view_level: "sl_view valid cmp m head L \<Longrightarrow> i < kMaxHeight \<Longrightarrow> level_ok valid cmp m head i (L i)"
  by (simp add: sl_view_def)

lemma key_is_after_Some:
  "m x \<noteq> None \<Longrightarrow> cmp (nkey m x) key = Some r \<Longrightarrow> key_is_after_node cmp m key (Some x) = Some (r < 0)"
  by (auto simp: key_is_after_node_def nkey_def)

fun fill_prev :: "(nat \<Rightarrow> nat) \<Rightarrow> nat \<Rightarrow> ptr list \<Rightarrow> ptr list" where
  "fill_prev f 0 ps = ps[0 := Some (f 0)]"
| "fill_prev f (Suc n) ps = fill_prev f n (ps[Suc n := Some (f (Suc n))])"

lemma length_fill_prev [simp]: "length (fill_prev f n ps) = length ps"
  by (induction n arbitrary: ps) auto

lemma fill_prev_nth: "i < length ps \<Longrightarrow> fill_prev f n ps ! i = (if i \<le> n then Some (f i) else ps ! i)"
  by (induction n arbitrary: ps) (auto simp: nth_list_update le_Suc_eq)

context key_order begin

text \<open>In a sorted level the nodes before a key come first.\<close>

lemma sorted_before:
  assumes "level_ok valid cmp m head i l" "valid key" "l = pre @ y # suf" "before cmp m key y" "x \<in> set pre"
  shows "before cmp m key x"
proof -
  have "key_lt cmp (nkey m x) (nkey m y)" "valid (nkey m x)" "valid (nkey m y)"
    using assms(1,3,5) by (auto simp: level_ok_def sorted_wrt_append)
  then show ?thesis using assms(2,4) lt_trans unfolding before_def by blast
qed

lemma level_split:
  assumes ok: "level_ok valid cmp m head i l" and key: "valid key"
    and x: "x = head \<or> x \<in> set l \<and> before cmp m key x"
  shows "\<exists>pre suf. l = pre @ suf \<and> x = last (head # pre) \<and> (\<forall>y \<in> set pre. before cmp m key y)"
proof (cases "x = head")
  case False
  then have x: "x \<in> set l" "before cmp m key x" using x by auto
  then obtain pre suf where l: "l = pre @ x # suf" by (auto simp: in_set_conv_decomp)
  have "\<forall>y \<in> set (pre @ [x]). before cmp m key y" using sorted_before[OF ok key l x(2)] x(2) by auto
  with l show ?thesis by (intro exI[of _ "pre @ [x]"] exI[of _ suf]) simp
qed (auto intro: exI[of _ "[]"])

lemma dropWhile_at:
  assumes "\<forall>y \<in> set pre. before cmp m key y" "suf = [] \<or> \<not> before cmp m key (hd suf)"
  shows "dropWhile (before cmp m key) (pre @ suf) = suf" "takeWhile (before cmp m key) (pre @ suf) = pre"
  using assms by (cases suf; simp)+

lemma after_defined:
  assumes "level_ok valid cmp m head i l" "valid key" "y \<in> set l"
  shows "key_is_after_node cmp m key (Some y) = Some (before cmp m key y)"
proof -
  have y: "m y \<noteq> None" "valid (nkey m y)" using assms(1,3) by (auto simp: level_ok_def)
  obtain r where r: "cmp (nkey m y) key = Some r" using defined[OF y(2) assms(2)] by blast
  with key_is_after_Some[of m y cmp key r] y(1) show ?thesis by (simp add: before_def key_lt_def)
qed

text \<open>One turn of a search: it goes right at its level, goes down, or has found the node.\<close>

lemma search_cases:
  assumes view: "sl_view valid cmp m head L" and key: "valid key" and at: "search_at cmp m head L key x level"
  obtains (right) y where "node_next m x level = Some (Some y)" "key_is_after_node cmp m key (Some y) = Some True"
      "search_at cmp m head L key y level"
    | (down) p where "node_next m x level = Some p" "key_is_after_node cmp m key p = Some False" "0 < level"
      "x = last_lt cmp m head key (L level)" "search_at cmp m head L key x (level - 1)"
    | (found) "node_next m x level = Some (first_ge cmp m key (L 0))"
      "key_is_after_node cmp m key (first_ge cmp m key (L 0)) = Some False"
      "level = 0" "x = last_lt cmp m head key (L 0)"
proof -
  have lv: "level < kMaxHeight" using at by (simp add: search_at_def)
  note ok = view_level[OF view lv]
  obtain pre suf where l: "L level = pre @ suf" "x = last (head # pre)" "\<forall>y \<in> set pre. before cmp m key y"
    using level_split[OF ok key] at unfolding search_at_def by blast
  have nx: "node_next m x level = Some (hd_opt suf)"
    using ok l linked_split[of m level head pre suf None] linked_next by (fastforce simp: level_ok_def)
  show thesis
  proof (cases "suf \<noteq> [] \<and> before cmp m key (hd suf)")
    case True
    then obtain y suf' where s: "suf = y # suf'" by (cases suf) auto
    then have y: "y \<in> set (L level)" "before cmp m key y" using l(1) True by auto
    show thesis
      by (rule right[of y]) (use nx s y lv after_defined[OF ok key y(1)] in \<open>simp_all add: search_at_def\<close>)
  next
    case False
    have after: "key_is_after_node cmp m key (hd_opt suf) = Some False"
      using False after_defined[OF ok key, of "hd suf"] l(1) by (cases suf) (auto simp: key_is_after_node_def)
    have part: "takeWhile (before cmp m key) (L level) = pre" "dropWhile (before cmp m key) (L level) = suf"
      using dropWhile_at[of pre m key suf] l(1,3) False by auto
    have x: "x = last_lt cmp m head key (L level)" by (simp only: last_lt_def part l(2))
    show thesis
    proof (cases "level = 0")
      case True
      show thesis by (rule found) (use True x nx after part in \<open>simp_all add: first_ge_def\<close>)
    next
      case False
      have "search_at cmp m head L key x (level - 1)"
        using at view lv False by (auto simp: search_at_def sl_view_def)
      with nx after False x show thesis by (intro down) simp_all
    qed
  qed
qed

lemma view_next:
  assumes view: "sl_view valid cmp m head L" and lv: "level < kMaxHeight" and l: "L level = pre @ suf"
  shows "node_next m (last (head # pre)) level = Some (hd_opt suf)"
  using view_level[OF view lv] linked_split[of m level head pre suf None] linked_next l
  by (fastforce simp: level_ok_def)

text \<open>Induction along a search: the level falls, or what is left of the level gets shorter.\<close>

lemma search_induct [consumes 3, case_names right down found]:
  assumes view: "sl_view valid cmp m head L" and key: "valid key" and at: "search_at cmp m head L key x level"
    and right: "\<And>x y level. search_at cmp m head L key x level \<Longrightarrow> node_next m x level = Some (Some y) \<Longrightarrow>
      key_is_after_node cmp m key (Some y) = Some True \<Longrightarrow> P y level \<Longrightarrow> P x level"
    and down: "\<And>x level p. search_at cmp m head L key x (Suc level) \<Longrightarrow> node_next m x (Suc level) = Some p \<Longrightarrow>
      key_is_after_node cmp m key p = Some False \<Longrightarrow> x = last_lt cmp m head key (L (Suc level)) \<Longrightarrow>
      P x level \<Longrightarrow> P x (Suc level)"
    and found: "\<And>x. search_at cmp m head L key x 0 \<Longrightarrow> node_next m x 0 = Some (first_ge cmp m key (L 0)) \<Longrightarrow>
      key_is_after_node cmp m key (first_ge cmp m key (L 0)) = Some False \<Longrightarrow>
      x = last_lt cmp m head key (L 0) \<Longrightarrow> P x 0"
  shows "P x level"
  using at
proof (induction level arbitrary: x rule: less_induct)
  case (less level)
  then have lv: "level < kMaxHeight" by (simp add: search_at_def)
  have "P (last (head # pre)) level"
    if "L level = pre @ suf" "\<forall>y \<in> set pre. before cmp m key y" for pre suf
    using that
  proof (induction suf arbitrary: pre)
    case (Nil pre)
    let ?x = "last (head # pre)"
    have at: "search_at cmp m head L key ?x level" using Nil lv by (auto simp: search_at_def)
    show ?case
    proof (cases rule: search_cases[OF view key at])
      case (1 y)
      then show ?thesis using view_next[OF view lv Nil(1)] by simp
    next
      case (2 p)
      with less.IH[of "level - 1"] down[of ?x "level - 1" p] at show ?thesis by simp
    next
      case 3
      with found at show ?thesis by simp
    qed
  next
    case (Cons z suf pre)
    let ?x = "last (head # pre)"
    have at: "search_at cmp m head L key ?x level" using Cons.prems lv by (auto simp: search_at_def)
    show ?case
    proof (cases rule: search_cases[OF view key at])
      case (1 y)
      then have y: "y = z" using view_next[OF view lv Cons.prems(1)] by simp
      have "before cmp m key z"
        using 1(2) after_defined[OF view_level[OF view lv] key, of z] Cons.prems(1) y by simp
      with Cons.IH[of "pre @ [z]"] Cons.prems right[OF at 1(1,2)] y show ?thesis by auto
    next
      case (2 p)
      with less.IH[of "level - 1"] down[of ?x "level - 1" p] at show ?thesis by simp
    next
      case 3
      with found at show ?thesis by simp
    qed
  qed
  moreover obtain pre suf where "L level = pre @ suf" "x = last (head # pre)" "\<forall>y \<in> set pre. before cmp m key y"
    using level_split[OF view_level[OF view lv] key] less.prems unfolding search_at_def by blast
  ultimately show ?case by blast
qed

text \<open>The searches find the first node at or after the key, and the last one before it at each level.\<close>

lemma fge_loop_found:
  assumes view: "sl_view valid cmp m head L" and key: "valid key" and at: "search_at cmp m head L key x level"
  shows "fge_loop cmp m key x level prev =
    Some (first_ge cmp m key (L 0), map_option (fill_prev (\<lambda>i. last_lt cmp m head key (L i)) level) prev)"
proof -
  have "\<forall>prev. fge_loop cmp m key x level prev =
    Some (first_ge cmp m key (L 0), map_option (fill_prev (\<lambda>i. last_lt cmp m head key (L i)) level) prev)"
    using assms
  proof (induction rule: search_induct)
    case (right x y level)
    then show ?case by (subst fge_loop.simps) (simp add: fge_step_def)
  next
    case (down x level p)
    then show ?case
      by (subst fge_loop.simps)
        (simp add: fge_step_def Let_def option.map_comp comp_def fill_prev.simps(2)[abs_def])
  next
    case (found x)
    then show ?case
      by (subst fge_loop.simps) (simp add: fge_step_def Let_def fill_prev.simps(1)[abs_def])
  qed
  then show ?thesis by blast
qed

lemma search_at_ok:
  assumes view: "sl_view valid cmp m head L" and key: "valid key" and at: "search_at cmp m head L key x level"
  shows "(if x = head then Some True else key_is_after_node cmp m key (Some x)) = Some True"
  using at after_defined[OF view_level[OF view, of level] key, of x] by (auto simp: search_at_def)

lemma flt_loop_found:
  assumes view: "sl_view valid cmp m head L" and key: "valid key" and at: "search_at cmp m head L key x level"
  shows "flt_loop cmp m head key x level = Some (last_lt cmp m head key (L 0))"
  using assms
proof (induction rule: search_induct)
  case (right x y level)
  with search_at_ok[OF view key right(1)] show ?case by (subst flt_loop.simps) (simp add: flt_step_def)
next
  case (down x level p)
  show ?case
    by (subst flt_loop.simps) (use search_at_ok[OF view key down(1)] down(2,3,5) in \<open>simp add: flt_step_def\<close>)
next
  case (found x)
  have "flt_loop cmp m head key x 0 = Some x"
    by (subst flt_loop.simps) (use search_at_ok[OF view key found(1)] found(2,3) in \<open>simp add: flt_step_def\<close>)
  with found(4) show ?case by simp
qed

lemma last_loop_found:
  assumes view: "sl_view valid cmp m head L"
  shows "level < kMaxHeight \<Longrightarrow> x = head \<or> x \<in> set (L level) \<Longrightarrow> last_loop m x level = Some (last (head # L 0))"
proof (induction level arbitrary: x rule: less_induct)
  case (less level)
  have "last_loop m (last (head # pre)) level = Some (last (head # L 0))" if "L level = pre @ suf" for pre suf
    using that
  proof (induction suf arbitrary: pre)
    case (Nil pre)
    note nx = view_next[OF view less.prems(1) Nil]
    show ?case
    proof (cases "level = 0")
      case True
      with nx Nil show ?thesis by (subst last_loop.simps) (simp add: last_step_def)
    next
      case False
      have "set (L level) \<subseteq> set (L (level - 1))" using view less.prems(1) False by (simp add: sl_view_def)
      then have "last (head # pre) = head \<or> last (head # pre) \<in> set (L (level - 1))"
        using Nil by (metis append_Nil2 last.simps last_in_set subsetD)
      with less.IH[of "level - 1" "last (head # pre)"] False less.prems(1) nx show ?thesis
        by (subst last_loop.simps) (simp add: last_step_def)
    qed
  next
    case (Cons z suf pre)
    with view_next[OF view less.prems(1) Cons.prems] Cons.IH[of "pre @ [z]"] show ?case
      by (subst last_loop.simps) (simp add: last_step_def)
  qed
  moreover have "\<exists>pre suf. L level = pre @ suf \<and> x = last (head # pre)"
  proof (cases "x = head")
    case False
    then obtain pre suf where "L level = pre @ x # suf" using less.prems(2) by (auto simp: in_set_conv_decomp)
    then show ?thesis by (intro exI[of _ "pre @ [x]"] exI[of _ suf]) simp
  qed (auto intro: exI[of _ "[]"])
  ultimately show ?case by blast
qed

end

section \<open>Stores\<close>

definition same_nodes :: "'k memory \<Rightarrow> 'k memory \<Rightarrow> bool" where
  "same_nodes m m' \<longleftrightarrow> (\<forall>y. map_option (\<lambda>nd. (sn_key nd, length (sn_next nd))) (m' y)
     = map_option (\<lambda>nd. (sn_key nd, length (sn_next nd))) (m y))"

lemma same_nodes_refl [simp]: "same_nodes m m"
  by (simp add: same_nodes_def)

lemma same_nodes_trans: "same_nodes m m' \<Longrightarrow> same_nodes m' m'' \<Longrightarrow> same_nodes m m''"
  by (simp add: same_nodes_def)

lemma same_nodesD:
  assumes "same_nodes m m'"
  shows "m y \<noteq> None \<Longrightarrow> nkey m' y = nkey m y" "m' y = None \<longleftrightarrow> m y = None"
    "m y = Some nd \<Longrightarrow> \<exists>nd'. m' y = Some nd' \<and> length (sn_next nd') = length (sn_next nd)"
proof -
  have y: "map_option (\<lambda>nd. (sn_key nd, length (sn_next nd))) (m' y)
     = map_option (\<lambda>nd. (sn_key nd, length (sn_next nd))) (m y)" using assms by (simp add: same_nodes_def)
  then show "m y \<noteq> None \<Longrightarrow> nkey m' y = nkey m y" "m' y = None \<longleftrightarrow> m y = None"
    "m y = Some nd \<Longrightarrow> \<exists>nd'. m' y = Some nd' \<and> length (sn_next nd') = length (sn_next nd)"
    by (auto simp: nkey_def split: option.splits)
qed

lemma node_set_next_ok:
  assumes "m p = Some nd" "i < length (sn_next nd)"
  shows "\<exists>m'. node_set_next m p i q = Some m' \<and> same_nodes m m'
    \<and> (\<forall>y j. node_next m' y j = (if y = p \<and> j = i then Some q else node_next m y j))"
  using assms by (auto simp: node_set_next_def same_nodes_def node_next_def nth_list_update)

lemma node_next_height: "node_next m p i = Some q \<Longrightarrow> \<exists>nd. m p = Some nd \<and> i < length (sn_next nd)"
  by (auto simp: node_next_def split: option.splits if_splits)

lemma level_ok_same:
  assumes "level_ok valid cmp m head i l" "same_nodes m m'" "linked m' i head l None"
  shows "level_ok valid cmp m' head i l"
proof -
  have "nkey m' x = nkey m x" "m' x \<noteq> None" if "x \<in> set l" for x
    using assms(1) that same_nodesD(1,2)[OF assms(2), of x] by (auto simp: level_ok_def)
  with assms(1,3) show ?thesis
    by (auto simp: level_ok_def intro: sorted_wrt_mono_rel[rotated])
qed

text \<open>The ordered list with one more node, and with one more key.\<close>

definition put_node :: "('k \<Rightarrow> 'k \<Rightarrow> int option) \<Rightarrow> 'k memory \<Rightarrow> 'k \<Rightarrow> nat \<Rightarrow> nat list \<Rightarrow> nat list" where
  "put_node cmp m key x l = takeWhile (before cmp m key) l @ x # dropWhile (before cmp m key) l"

definition put_key :: "('k \<Rightarrow> 'k \<Rightarrow> int option) \<Rightarrow> 'k \<Rightarrow> 'k list \<Rightarrow> 'k list" where
  "put_key cmp key ks = takeWhile (\<lambda>k. key_lt cmp k key) ks @ key # dropWhile (\<lambda>k. key_lt cmp k key) ks"

lemma put_node_keys: "nkey m x = key \<Longrightarrow> map (nkey m) (put_node cmp m key x l) = put_key cmp key (map (nkey m) l)"
  by (simp add: put_node_def put_key_def takeWhile_map dropWhile_map comp_def before_def[abs_def])

lemma set_put_node [simp]: "set (put_node cmp m key x l) = insert x (set l)"
proof -
  have "set l = set (takeWhile (before cmp m key) l) \<union> set (dropWhile (before cmp m key) l)"
    by (metis set_append takeWhile_dropWhile_id)
  then show ?thesis by (auto simp: put_node_def)
qed

context key_order begin

lemma put_node_sorted:
  assumes ok: "level_ok valid cmp m head i l" and key: "valid key" and x: "nkey m x = key"
    and new: "\<forall>y \<in> set l. \<not> key_eqv cmp key (nkey m y)"
  shows "sorted_wrt (\<lambda>x y. key_lt cmp (nkey m x) (nkey m y)) (put_node cmp m key x l)"
proof -
  let ?B = "before cmp m key"
  have split: "l = takeWhile ?B l @ dropWhile ?B l" by simp
  have v: "valid (nkey m y)" if "y \<in> set l" for y using ok that by (simp add: level_ok_def)
  have s: "sorted_wrt (\<lambda>x y. key_lt cmp (nkey m x) (nkey m y)) l" using ok by (simp add: level_ok_def)
  have pre: "key_lt cmp (nkey m y) key" if "y \<in> set (takeWhile ?B l)" for y
    using that by (auto dest: set_takeWhileD simp: before_def)
  have suf: "key_lt cmp key (nkey m y)" if y: "y \<in> set (dropWhile ?B l)" for y
  proof -
    obtain z zs where z: "dropWhile ?B l = z # zs" using y by (cases "dropWhile ?B l") auto
    then have nz: "\<not> key_lt cmp (nkey m z) key" using hd_dropWhile[of ?B l] by (simp add: before_def)
    have zl: "z \<in> set l" "y \<in> set l" using z y set_dropWhileD by (metis list.set_intros(1))+
    have kz: "key_lt cmp key (nkey m z)" using trichotomy[OF key v[OF zl(1)]] nz new zl(1) by blast
    show ?thesis
    proof (cases "y = z")
      case False
      then have "y \<in> set zs" using y z by simp
      then have "key_lt cmp (nkey m z) (nkey m y)" using s split z by (metis sorted_wrt.simps(2) sorted_wrt_append)
      with kz show ?thesis using lt_trans key v zl by blast
    qed (use kz in simp)
  qed
  have "sorted_wrt (\<lambda>x y. key_lt cmp (nkey m x) (nkey m y)) (takeWhile ?B l)"
    "sorted_wrt (\<lambda>x y. key_lt cmp (nkey m x) (nkey m y)) (dropWhile ?B l)"
    "\<forall>a \<in> set (takeWhile ?B l). \<forall>b \<in> set (dropWhile ?B l). key_lt cmp (nkey m a) (nkey m b)"
    using s split sorted_wrt_append by metis+
  with pre suf x show ?thesis by (auto simp: put_node_def sorted_wrt_append)
qed

lemma level_distinct:
  assumes "level_ok valid cmp m head i l"
  shows "distinct (head # l)"
proof -
  have "sorted_wrt (\<lambda>x y. key_lt cmp (nkey m x) (nkey m y)) l" "\<forall>x \<in> set l. valid (nkey m x)"
    using assms by (auto simp: level_ok_def)
  then have "distinct l" by (induction l) auto
  with assms show ?thesis by (auto simp: level_ok_def)
qed

end

lemma linked_retarget:
  "distinct (x # ys) \<Longrightarrow> linked m i x ys q \<Longrightarrow> \<forall>y \<in> set (x # ys). node_next m' y i =
    (if y = last (x # ys) then Some r else node_next m y i) \<Longrightarrow> linked m' i x ys r"
proof (induction ys arbitrary: x)
  case (Cons y ys)
  have "node_next m' x i = Some (Some y)"
    using Cons.prems by (cases ys rule: rev_cases) (auto split: if_splits)
  moreover have "linked m' i y ys r" by (rule Cons.IH) (use Cons.prems in auto)
  ultimately show ?case by simp
qed simp

text \<open>The state of the levels after \<open>n\<close> stores of an insertion.\<close>

definition linked_levels ::
  "('k \<Rightarrow> 'k \<Rightarrow> int option) \<Rightarrow> 'k memory \<Rightarrow> 'k \<Rightarrow> nat \<Rightarrow> (nat \<Rightarrow> nat list) \<Rightarrow> nat \<Rightarrow> nat \<Rightarrow> nat list" where
  "linked_levels cmp m0 key x L n i = (if i < n div 2 then put_node cmp m0 key x (L i) else L i)"

definition link_inv ::
  "('k \<Rightarrow> bool) \<Rightarrow> ('k \<Rightarrow> 'k \<Rightarrow> int option) \<Rightarrow> nat \<Rightarrow> (nat \<Rightarrow> nat list) \<Rightarrow> 'k \<Rightarrow> nat \<Rightarrow> 'k memory \<Rightarrow> nat \<Rightarrow> 'k memory \<Rightarrow> bool" where
  "link_inv valid cmp head L key x m0 n m \<longleftrightarrow> same_nodes m0 m
     \<and> sl_view valid cmp m head (linked_levels cmp m0 key x L n)
     \<and> (odd n \<longrightarrow> node_next m x (n div 2) = Some (first_ge cmp m0 key (L (n div 2))))"

text \<open>What holds when the linking loop starts.\<close>

definition link_ready ::
  "('k \<Rightarrow> bool) \<Rightarrow> ('k \<Rightarrow> 'k \<Rightarrow> int option) \<Rightarrow> nat \<Rightarrow> (nat \<Rightarrow> nat list) \<Rightarrow> 'k \<Rightarrow> nat \<Rightarrow> ptr list \<Rightarrow> nat \<Rightarrow> 'k memory \<Rightarrow> bool" where
  "link_ready valid cmp head L key x prev height m0 \<longleftrightarrow> sl_view valid cmp m0 head L \<and> valid key
     \<and> nkey m0 x = key \<and> (\<exists>nd. m0 x = Some nd \<and> length (sn_next nd) = height) \<and> height \<le> kMaxHeight
     \<and> x \<notin> set (L 0) \<and> x \<noteq> head \<and> (\<forall>y \<in> set (L 0). \<not> key_eqv cmp key (nkey m0 y))
     \<and> (\<forall>i < height. prev ! i = Some (last_lt cmp m0 head key (L i)))"

lemma view_sub: "sl_view valid cmp m head L \<Longrightarrow> i < kMaxHeight \<Longrightarrow> set (L i) \<subseteq> set (L 0)"
proof (induction i)
  case (Suc i)
  then have "set (L (Suc i)) \<subseteq> set (L i)" unfolding sl_view_def by fastforce
  with Suc show ?case by simp
qed simp

context key_order begin

lemma link_store_even:
  assumes ready: "link_ready valid cmp head L key x prev height m0" and inv: "link_inv valid cmp head L key x m0 n m"
    and n: "n < 2 * height" "even n"
  shows "\<exists>m'. link_store x prev n m = Some m' \<and> link_inv valid cmp head L key x m0 (Suc n) m'"
proof -
  let ?i = "n div 2" and ?L = "linked_levels cmp m0 key x L n"
  let ?pre = "takeWhile (before cmp m0 key) (L (n div 2))" and ?suf = "dropWhile (before cmp m0 key) (L (n div 2))"
  have i: "?i < height" "?i < kMaxHeight" using n ready by (auto simp: link_ready_def)
  have view: "sl_view valid cmp m head ?L" and same: "same_nodes m0 m" using inv by (auto simp: link_inv_def)
  have Li: "?L ?i = ?pre @ ?suf" by (simp add: linked_levels_def)
  have nx: "node_next m (last (head # ?pre)) ?i = Some (hd_opt ?suf)" by (rule view_next[OF view i(2) Li])
  obtain nd where nd: "m x = Some nd" "length (sn_next nd) = height"
    using ready same same_nodesD(3) unfolding link_ready_def by metis
  obtain m' where m': "node_set_next m x ?i (hd_opt ?suf) = Some m'" "same_nodes m m'"
    "\<forall>y j. node_next m' y j = (if y = x \<and> j = ?i then Some (hd_opt ?suf) else node_next m y j)"
    using node_set_next_ok[of m x nd ?i "hd_opt ?suf"] i(1) nd by blast
  have "level_ok valid cmp m' head j (?L j)" if j: "j < kMaxHeight" for j
  proof (rule level_ok_same[OF view_level[OF view j] m'(2)])
    have "x \<notin> set (L j)" "x \<noteq> head" using ready view_sub[of valid cmp m0 head L j] j by (auto simp: link_ready_def)
    then have "\<forall>y \<in> set (head # ?L j). node_next m' y j = node_next m y j"
      using m'(3) by (auto simp: linked_levels_def)
    moreover have "linked m j head (?L j) None" using view_level[OF view j] by (simp add: level_ok_def)
    ultimately show "linked m' j head (?L j) None" by (simp only: linked_frame)
  qed
  then have "sl_view valid cmp m' head ?L" using view by (simp add: sl_view_def)
  moreover have "linked_levels cmp m0 key x L (Suc n) = ?L" using n(2) by (simp add: linked_levels_def fun_eq_iff)
  moreover have "link_store x prev n m = Some m'"
    using ready i(1) n(2) nx m'(1) by (simp add: link_store_def link_ready_def last_lt_def Let_def)
  ultimately show ?thesis using same_nodes_trans[OF same m'(2)] m'(3) n(2)
    by (auto simp: link_inv_def first_ge_def)
qed

lemma link_store_odd:
  assumes ready: "link_ready valid cmp head L key x prev height m0" and inv: "link_inv valid cmp head L key x m0 n m"
    and n: "n < 2 * height" "odd n"
  shows "\<exists>m'. link_store x prev n m = Some m' \<and> link_inv valid cmp head L key x m0 (Suc n) m'"
proof -
  let ?i = "n div 2" and ?L = "linked_levels cmp m0 key x L n" and ?L' = "linked_levels cmp m0 key x L (Suc n)"
  let ?pre = "takeWhile (before cmp m0 key) (L (n div 2))" and ?suf = "dropWhile (before cmp m0 key) (L (n div 2))"
  let ?p = "last (head # ?pre)"
  have i: "?i < height" "?i < kMaxHeight" using n ready by (auto simp: link_ready_def)
  have view: "sl_view valid cmp m head ?L" and same: "same_nodes m0 m" using inv by (auto simp: link_inv_def)
  have Li: "?L ?i = ?pre @ ?suf" by (simp add: linked_levels_def)
  have xn: "node_next m x ?i = Some (hd_opt ?suf)" using inv n(2) by (simp add: link_inv_def first_ge_def)
  obtain nd where nd: "m ?p = Some nd" "?i < length (sn_next nd)"
    using node_next_height[OF view_next[OF view i(2) Li]] by blast
  obtain m' where m': "node_set_next m ?p ?i (Some x) = Some m'" "same_nodes m m'"
    "\<forall>y j. node_next m' y j = (if y = ?p \<and> j = ?i then Some (Some x) else node_next m y j)"
    using node_set_next_ok[of m ?p nd ?i "Some x"] nd by blast
  have xL: "x \<notin> set (L j)" "x \<noteq> head" if "j < kMaxHeight" for j
    using ready view_sub[of valid cmp m0 head L j] that by (auto simp: link_ready_def)
  have L': "?L' j = (if j = ?i then ?pre @ x # ?suf else ?L j)" for j
    using n(2) by (auto simp: linked_levels_def put_node_def elim!: oddE)
  have "level_ok valid cmp m' head j (?L' j)" if j: "j < kMaxHeight" for j
  proof (cases "j = ?i")
    case False
    have "linked m j head (?L j) None" using view_level[OF view j] by (simp add: level_ok_def)
    moreover have "\<forall>y \<in> set (head # ?L j). node_next m' y j = node_next m y j" using m'(3) False by simp
    ultimately have "linked m' j head (?L j) None" by (simp only: linked_frame)
    from level_ok_same[OF view_level[OF view j] m'(2) this] False show ?thesis by (simp add: L')
  next
    case True
    note ok = view_level[OF view i(2)]
    have d: "distinct (head # ?pre @ ?suf)" using level_distinct[OF ok] by (simp only: Li)
    have p: "?p \<in> set (head # ?pre)" by simp
    have lk: "linked m ?i head ?pre (if ?suf = [] then None else hd_opt ?suf)" "linked m ?i ?p ?suf None"
      using linked_split[of m ?i head ?pre ?suf None] ok by (simp_all only: level_ok_def Li)
    have "linked m' ?i head ?pre (Some x)"
    proof (rule linked_retarget[OF _ lk(1)])
      show "distinct (head # ?pre)" using d by (metis distinct_append append_Cons)
      show "\<forall>y \<in> set (head # ?pre). node_next m' y ?i = (if y = ?p then Some (Some x) else node_next m y ?i)"
        by (auto simp only: m'(3) simp_thms)
    qed
    moreover have "linked m' ?i x ?suf None"
    proof -
      have xp: "x \<noteq> ?p" using p xL[OF i(2)] by (auto dest: set_takeWhileD)
      have nop: "\<forall>y \<in> set ?suf. y \<noteq> ?p" using d p by (metis distinct_append append_Cons disjoint_iff)
      have "linked m ?i x ?suf None" by (rule linked_same_next[OF lk(2) xn])
      moreover have "\<forall>y \<in> set (x # ?suf). node_next m' y ?i = node_next m y ?i" using nop xp m'(3) by simp
      ultimately show ?thesis by (simp only: linked_frame)
    qed
    ultimately have lk': "linked m' ?i head (?pre @ x # ?suf) None" by (simp only: linked_append)
    have view0: "sl_view valid cmp m0 head L" using ready by (simp add: link_ready_def)
    note ok0 = view_level[OF view0 i(2)]
    have srt: "sorted_wrt (\<lambda>x y. key_lt cmp (nkey m0 x) (nkey m0 y)) (?pre @ x # ?suf)"
      unfolding put_node_def[symmetric]
      by (rule put_node_sorted[OF ok0]) (use ready view_sub[OF view0 i(2)] in \<open>auto simp: link_ready_def\<close>)
    have all: "m0 y \<noteq> None \<and> valid (nkey m0 y) \<and> y \<noteq> head" if "y \<in> set (?pre @ x # ?suf)" for y
      using that ok0 ready by (auto simp: level_ok_def link_ready_def dest!: set_takeWhileD set_dropWhileD)
    have keys: "nkey m' y = nkey m0 y" "m' y \<noteq> None" if "y \<in> set (?pre @ x # ?suf)" for y
      using all[OF that] same_nodesD(1,2)[OF same_nodes_trans[OF same m'(2)], of y] by auto
    have "sorted_wrt (\<lambda>x y. key_lt cmp (nkey m' x) (nkey m' y)) (?pre @ x # ?suf)"
      by (rule sorted_wrt_mono_rel[OF _ srt]) (simp only: keys(1))
    moreover have "\<forall>y \<in> set (?pre @ x # ?suf). m' y \<noteq> None \<and> valid (nkey m' y) \<and> y \<noteq> head"
      using all keys by metis
    ultimately have "level_ok valid cmp m' head ?i (?pre @ x # ?suf)" using lk' unfolding level_ok_def by blast
    with True show ?thesis by (simp add: L')
  qed
  moreover have "0 < j \<longrightarrow> set (?L' j) \<subseteq> set (?L' (j - 1))" if j: "j < kMaxHeight" for j
  proof -
    have "0 < j \<longrightarrow> set (L j) \<subseteq> set (L (j - 1))" using ready j by (simp add: link_ready_def sl_view_def)
    then show ?thesis by (auto simp: linked_levels_def)
  qed
  ultimately have "sl_view valid cmp m' head ?L'" by (simp add: sl_view_def)
  moreover have "link_store x prev n m = Some m'"
    using ready i(1) n(2) m'(1) by (simp add: link_store_def link_ready_def last_lt_def Let_def)
  ultimately show ?thesis using same_nodes_trans[OF same m'(2)] n(2) by (auto simp: link_inv_def)
qed

lemma link_stores_inv:
  assumes ready: "link_ready valid cmp head L key x prev height m0"
  shows "n \<le> 2 * height \<Longrightarrow> \<exists>m. link_stores x prev n m0 = Some m \<and> link_inv valid cmp head L key x m0 n m"
proof (induction n)
  case 0
  then show ?case using ready by (simp add: link_inv_def link_ready_def linked_levels_def[abs_def])
next
  case (Suc n)
  then obtain m where m: "link_stores x prev n m0 = Some m" "link_inv valid cmp head L key x m0 n m" by auto
  have "n < 2 * height" using Suc.prems by simp
  with link_store_even[OF ready m(2)] link_store_odd[OF ready m(2)] m(1) show ?case by (cases "even n") auto
qed

end

section \<open>The list and its arena\<close>

text \<open>The levels of a list that is not being inserted into; every node is a live region of the arena.\<close>

definition sl_inv ::
  "('k \<Rightarrow> bool) \<Rightarrow> ('k \<Rightarrow> 'k \<Rightarrow> int option) \<Rightarrow> 'k skip_list \<Rightarrow> (nat \<Rightarrow> nat list) \<Rightarrow> (nat \<times> nat) list \<Rightarrow> bool" where
  "sl_inv valid cmp s L rs \<longleftrightarrow> sl_view valid cmp (sl_nodes s) (sl_head s) L
     \<and> 0 < sl_max_height s \<and> sl_max_height s \<le> kMaxHeight
     \<and> (\<forall>i < kMaxHeight. sl_max_height s \<le> i \<longrightarrow> L i = [])
     \<and> arena_inv (sl_arena s) rs \<and> (\<forall>r \<in> set rs. 0 < snd r)
     \<and> (\<forall>x. sl_nodes s x \<noteq> None \<longrightarrow> x \<in> fst ` set rs)"

definition keys_of :: "'k skip_list \<Rightarrow> (nat \<Rightarrow> nat list) \<Rightarrow> 'k list" where
  "keys_of s L = map (nkey (sl_nodes s)) (L 0)"

lemma random_height_range: "\<exists>h rnd'. random_height rnd = Some (h, rnd') \<and> 0 < h \<and> h \<le> kMaxHeight"
proof -
  have "h \<le> kMaxHeight \<Longrightarrow> 0 < h \<Longrightarrow>
    \<exists>h' rnd'. random_height_loop h rnd = Some (h', rnd') \<and> 0 < h' \<and> h' \<le> kMaxHeight" for h
  proof (induction h rnd rule: random_height_loop.induct)
    case (1 h rnd)
    obtain b rnd' where r: "random_one_in rnd 4 = Some (b, rnd')" by (auto simp: random_one_in_def Let_def)
    show ?case using 1(1)[OF _ r] 1(2,3) r by (subst random_height_loop.simps) auto
  qed
  from this[of 1] show ?thesis by (auto simp: random_height_def kMaxHeight_def)
qed

lemma node_size_request: "h \<le> kMaxHeight \<Longrightarrow> arena_request (node_size h)"
  by (simp add: arena_request_def node_size_def kMaxHeight_def)

lemma new_address_node: "h \<le> kMaxHeight \<Longrightarrow> new_address 0 a ar \<Longrightarrow> new_address (node_size h) a ar"
proof -
  assume "h \<le> kMaxHeight" "new_address 0 a ar"
  moreover from this(1) have "max (node_size h) kArenaBlockSize = kArenaBlockSize"
    by (simp add: node_size_def kMaxHeight_def kArenaBlockSize_def)
  ultimately show ?thesis by (simp add: new_address_def)
qed

lemma new_node_ok:
  assumes "arena_inv ar rs" "\<forall>r \<in> set rs. 0 < snd r" "\<forall>x. m x \<noteq> None \<longrightarrow> x \<in> fst ` set rs"
    and "h \<le> kMaxHeight" "new_address 0 a ar"
  shows "\<exists>p ar'. new_node key h a ar m = Some (p, ar', m(p \<mapsto> \<lparr>sn_key = key, sn_next = replicate h None\<rparr>))
    \<and> arena_inv ar' ((p, node_size h) # rs) \<and> m p = None"
proof -
  note req = node_size_request[OF assms(4)] and addr = new_address_node[OF assms(4,5)]
  obtain p ar' where p: "allocate_aligned (node_size h) a ar = Some (p, ar')" "arena_inv ar' ((p, node_size h) # rs)"
    using arena_aligned.alloc_ok[OF assms(1) req addr] by blast
  have "p \<notin> fst ` set rs"
    using arena_aligned.alloc_new_address[OF assms(1) req addr p(1)] assms(2) by (simp add: node_size_def)
  with p assms(3) show ?thesis by (auto simp: new_node_def)
qed

lemma view_new_node:
  assumes "sl_view valid cmp m head L" "m p = None"
  shows "sl_view valid cmp (m(p \<mapsto> nd)) head L"
proof -
  have nx: "node_next (m(p \<mapsto> nd)) y i = node_next m y i" if "y \<noteq> p" for y i
    using that by (simp add: node_next_def)
  have hp: "head \<noteq> p" if "level_ok valid cmp m head i l" for i l
    using that assms(2) by (cases l) (auto simp: level_ok_def node_next_def)
  have "level_ok valid cmp (m(p \<mapsto> nd)) head i l" if ok: "level_ok valid cmp m head i l" for i l
  proof -
    have mem: "m y \<noteq> None \<and> y \<noteq> p" if "y \<in> set l" for y using ok that assms(2) by (auto simp: level_ok_def)
    have "\<forall>y \<in> set (head # l). node_next (m(p \<mapsto> nd)) y i = node_next m y i" using mem hp[OF ok] nx by simp
    then have "linked (m(p \<mapsto> nd)) i head l None" using ok linked_frame unfolding level_ok_def by metis
    moreover have k: "nkey (m(p \<mapsto> nd)) y = nkey m y" if "y \<in> set l" for y using mem[OF that] by (simp add: nkey_def)
    moreover have "sorted_wrt (\<lambda>x y. key_lt cmp (nkey (m(p \<mapsto> nd)) x) (nkey (m(p \<mapsto> nd)) y)) l"
      by (rule sorted_wrt_mono_rel[of _ "\<lambda>x y. key_lt cmp (nkey m x) (nkey m y)"])
        (use ok k in \<open>auto simp: level_ok_def\<close>)
    ultimately show ?thesis using ok by (auto simp: level_ok_def)
  qed
  with assms(1) show ?thesis by (simp add: sl_view_def)
qed

lemma before_new_node:
  "\<forall>y \<in> set l. y \<noteq> p \<Longrightarrow> last_lt cmp (m(p \<mapsto> nd)) head key l = last_lt cmp m head key l"
  "\<forall>y \<in> set l. y \<noteq> p \<Longrightarrow> first_ge cmp (m(p \<mapsto> nd)) key l = first_ge cmp m key l"
proof -
  assume "\<forall>y \<in> set l. y \<noteq> p"
  then have "\<forall>y \<in> set l. before cmp (m(p \<mapsto> nd)) key y = before cmp m key y" by (simp add: before_def nkey_def)
  then have "takeWhile (before cmp (m(p \<mapsto> nd)) key) l = takeWhile (before cmp m key) l"
    "dropWhile (before cmp (m(p \<mapsto> nd)) key) l = dropWhile (before cmp m key) l"
    by (auto intro: takeWhile_cong dropWhile_cong)
  then show "last_lt cmp (m(p \<mapsto> nd)) head key l = last_lt cmp m head key l"
    "first_ge cmp (m(p \<mapsto> nd)) key l = first_ge cmp m key l" by (simp_all add: last_lt_def first_ge_def)
qed

context key_order begin

lemma find_ge_found:
  assumes "sl_inv valid cmp s L rs" "valid key"
  shows "find_greater_or_equal cmp s key prev = Some (first_ge cmp (sl_nodes s) key (L 0),
    map_option (fill_prev (\<lambda>i. last_lt cmp (sl_nodes s) (sl_head s) key (L i)) (sl_max_height s - 1)) prev)"
proof -
  have "search_at cmp (sl_nodes s) (sl_head s) L key (sl_head s) (sl_max_height s - 1)"
    using assms(1) by (auto simp: search_at_def sl_inv_def)
  with assms show ?thesis by (simp add: find_greater_or_equal_def sl_inv_def fge_loop_found)
qed

lemma find_lt_found:
  assumes "sl_inv valid cmp s L rs" "valid key"
  shows "find_less_than cmp s key = Some (last_lt cmp (sl_nodes s) (sl_head s) key (L 0))"
proof -
  have "search_at cmp (sl_nodes s) (sl_head s) L key (sl_head s) (sl_max_height s - 1)"
    using assms(1) by (auto simp: search_at_def sl_inv_def)
  with assms show ?thesis by (simp add: find_less_than_def sl_inv_def flt_loop_found)
qed

lemma find_last_found:
  assumes "sl_inv valid cmp s L rs"
  shows "find_last s = Some (last (sl_head s # L 0))"
  using assms last_loop_found[of "sl_nodes s" "sl_head s" L "sl_max_height s - 1" "sl_head s"]
  by (auto simp: find_last_def sl_inv_def)

text \<open>The node at or after the key decides whether an equal key is there.\<close>

lemma equal_first_ge:
  assumes ok: "level_ok valid cmp m head i l" and key: "valid key"
  shows "(case first_ge cmp m key l of None \<Rightarrow> Some False | Some y \<Rightarrow> key_equal cmp m key y)
    = Some (\<exists>y \<in> set l. key_eqv cmp key (nkey m y))"
proof (cases "dropWhile (before cmp m key) l")
  case Nil
  then have all: "\<forall>y \<in> set l. before cmp m key y" by (simp add: dropWhile_eq_Nil_conv)
  moreover have "\<not> key_eqv cmp key (nkey m y)" if "before cmp m key y" "valid (nkey m y)" for y
    using that eqv_sym[OF key that(2)] by (auto simp: before_def key_lt_def key_eqv_def)
  ultimately have "\<not> (\<exists>y \<in> set l. key_eqv cmp key (nkey m y))" using ok by (auto simp: level_ok_def)
  moreover have "first_ge cmp m key l = None" by (simp add: first_ge_def Nil del: dropWhile_eq_Nil_conv)
  ultimately show ?thesis by simp
next
  case (Cons z zs)
  let ?B = "before cmp m key"
  have split: "l = takeWhile ?B l @ z # zs" by (simp add: Cons[symmetric])
  have v: "valid (nkey m y)" "m y \<noteq> None" if "y \<in> set l" for y using ok that by (auto simp: level_ok_def)
  have zl: "z \<in> set l" using split by (metis in_set_conv_decomp)
  have nz: "\<not> key_lt cmp (nkey m z) key" using hd_dropWhile[of ?B l] Cons by (simp add: before_def)
  have pre: "\<not> key_eqv cmp key (nkey m y)" if "y \<in> set (takeWhile ?B l)" for y
  proof -
    have "key_lt cmp (nkey m y) key" "y \<in> set l" using that by (auto dest: set_takeWhileD simp: before_def)
    then show ?thesis using eqv_sym[OF key v(1)] by (auto simp: key_lt_def key_eqv_def)
  qed
  have suf: "\<not> key_eqv cmp key (nkey m y)" if "y \<in> set zs" for y
  proof
    assume e: "key_eqv cmp key (nkey m y)"
    have yl: "y \<in> set l" using split that by (metis Un_iff list.set_intros(2) set_append)
    have "key_lt cmp (nkey m z) (nkey m y)"
      using ok split that unfolding level_ok_def by (metis sorted_wrt.simps(2) sorted_wrt_append)
    moreover have "\<not> key_lt cmp key (nkey m y)" using e by (auto simp: key_lt_def key_eqv_def)
    ultimately have "key_lt cmp (nkey m z) key" using lt_nlt_trans v(1) zl yl key by blast
    with nz show False by simp
  qed
  obtain r where r: "cmp key (nkey m z) = Some r" using defined[OF key v(1)[OF zl]] by blast
  obtain nd where nd: "m z = Some nd" using v(2)[OF zl] by blast
  have "(\<exists>y \<in> set l. key_eqv cmp key (nkey m y)) \<longleftrightarrow> key_eqv cmp key (nkey m z)"
    using pre suf zl split by (metis Un_iff set_ConsD set_append)
  with r nd Cons show ?thesis by (simp add: first_ge_def key_equal_def nkey_def key_eqv_def)
qed

lemma contains_found:
  assumes inv: "sl_inv valid cmp s L rs" and key: "valid key"
  shows "sl_contains cmp key s = Some (\<exists>k \<in> set (keys_of s L). key_eqv cmp key k)"
proof -
  have "level_ok valid cmp (sl_nodes s) (sl_head s) 0 (L 0)"
    using inv by (simp add: sl_inv_def sl_view_def kMaxHeight_def)
  from equal_first_ge[OF this key] show ?thesis
    by (simp add: sl_contains_def find_ge_found[OF inv key] keys_of_def cong: option.case_cong)
qed

lemma view_ready:
  assumes inv: "sl_inv valid cmp s L rs" and key: "valid key"
    and new: "\<forall>k \<in> set (keys_of s L). \<not> key_eqv cmp key k" and addr: "new_address 0 a (sl_arena s)"
  shows "\<exists>x prev h s1. insert_prepare cmp key a s = Some (x, prev, h, s1) \<and> 0 < h
    \<and> link_ready valid cmp (sl_head s) L key x prev h (sl_nodes s1)
    \<and> s1 = s\<lparr>sl_rnd := sl_rnd s1, sl_max_height := max (sl_max_height s) h, sl_arena := sl_arena s1,
             sl_nodes := (sl_nodes s)(x \<mapsto> \<lparr>sn_key = key, sn_next = replicate h None\<rparr>)\<rparr>
    \<and> arena_inv (sl_arena s1) ((x, node_size h) # rs) \<and> sl_nodes s x = None"
proof -
  let ?m = "sl_nodes s" and ?f = "\<lambda>i. last_lt cmp (sl_nodes s) (sl_head s) key (L i)"
  let ?prev = "fill_prev ?f (sl_max_height s - 1) (replicate kMaxHeight None)"
  have view: "sl_view valid cmp ?m (sl_head s) L" and mh: "0 < sl_max_height s" "sl_max_height s \<le> kMaxHeight"
    using inv by (auto simp: sl_inv_def)
  have ok0: "level_ok valid cmp ?m (sl_head s) 0 (L 0)" using view_level[OF view] by (simp add: kMaxHeight_def)
  have dup: "(case first_ge cmp ?m key (L 0) of None \<Rightarrow> Some False | Some y \<Rightarrow> key_equal cmp ?m key y) = Some False"
    using equal_first_ge[OF ok0 key] new by (simp add: keys_of_def)
  obtain h rnd where h: "random_height (sl_rnd s) = Some (h, rnd)" "0 < h" "h \<le> kMaxHeight"
    using random_height_range by blast
  obtain x ar where x: "new_node key h a (sl_arena s) ?m = Some (x, ar, ?m(x \<mapsto> \<lparr>sn_key = key, sn_next = replicate h None\<rparr>))"
    "arena_inv ar ((x, node_size h) # rs)" "?m x = None"
    using new_node_ok[of "sl_arena s" rs ?m h a key] inv h(3) addr by (auto simp: sl_inv_def)
  let ?m1 = "?m(x \<mapsto> \<lparr>sn_key = key, sn_next = replicate h None\<rparr>)"
  let ?prev1 = "if h > sl_max_height s then raise_prev (sl_head s) (sl_max_height s) h ?prev else ?prev"
  let ?s1 = "s\<lparr>sl_rnd := rnd, sl_max_height := max (sl_max_height s) h, sl_arena := ar, sl_nodes := ?m1\<rparr>"
  have run: "insert_prepare cmp key a s = Some (x, ?prev1, h, ?s1)"
    using dup h(1) x(1) by (simp add: insert_prepare_def find_ge_found[OF inv key] Let_def)
  have xL: "\<forall>y \<in> set (L i). y \<noteq> x" if "i < kMaxHeight" for i
    using view_level[OF view that] x(3) by (auto simp: level_ok_def)
  have hx: "x \<noteq> sl_head s"
  proof
    assume "x = sl_head s"
    moreover have "node_next ?m (sl_head s) 0 \<noteq> None" using ok0 by (cases "L 0") (auto simp: level_ok_def)
    ultimately show False using x(3) by (simp add: node_next_def)
  qed
  have prev: "?prev1 ! i = Some (last_lt cmp ?m1 (sl_head s) key (L i))" if i: "i < h" for i
  proof -
    have "i < kMaxHeight" using i h(3) by simp
    moreover have "last_lt cmp ?m1 (sl_head s) key (L i) = ?f i"
      by (rule before_new_node(1)) (rule xL[OF \<open>i < kMaxHeight\<close>])
    moreover have "?f i = sl_head s" if "sl_max_height s \<le> i"
      using inv that \<open>i < kMaxHeight\<close> by (simp add: sl_inv_def last_lt_def)
    ultimately show ?thesis using i mh by (auto simp: raise_prev_def fill_prev_nth)
  qed
  have "\<forall>y \<in> set (L 0). \<not> key_eqv cmp key (nkey ?m1 y)" "x \<notin> set (L 0)"
    using new xL[of 0] by (auto simp: keys_of_def nkey_def kMaxHeight_def)
  moreover have "nkey ?m1 x = key" "\<exists>nd. ?m1 x = Some nd \<and> length (sn_next nd) = h" by (simp_all add: nkey_def)
  moreover have "sl_nodes ?s1 = ?m1" by simp
  ultimately have ready: "link_ready valid cmp (sl_head s) L key x ?prev1 h (sl_nodes ?s1)"
    using view_new_node[OF view x(3)] key h(3) hx prev unfolding link_ready_def by metis
  show ?thesis
  proof (intro exI conjI)
    show "insert_prepare cmp key a s = Some (x, ?prev1, h, ?s1)" by (rule run)
    show "0 < h" "sl_nodes s x = None" by (rule h(2), rule x(3))
    show "link_ready valid cmp (sl_head s) L key x ?prev1 h (sl_nodes ?s1)" by (rule ready)
    show "arena_inv (sl_arena ?s1) ((x, node_size h) # rs)" using x(2) by simp
  qed simp
qed

text \<open>The keys of the bottom level while the links are stored: the new one is there from the second store on.\<close>

lemma linked_keys:
  assumes ready: "link_ready valid cmp head L key x prev h m1" and links: "link_inv valid cmp head L key x m1 n m"
  shows "map (nkey m) (linked_levels cmp m1 key x L n 0)
    = (if 1 < n then put_key cmp key (map (nkey m1) (L 0)) else map (nkey m1) (L 0))"
proof -
  let ?l = "linked_levels cmp m1 key x L n 0"
  have same: "same_nodes m1 m" and view: "sl_view valid cmp m head (linked_levels cmp m1 key x L n)"
    using links by (auto simp: link_inv_def)
  have alive: "m1 y \<noteq> None" if "y \<in> set ?l" for y
    using view_level[OF view, of 0] that same_nodesD(2)[OF same] by (auto simp: level_ok_def kMaxHeight_def)
  have "map (nkey m) ?l = map (nkey m1) ?l"
    using alive same_nodesD(1)[OF same] by (intro map_cong) blast+
  also have "\<dots> = (if 1 < n then put_key cmp key (map (nkey m1) (L 0)) else map (nkey m1) (L 0))"
    using put_node_keys[of m1 x key cmp "L 0"] ready by (simp add: linked_levels_def link_ready_def)
  finally show ?thesis .
qed

text \<open>When every link is stored the list is whole again, with the key at its place in the order.\<close>

lemma all_linked_inv:
  assumes inv: "sl_inv valid cmp s L rs" and h0: "0 < h"
    and ready: "link_ready valid cmp (sl_head s) L key x prev h (sl_nodes s1)"
    and s1: "s1 = s\<lparr>sl_rnd := sl_rnd s1, sl_max_height := max (sl_max_height s) h, sl_arena := sl_arena s1,
             sl_nodes := (sl_nodes s)(x \<mapsto> \<lparr>sn_key = key, sn_next = replicate h None\<rparr>)\<rparr>"
    and ar: "arena_inv (sl_arena s1) ((x, node_size h) # rs)" and fresh: "sl_nodes s x = None"
    and whole: "link_inv valid cmp (sl_head s) L key x (sl_nodes s1) (2 * h) m"
  shows "sl_inv valid cmp (s1\<lparr>sl_nodes := m\<rparr>) (linked_levels cmp (sl_nodes s1) key x L (2 * h)) ((x, node_size h) # rs)"
    and "keys_of (s1\<lparr>sl_nodes := m\<rparr>) (linked_levels cmp (sl_nodes s1) key x L (2 * h)) = put_key cmp key (keys_of s L)"
proof -
  let ?m1 = "sl_nodes s1" and ?s' = "s1\<lparr>sl_nodes := m\<rparr>"
  let ?L' = "linked_levels cmp ?m1 key x L (2 * h)"
  have m1: "?m1 = (sl_nodes s)(x \<mapsto> \<lparr>sn_key = key, sn_next = replicate h None\<rparr>)" by (subst s1) simp
  have h: "h \<le> kMaxHeight" using ready by (simp add: link_ready_def)
  have same: "same_nodes ?m1 m" and view: "sl_view valid cmp m (sl_head s) ?L'" using whole by (auto simp: link_inv_def)
  have hd: "sl_head s1 = sl_head s" "sl_max_height s1 = max (sl_max_height s) h" by (subst s1, simp)+
  have "\<forall>y. m y \<noteq> None \<longrightarrow> y \<in> fst ` set ((x, node_size h) # rs)"
    using inv same_nodesD(2)[OF same] m1 by (auto simp: sl_inv_def split: if_splits)
  then show "sl_inv valid cmp ?s' ?L' ((x, node_size h) # rs)"
    using inv view h0 ar h hd by (auto simp: sl_inv_def linked_levels_def node_size_def)
  have "map (nkey m) (?L' 0) = put_key cmp key (map (nkey ?m1) (L 0))"
    using linked_keys[OF ready whole] h0 by simp
  also have "map (nkey ?m1) (L 0) = map (nkey (sl_nodes s)) (L 0)"
    using ready m1 by (intro map_cong) (auto simp: nkey_def link_ready_def)
  finally show "keys_of ?s' ?L' = put_key cmp key (keys_of s L)" by (simp add: keys_of_def)
qed

lemma sl_insert_inv:
  assumes inv: "sl_inv valid cmp s L rs" and key: "valid key"
    and new: "\<forall>k \<in> set (keys_of s L). \<not> key_eqv cmp key k" and addr: "new_address 0 a (sl_arena s)"
  shows "\<exists>s' L' rs'. sl_insert cmp key a s = Some s' \<and> sl_inv valid cmp s' L' rs'
    \<and> keys_of s' L' = put_key cmp key (keys_of s L)"
proof -
  obtain x prev h s1 where p: "insert_prepare cmp key a s = Some (x, prev, h, s1)" "0 < h"
    "link_ready valid cmp (sl_head s) L key x prev h (sl_nodes s1)"
    "s1 = s\<lparr>sl_rnd := sl_rnd s1, sl_max_height := max (sl_max_height s) h, sl_arena := sl_arena s1,
             sl_nodes := (sl_nodes s)(x \<mapsto> \<lparr>sn_key = key, sn_next = replicate h None\<rparr>)\<rparr>"
    "arena_inv (sl_arena s1) ((x, node_size h) # rs)" "sl_nodes s x = None"
    using view_ready[OF assms] by blast
  obtain m where m: "link_stores x prev (2 * h) (sl_nodes s1) = Some m"
    "link_inv valid cmp (sl_head s) L key x (sl_nodes s1) (2 * h) m"
    using link_stores_inv[OF p(3), of "2 * h"] by blast
  have "sl_insert cmp key a s = Some (s1\<lparr>sl_nodes := m\<rparr>)" using p(1) m(1) by (simp add: sl_insert_def)
  with all_linked_inv[OF inv p(2-6) m(2)] show ?thesis by blast
qed

end

lemma clear_links_ok:
  assumes "m x = Some nd"
  shows "n \<le> length (sn_next nd) \<Longrightarrow> \<exists>m'. clear_links x n m = Some m' \<and> same_nodes m m'
    \<and> (\<forall>i < n. node_next m' x i = Some None)"
proof (induction n)
  case (Suc n)
  then obtain m' where m': "clear_links x n m = Some m'" "same_nodes m m'" "\<forall>i < n. node_next m' x i = Some None" by auto
  obtain nd' where nd': "m' x = Some nd'" "length (sn_next nd') = length (sn_next nd)"
    using same_nodesD(3)[OF m'(2) assms] by blast
  obtain m'' where "node_set_next m' x n None = Some m''" "same_nodes m' m''"
    "\<forall>y j. node_next m'' y j = (if y = x \<and> j = n then Some None else node_next m' y j)"
    using node_set_next_ok[of m' x nd' n None] nd' Suc.prems by auto
  with m' same_nodes_trans show ?case by (fastforce simp: less_Suc_eq)
qed simp

lemma sl_ctor_inv:
  assumes "new_address 0 a arena_ctor"
  shows "\<exists>s rs. skip_list_ctor zero a arena_ctor = Some s \<and> sl_inv valid cmp s (\<lambda>_. []) rs"
proof -
  let ?nd = "\<lparr>sn_key = zero, sn_next = replicate kMaxHeight None\<rparr>"
  obtain h ar where h: "new_node zero kMaxHeight a arena_ctor (\<lambda>_. None) = Some (h, ar, [h \<mapsto> ?nd])"
    "arena_inv ar [(h, node_size kMaxHeight)]"
    using new_node_ok[OF arena_ctor_inv, of "\<lambda>_. None" kMaxHeight a zero] assms by auto
  obtain m where m: "clear_links h kMaxHeight [h \<mapsto> ?nd] = Some m" "same_nodes [h \<mapsto> ?nd] m"
    "\<forall>i < kMaxHeight. node_next m h i = Some None"
    using clear_links_ok[of "[h \<mapsto> ?nd]" h ?nd kMaxHeight] by auto
  let ?s = "\<lparr>sl_arena = ar, sl_head = h, sl_max_height = 1, sl_rnd = random_ctor 0xdeadbeef, sl_nodes = m\<rparr>"
  have "\<forall>x. m x \<noteq> None \<longrightarrow> x = h" using same_nodesD(2)[OF m(2)] by (auto split: if_splits)
  then have "sl_inv valid cmp ?s (\<lambda>_. []) [(h, node_size kMaxHeight)]"
    using h(2) m(3) by (auto simp: sl_inv_def sl_view_def level_ok_def kMaxHeight_def node_size_def)
  with h(1) m(1) show ?thesis by (auto simp: skip_list_ctor_def)
qed

end
