(* ===== verification/Skip_List_Spec.thy ===== *)
theory Skip_List_Spec
  imports Skip_List_Inv
begin

text \<open>
  The properties of the skip list: the lists a client can build, look-up, iteration in both
  directions, and readers that run while an insertion is linking its node.
\<close>

section \<open>Lists a client can build\<close>

text \<open>
  \<open>ks\<close> are the keys in order.  Keys are valid for the comparator, no inserted key equals one that is
  there, and \<open>new[]\<close> keeps its promise.
\<close>

inductive sl_reach :: "('k \<Rightarrow> bool) \<Rightarrow> ('k \<Rightarrow> 'k \<Rightarrow> int option) \<Rightarrow> 'k skip_list \<Rightarrow> 'k list \<Rightarrow> bool"
  for valid cmp where
  start: "new_address 0 a arena_ctor \<Longrightarrow> skip_list_ctor zero a arena_ctor = Some s \<Longrightarrow> sl_reach valid cmp s []"
| inserted: "sl_reach valid cmp s ks \<Longrightarrow> valid key \<Longrightarrow> \<forall>k \<in> set ks. \<not> key_eqv cmp key k \<Longrightarrow>
    new_address 0 a (sl_arena s) \<Longrightarrow> sl_insert cmp key a s = Some s' \<Longrightarrow> sl_reach valid cmp s' (put_key cmp key ks)"

lemma sl_reach_inv:
  assumes "key_order valid cmp" "sl_reach valid cmp s ks"
  shows "\<exists>L rs. sl_inv valid cmp s L rs \<and> keys_of s L = ks"
  using assms(2)
proof (induction rule: sl_reach.induct)
  case (start a zero s)
  obtain rs where "sl_inv valid cmp s (\<lambda>_. []) rs"
    using sl_ctor_inv[OF start(1), of zero valid cmp] start(2) by auto
  then show ?case by (auto simp: keys_of_def)
next
  case (inserted s ks key a s')
  then obtain L rs where "sl_inv valid cmp s L rs" "keys_of s L = ks" by blast
  with key_order.sl_insert_inv[OF assms(1), of s L rs key a] inserted(2-5) show ?case by auto
qed

lemma keys_sorted: "sl_inv valid cmp s L rs \<Longrightarrow> sorted_wrt (key_lt cmp) (keys_of s L)"
  by (simp add: sl_inv_def sl_view_def level_ok_def kMaxHeight_def keys_of_def sorted_wrt_map)

lemma bottom_ok: "sl_inv valid cmp s L rs \<Longrightarrow> level_ok valid cmp (sl_nodes s) (sl_head s) 0 (L 0)"
  by (simp add: sl_inv_def sl_view_def kMaxHeight_def)

lemma keys_valid: "sl_inv valid cmp s L rs \<Longrightarrow> k \<in> set (keys_of s L) \<Longrightarrow> valid k"
  using bottom_ok by (fastforce simp: keys_of_def level_ok_def)

section \<open>Iteration\<close>

text \<open>The keys an iterator passes in \<open>n\<close> steps, and where it stands then.\<close>

fun walk :: "(ptr \<Rightarrow> ptr option) \<Rightarrow> (ptr \<Rightarrow> 'k option) \<Rightarrow> nat \<Rightarrow> ptr \<Rightarrow> ('k list \<times> ptr) option" where
  "walk step key 0 it = Some ([], it)"
| "walk step key (Suc n) it =
     Option.bind (key it) (\<lambda>k. Option.bind (step it) (\<lambda>it'.
       map_option (\<lambda>(ks, e). (k # ks, e)) (walk step key n it')))"

lemma iter_key_node: "sl_nodes s x \<noteq> None \<Longrightarrow> iter_key s (Some x) = Some (nkey (sl_nodes s) x)"
  by (auto simp: iter_key_def nkey_def)

lemma walk_forward:
  assumes inv: "sl_inv valid cmp s L rs" and l: "L 0 = pre @ suf"
  shows "walk (iter_next s) (iter_key s) (length suf) (hd_opt suf) = Some (map (nkey (sl_nodes s)) suf, None)"
  using l
proof (induction suf arbitrary: pre)
  case (Cons x suf)
  have "sl_nodes s x \<noteq> None" using bottom_ok[OF inv] Cons.prems by (simp add: level_ok_def)
  then have "iter_key s (Some x) = Some (nkey (sl_nodes s) x)" by (rule iter_key_node)
  moreover have "iter_next s (Some x) = Some (hd_opt suf)"
  proof -
    have "linked (sl_nodes s) 0 (sl_head s) ((pre @ [x]) @ suf) None"
      using bottom_ok[OF inv] Cons.prems by (simp add: level_ok_def)
    from linked_next[OF conjunct2[OF linked_split[OF this]]] show ?thesis by (simp add: iter_next_def)
  qed
  ultimately show ?case using Cons.IH[of "pre @ [x]"] Cons.prems by simp
qed simp

context key_order begin

lemma iter_prev_node:
  assumes inv: "sl_inv valid cmp s L rs" and l: "L 0 = pre @ x # suf"
  shows "iter_prev cmp s (Some x) = Some (if pre = [] then None else Some (last pre))"
proof -
  let ?m = "sl_nodes s"
  have ok: "level_ok valid cmp ?m (sl_head s) 0 (pre @ x # suf)" using bottom_ok[OF inv] l by simp
  then have x: "?m x \<noteq> None" "valid (nkey ?m x)" by (auto simp: level_ok_def)
  have "takeWhile (before cmp ?m (nkey ?m x)) (L 0) = pre"
    unfolding l using ok x by (intro dropWhile_at(2)) (auto simp: level_ok_def before_def sorted_wrt_append)
  then have "find_less_than cmp s (nkey ?m x) = Some (last (sl_head s # pre))"
    using find_lt_found[OF inv x(2)] by (simp add: last_lt_def)
  moreover have "\<forall>y \<in> set pre. y \<noteq> sl_head s" using ok by (auto simp: level_ok_def)
  ultimately show ?thesis using x(1) last_in_set[of pre] by (auto simp: iter_prev_def nkey_def)
qed

lemma walk_backward:
  assumes inv: "sl_inv valid cmp s L rs"
  shows "L 0 = pre @ suf \<Longrightarrow> walk (iter_prev cmp s) (iter_key s) (length pre) (if pre = [] then None else Some (last pre))
    = Some (rev (map (nkey (sl_nodes s)) pre), None)"
proof (induction pre arbitrary: suf rule: rev_induct)
  case (snoc x pre)
  then have l: "L 0 = pre @ x # suf" by simp
  have "sl_nodes s x \<noteq> None" using bottom_ok[OF inv] l by (simp add: level_ok_def)
  then have "iter_key s (Some x) = Some (nkey (sl_nodes s) x)" by (rule iter_key_node)
  with snoc.IH[OF l] iter_prev_node[OF inv l] show ?case by simp
qed simp

end

section \<open>A reader during an insertion\<close>

text \<open>
  The writer stores its links one at a time; between two stores the reader takes any number of turns
  of its loop, each of which loads one link.  \<open>n\<close> counts the stores; the reader starts at the head, at
  the height of the list that it saw.
\<close>

inductive racing ::
  "('k \<Rightarrow> 'k \<Rightarrow> int option) \<Rightarrow> nat \<Rightarrow> ptr list \<Rightarrow> nat \<Rightarrow> 'k skip_list \<Rightarrow> 'k \<Rightarrow> nat \<Rightarrow> nat \<Rightarrow> 'k memory \<Rightarrow> ptr search \<Rightarrow> bool"
  for cmp x prev height s key level where
  begins: "racing cmp x prev height s key level 0 (sl_nodes s) (Search (sl_head s) level)"
| store: "racing cmp x prev height s key level n m r \<Longrightarrow> n < 2 * height \<Longrightarrow> link_store x prev n m = Some m' \<Longrightarrow>
    racing cmp x prev height s key level (Suc n) m' r"
| turn: "racing cmp x prev height s key level n m (Search y i) \<Longrightarrow> fge_step cmp m key y i None = Some (r, ps) \<Longrightarrow>
    racing cmp x prev height s key level n m r"

definition read_ok ::
  "('k \<Rightarrow> 'k \<Rightarrow> int option) \<Rightarrow> 'k memory \<Rightarrow> nat \<Rightarrow> (nat \<Rightarrow> nat list) \<Rightarrow> 'k \<Rightarrow> nat \<Rightarrow> 'k memory \<Rightarrow> nat \<Rightarrow> 'k \<Rightarrow> ptr search \<Rightarrow> bool" where
  "read_ok cmp m0 head L new x m n key r \<longleftrightarrow> (case r of
       Search y i \<Rightarrow> search_at cmp m head (linked_levels cmp m0 new x L n) key y i
     | Found p \<Rightarrow> p = first_ge cmp m0 key (L 0) \<or> p = first_ge cmp m0 key (put_node cmp m0 new x (L 0)))"

lemma before_same: "same_nodes m m' \<Longrightarrow> m y \<noteq> None \<Longrightarrow> before cmp m' key y = before cmp m key y"
  by (simp add: before_def same_nodesD(1))

lemma linked_levels_mono: "set (linked_levels cmp m0 new x L n i) \<subseteq> set (linked_levels cmp m0 new x L (Suc n) i)"
  by (auto simp: linked_levels_def)

lemma read_ok_store:
  assumes inv: "link_inv valid cmp head L new x m0 n m" "link_inv valid cmp head L new x m0 (Suc n) m'"
    and r: "read_ok cmp m0 head L new x m n key r"
  shows "read_ok cmp m0 head L new x m' (Suc n) key r"
proof (cases r)
  case (Search y i)
  have at: "search_at cmp m head (linked_levels cmp m0 new x L n) key y i" using r Search by (simp add: read_ok_def)
  have view: "sl_view valid cmp m head (linked_levels cmp m0 new x L n)" and same: "same_nodes m0 m" "same_nodes m0 m'"
    using inv by (auto simp: link_inv_def)
  have "before cmp m' key y" if "y \<in> set (linked_levels cmp m0 new x L n i)" "before cmp m key y" "i < kMaxHeight"
  proof -
    have "m y \<noteq> None" using view_level[OF view that(3)] that(1) by (auto simp: level_ok_def)
    then have "m0 y \<noteq> None" using same_nodesD(2)[OF same(1)] by simp
    with that(2) before_same[OF same(1)] before_same[OF same(2)] show ?thesis by metis
  qed
  with at subsetD[OF linked_levels_mono[of cmp m0 new x L n i], of y] show ?thesis
    by (auto simp: Search read_ok_def search_at_def)
next
  case (Found p)
  with r show ?thesis by (simp add: read_ok_def)
qed

lemma first_ge_cong:
  "\<forall>y \<in> set l. before cmp m' key y = before cmp m key y \<Longrightarrow> first_ge cmp m' key l = first_ge cmp m key l"
  unfolding first_ge_def by (metis dropWhile_cong)

context key_order begin

lemma read_ok_turn:
  assumes ready: "link_ready valid cmp head L new x prev height m0" and inv: "link_inv valid cmp head L new x m0 n m"
    and key: "valid key" and r: "read_ok cmp m0 head L new x m n key (Search y i)"
  shows "\<exists>r ps. fge_step cmp m key y i None = Some (r, ps) \<and> read_ok cmp m0 head L new x m n key r"
proof -
  let ?L = "linked_levels cmp m0 new x L n"
  have view: "sl_view valid cmp m head ?L" and same: "same_nodes m0 m" using inv by (auto simp: link_inv_def)
  have at: "search_at cmp m head ?L key y i" using r by (simp add: read_ok_def)
  show ?thesis
  proof (cases rule: search_cases[OF view key at])
    case (1 z)
    then show ?thesis by (simp add: fge_step_def read_ok_def)
  next
    case (2 p)
    then show ?thesis by (simp add: fge_step_def read_ok_def)
  next
    case 3
    have "\<forall>z \<in> set (?L 0). before cmp m key z = before cmp m0 key z"
      using view_level[OF view, of 0] before_same[OF same] same_nodesD(2)[OF same]
      by (auto simp: level_ok_def kMaxHeight_def)
    then have "first_ge cmp m key (?L 0) = first_ge cmp m0 key (?L 0)" by (rule first_ge_cong)
    with 3 show ?thesis by (auto simp: fge_step_def read_ok_def linked_levels_def)
  qed
qed

lemma racing_inv:
  assumes ready: "link_ready valid cmp (sl_head s) L new x prev height (sl_nodes s)" and key: "valid key"
    and level: "level < kMaxHeight" and run: "racing cmp x prev height s key level n m r"
  shows "link_inv valid cmp (sl_head s) L new x (sl_nodes s) n m \<and> read_ok cmp (sl_nodes s) (sl_head s) L new x m n key r"
  using run
proof (induction rule: racing.induct)
  case begins
  show ?case using link_stores_inv[OF ready, of 0] level by (simp add: read_ok_def search_at_def)
next
  case (store n m r m')
  then have "link_inv valid cmp (sl_head s) L new x (sl_nodes s) (Suc n) m'"
    using link_store_even[OF ready] link_store_odd[OF ready] by (cases "even n") fastforce+
  with store.IH read_ok_store[of valid cmp "sl_head s" L new x "sl_nodes s" n m m' key r] show ?case by blast
next
  case (turn n m y i r ps)
  then show ?case using read_ok_turn[OF ready _ key, of n m y i] by fastforce
qed

end

section \<open>Properties\<close>

abbreviation byte_cmp :: "slice \<Rightarrow> slice \<Rightarrow> int option" where
  "byte_cmp \<equiv> \<lambda>a b. Some (slice_compare a b)"

definition example_list :: "slice skip_list option" where
  "example_list = skip_list_ctor [] 4096 arena_ctor"

lemma example_address: "new_address 0 4096 arena_ctor"
  by (simp add: new_address_def kAlign_def arena_ctor_def)

lemma example_reach: "\<exists>s. example_list = Some s \<and> sl_reach (\<lambda>_. True) byte_cmp s [] \<and> new_address 0 8192 (sl_arena s)"
proof -
  obtain s where s: "example_list = Some s"
    using sl_ctor_inv[OF example_address, of "[]"] unfolding example_list_def by blast
  then have "sl_reach (\<lambda>_. True) byte_cmp s []"
    unfolding example_list_def by (rule sl_reach.start[OF example_address])
  moreover have "blocks (sl_arena s) = [(4096, 4096)]"
    using s by (auto simp: example_list_def skip_list_ctor_def new_node_def node_size_def kMaxHeight_def arena_ctor_def
        allocate_aligned_def allocate_fallback_def allocate_new_block_def align_slop_def kAlign_def kArenaBlockSize_def
        Let_def bind_eq_Some_conv)
  then have "new_address 0 8192 (sl_arena s)" by (simp add: new_address_def kAlign_def span_def kArenaBlockSize_def)
  ultimately show ?thesis using s by blast
qed

lemma example_insert:
  "\<exists>s s'. example_list = Some s \<and> sl_insert byte_cmp [97] 8192 s = Some s' \<and> sl_reach (\<lambda>_. True) byte_cmp s' [[97]]"
proof -
  obtain s where s: "example_list = Some s" "sl_reach (\<lambda>_. True) byte_cmp s []" "new_address 0 8192 (sl_arena s)"
    using example_reach by blast
  obtain L rs where L: "sl_inv (\<lambda>_. True) byte_cmp s L rs" "keys_of s L = []"
    using sl_reach_inv[OF slice_ord.key_order_axioms s(2)] by blast
  obtain s' where s': "sl_insert byte_cmp [97] 8192 s = Some s'"
    using slice_ord.sl_insert_inv[OF L(1) _ _ s(3), of "[97]"] L(2) by auto
  have "sl_reach (\<lambda>_. True) byte_cmp s' (put_key byte_cmp [97] [])"
    by (rule sl_reach.inserted[OF s(2) _ _ s(3) s']) simp_all
  with s(1) s' show ?thesis by (auto simp: put_key_def)
qed





text \<open>
  A reader that runs while a key is inserted, with its turns placed anywhere between the writer's
  stores and starting from the height before or after, never fails, nor does the writer; what it finds
  is the first key at or after its target either in the list without the new key or in the list with it.
\<close>

theorem reader_sees_old_or_new_list:
  assumes "key_order valid cmp" "sl_reach valid cmp s ks" "valid new" "\<forall>k \<in> set ks. \<not> key_eqv cmp new k"
    and "new_address 0 a (sl_arena s)" "insert_prepare cmp new a s = Some (x, prev, height, s1)" "valid key"
    and "level = sl_max_height s - 1 \<or> level = sl_max_height s1 - 1"
    and "racing cmp x prev height s1 key level n m r"
  shows "(n < 2 * height \<longrightarrow> link_store x prev n m \<noteq> None)
    \<and> (\<forall>y i. r = Search y i \<longrightarrow> fge_step cmp m key y i None \<noteq> None)
    \<and> (\<forall>p. r = Found p \<longrightarrow> map_option (nkey m) p \<in>
          {hd_opt (dropWhile (\<lambda>k. key_lt cmp k key) ks), hd_opt (dropWhile (\<lambda>k. key_lt cmp k key) (put_key cmp new ks))})"
proof -
  obtain L rs where L: "sl_inv valid cmp s L rs" "keys_of s L = ks" using sl_reach_inv[OF assms(1,2)] by blast
  let ?m1 = "sl_nodes s1"
  have p: "link_ready valid cmp (sl_head s) L new x prev height ?m1"
    "s1 = s\<lparr>sl_rnd := sl_rnd s1, sl_max_height := max (sl_max_height s) height, sl_arena := sl_arena s1,
             sl_nodes := (sl_nodes s)(x \<mapsto> \<lparr>sn_key = new, sn_next = replicate height None\<rparr>)\<rparr>"
    using key_order.view_ready[OF assms(1) L(1) assms(3) _ assms(5)] L(2) assms(4,6) by auto
  have hd: "sl_head s1 = sl_head s" "sl_max_height s1 = max (sl_max_height s) height"
    "?m1 = (sl_nodes s)(x \<mapsto> \<lparr>sn_key = new, sn_next = replicate height None\<rparr>)" by (subst p(2), simp)+
  have level: "level < kMaxHeight" using assms(8) L(1) p(1) hd(2) by (auto simp: sl_inv_def link_ready_def)
  have inv: "link_inv valid cmp (sl_head s) L new x ?m1 n m" "read_ok cmp ?m1 (sl_head s) L new x m n key r"
    using key_order.racing_inv[OF assms(1) _ assms(7) level assms(9), of L new] p(1) hd(1) by simp_all
  have "n < 2 * height \<longrightarrow> link_store x prev n m \<noteq> None"
    using key_order.link_store_even[OF assms(1) p(1) inv(1)] key_order.link_store_odd[OF assms(1) p(1) inv(1)]
    by (cases "even n") auto
  moreover have "\<forall>y i. r = Search y i \<longrightarrow> fge_step cmp m key y i None \<noteq> None"
    using key_order.read_ok_turn[OF assms(1) p(1) inv(1) assms(7)] inv(2) by fastforce
  moreover have "map_option (nkey m) p \<in> {hd_opt (dropWhile (\<lambda>k. key_lt cmp k key) ks),
      hd_opt (dropWhile (\<lambda>k. key_lt cmp k key) (put_key cmp new ks))}" if "r = Found p" for p
  proof -
    have ok1: "level_ok valid cmp ?m1 (sl_head s) 0 (L 0)"
      using p(1) view_level[of valid cmp ?m1 "sl_head s" L 0] by (simp add: link_ready_def kMaxHeight_def)
    have alive: "?m1 y \<noteq> None" if "y \<in> insert x (set (L 0))" for y
      using that ok1 p(1) by (auto simp: level_ok_def link_ready_def)
    have found: "map_option (nkey m) (first_ge cmp ?m1 key l) = hd_opt (dropWhile (\<lambda>k. key_lt cmp k key) (map (nkey ?m1) l))"
      if "set l \<subseteq> insert x (set (L 0))" for l
    proof (cases "dropWhile (before cmp ?m1 key) l")
      case Nil
      then show ?thesis by (simp add: first_ge_def dropWhile_map comp_def before_def[abs_def] del: dropWhile_eq_Nil_conv)
    next
      case (Cons z zs)
      then have "z \<in> set l" by (metis list.set_intros(1) set_dropWhileD)
      then have "nkey m z = nkey ?m1 z" using that alive inv(1) same_nodesD(1) by (fastforce simp: link_inv_def)
      with Cons show ?thesis by (simp add: first_ge_def dropWhile_map comp_def before_def[abs_def])
    qed
    have "map (nkey ?m1) (L 0) = ks"
      using L(2) p(1) hd(3) by (auto simp: keys_of_def nkey_def link_ready_def)
    moreover from this have "map (nkey ?m1) (put_node cmp ?m1 new x (L 0)) = put_key cmp new ks"
      using put_node_keys[of ?m1 x new cmp "L 0"] p(1) by (simp add: link_ready_def)
    ultimately show ?thesis
      using inv(2) that found[of "L 0"] found[of "put_node cmp ?m1 new x (L 0)"] by (auto simp: read_ok_def)
  qed
  ultimately show ?thesis by blast
qed

theorem reader_sees_old_or_new_list_witness:
  "\<exists>s x prev height s1. example_list = Some s \<and> insert_prepare byte_cmp [97] 8192 s = Some (x, prev, height, s1)
    \<and> fge_step byte_cmp (sl_nodes s1) [98] (sl_head s1) 0 None \<noteq> None"
proof -
  obtain s where s: "example_list = Some s" "sl_reach (\<lambda>_. True) byte_cmp s []" "new_address 0 8192 (sl_arena s)"
    using example_reach by blast
  obtain L rs where L: "sl_inv (\<lambda>_. True) byte_cmp s L rs" "keys_of s L = []"
    using sl_reach_inv[OF slice_ord.key_order_axioms s(2)] by blast
  obtain x prev h s1 where p: "insert_prepare byte_cmp [97] 8192 s = Some (x, prev, h, s1)"
    using slice_ord.view_ready[OF L(1) _ _ s(3), of "[97]"] L(2) by auto
  have "0 = sl_max_height s - 1"
    using s(1) by (auto simp: example_list_def skip_list_ctor_def bind_eq_Some_conv)
  then have "fge_step byte_cmp (sl_nodes s1) [98] (sl_head s1) 0 None \<noteq> None"
    using reader_sees_old_or_new_list[where key = "[98]" and level = 0,
        OF slice_ord.key_order_axioms s(2) _ _ s(3) p _ _ racing.begins] by auto
  with s(1) p show ?thesis by blast
qed

end
