(* ===== verification/Skip_List_Memory.thy ===== *)
theory Skip_List_Memory
  imports Skip_List_Spec
begin

text \<open>
  The skip list of \<open>include/leveldb/__detail/skip_list.h\<close> under the memory orders it asks for.  The
  stores of the writer form a log; a store of a link is a release store or a relaxed one, as in the
  code.  A reader has a view, a prefix of the log that happens before what it does next.  A load may
  return any store to its location that is not older than the view, so a reader may see later stores
  before earlier ones; a load that acquires a release store brings the stores before it into the view.
  What is not atomic, the key and the construction of a node, is read from the view: a reader that
  meets a node outside its view has a data race, which is \<open>None\<close>.
\<close>

section \<open>The log of the writer\<close>

datatype 'k sl_store = Height nat | New nat 'k nat | Link bool nat nat ptr

fun do_store :: "'k sl_store \<Rightarrow> 'k memory \<Rightarrow> 'k memory option" where
  "do_store (Height h) m = Some m"
| "do_store (New x key height) m = Some (m(x \<mapsto> \<lparr>sn_key = key, sn_next = replicate height None\<rparr>))"
| "do_store (Link release x n p) m = node_set_next m x n p"

fun do_stores :: "'k sl_store list \<Rightarrow> 'k memory \<Rightarrow> 'k memory option" where
  "do_stores [] m = Some m"
| "do_stores (st # sts) m = Option.bind (do_store st m) (do_stores sts)"

lemma do_stores_append: "do_stores (sts @ sts') m = Option.bind (do_stores sts m) (do_stores sts')"
  by (induction sts arbitrary: m) (auto simp: bind_eq_None_conv split: Option.bind_split)

text \<open>What \<open>insert\<close> stores before it links the node, and store \<open>n\<close> of the linking loop.\<close>

definition prepare_stores :: "'k skip_list \<Rightarrow> nat \<Rightarrow> 'k \<Rightarrow> nat \<Rightarrow> 'k sl_store list" where
  "prepare_stores s x key height = (if height > sl_max_height s then [Height height] else []) @ [New x key height]"

definition link_event :: "nat \<Rightarrow> ptr list \<Rightarrow> nat \<Rightarrow> 'k memory \<Rightarrow> 'k sl_store option" where
  "link_event x prev n m =
     (let i = n div 2
      in Option.bind (prev ! i) (\<lambda>p.
           if even n then map_option (Link False x i) (node_next m p i) else Some (Link True p i (Some x))))"

lemma link_event_store: "Option.bind (link_event x prev n m) (\<lambda>st. do_store st m) = link_store x prev n m"
  by (auto simp: link_event_def link_store_def Let_def split: Option.bind_split option.split)

section \<open>The loads of a reader\<close>

text \<open>The latest of the first \<open>k\<close> stores to a link, with whether it is a release store; the latest height.\<close>

fun last_link :: "'k sl_store list \<Rightarrow> nat \<Rightarrow> nat \<Rightarrow> nat \<Rightarrow> (nat \<times> bool) option" where
  "last_link log y i 0 = None"
| "last_link log y i (Suc k) =
     (case log ! k of
        Link release x n p \<Rightarrow> if x = y \<and> n = i then Some (k, release) else last_link log y i k
      | _ \<Rightarrow> last_link log y i k)"

fun height_at :: "nat \<Rightarrow> 'k sl_store list \<Rightarrow> nat \<Rightarrow> nat" where
  "height_at h0 log 0 = h0"
| "height_at h0 log (Suc k) = (case log ! k of Height h \<Rightarrow> h | _ \<Rightarrow> height_at h0 log k)"

definition acquired_view :: "'k sl_store list \<Rightarrow> nat \<Rightarrow> nat \<Rightarrow> nat \<Rightarrow> nat \<Rightarrow> nat" where
  "acquired_view log y i k v = (case last_link log y i k of Some (j, True) \<Rightarrow> max v (Suc j) | _ \<Rightarrow> v)"

text \<open>
  One turn of \<open>find_greater_or_equal\<close> for a reader with view \<open>v\<close>, whose load of the link returns its
  value after \<open>k\<close> stores; the comparison reads the key of the next node.
\<close>

definition reader_turn ::
  "('k \<Rightarrow> 'k \<Rightarrow> int option) \<Rightarrow> 'k memory \<Rightarrow> 'k sl_store list \<Rightarrow> 'k \<Rightarrow> nat \<Rightarrow> nat \<Rightarrow> nat \<Rightarrow> nat \<Rightarrow> (ptr search \<times> nat) option" where
  "reader_turn cmp m0 log key k v y i =
     Option.bind (do_stores (take k log) m0) (\<lambda>m.
     Option.bind (node_next m y i) (\<lambda>next.
       let v' = acquired_view log y i k v
       in Option.bind (do_stores (take v' log) m0) (\<lambda>seen.
          Option.bind (key_is_after_node cmp seen key next) (\<lambda>after.
            Some (if after then Search (the next) i else if i = 0 then Found next else Search y (i - 1), v')))))"

section \<open>A writer and a reader\<close>

text \<open>
  The writer inserts any number of keys one after the other.  \<open>job\<close> is the insertion it is in: the
  node, \<open>prev\<close>, the height and the number of links stored; \<open>key_lists\<close> are the lists of keys so far, the
  current one last.  \<open>seeking\<close> is where the reader stands, once it has loaded the height of the list.
\<close>

record 'k sl_run =
  run_list :: "'k skip_list"
  run_log :: "'k sl_store list"
  job :: "(nat \<times> ptr list \<times> nat \<times> nat) option"
  key_lists :: "'k list list"
  view :: nat
  seeking :: "ptr search option"

definition run_start :: "'k skip_list \<Rightarrow> 'k list \<Rightarrow> 'k sl_run" where
  "run_start s ks = \<lparr>run_list = s, run_log = [], job = None, key_lists = [ks], view = 0, seeking = None\<rparr>"

inductive sl_run_reach ::
  "('k \<Rightarrow> bool) \<Rightarrow> ('k \<Rightarrow> 'k \<Rightarrow> int option) \<Rightarrow> 'k \<Rightarrow> 'k skip_list \<Rightarrow> 'k list \<Rightarrow> 'k sl_run \<Rightarrow> bool"
  for valid cmp key s0 ks0 where
  begins: "sl_run_reach valid cmp key s0 ks0 (run_start s0 ks0)"
| prepare: "sl_run_reach valid cmp key s0 ks0 c \<Longrightarrow> job c = None \<Longrightarrow> valid new \<Longrightarrow>
    \<forall>k \<in> set (last (key_lists c)). \<not> key_eqv cmp new k \<Longrightarrow> new_address 0 a (sl_arena (run_list c)) \<Longrightarrow>
    insert_prepare cmp new a (run_list c) = Some (x, prev, height, s1) \<Longrightarrow>
    sl_run_reach valid cmp key s0 ks0 (c\<lparr>run_list := s1, run_log := run_log c @ prepare_stores (run_list c) x new height,
      job := Some (x, prev, height, 0), key_lists := key_lists c @ [put_key cmp new (last (key_lists c))]\<rparr>)"
| link: "sl_run_reach valid cmp key s0 ks0 c \<Longrightarrow> job c = Some (x, prev, height, n) \<Longrightarrow> n < 2 * height \<Longrightarrow>
    link_event x prev n (sl_nodes (run_list c)) = Some st \<Longrightarrow> do_store st (sl_nodes (run_list c)) = Some m \<Longrightarrow>
    sl_run_reach valid cmp key s0 ks0 (c\<lparr>run_list := (run_list c)\<lparr>sl_nodes := m\<rparr>, run_log := run_log c @ [st],
      job := Some (x, prev, height, Suc n)\<rparr>)"
| finish: "sl_run_reach valid cmp key s0 ks0 c \<Longrightarrow> job c = Some (x, prev, height, 2 * height) \<Longrightarrow>
    sl_run_reach valid cmp key s0 ks0 (c\<lparr>job := None\<rparr>)"
| start_seek: "sl_run_reach valid cmp key s0 ks0 c \<Longrightarrow> seeking c = None \<Longrightarrow> view c \<le> k \<Longrightarrow> k \<le> length (run_log c) \<Longrightarrow>
    sl_run_reach valid cmp key s0 ks0
      (c\<lparr>seeking := Some (Search (sl_head s0) (height_at (sl_max_height s0) (run_log c) k - 1))\<rparr>)"
| seek: "sl_run_reach valid cmp key s0 ks0 c \<Longrightarrow> seeking c = Some (Search y i) \<Longrightarrow> view c \<le> k \<Longrightarrow> k \<le> length (run_log c) \<Longrightarrow>
    reader_turn cmp (sl_nodes s0) (run_log c) key k (view c) y i = Some (r, v) \<Longrightarrow>
    sl_run_reach valid cmp key s0 ks0 (c\<lparr>seeking := Some r, view := v\<rparr>)"

section \<open>Histories\<close>

definition memory_at :: "'k memory \<Rightarrow> 'k sl_store list \<Rightarrow> nat \<Rightarrow> 'k memory" where
  "memory_at m0 log k = the (do_stores (take k log) m0)"

definition grows :: "'k memory \<Rightarrow> 'k memory \<Rightarrow> bool" where
  "grows m m' \<longleftrightarrow> (\<forall>y. m y \<noteq> None \<longrightarrow> m' y \<noteq> None \<and> nkey m' y = nkey m y)"

lemma grows_refl [simp]: "grows m m" and grows_trans: "grows m m' \<Longrightarrow> grows m' m'' \<Longrightarrow> grows m m''"
  by (auto simp: grows_def)

lemma same_nodes_grows: "same_nodes m m' \<Longrightarrow> grows m m'"
  by (simp add: grows_def same_nodesD(1,2))

text \<open>What one store does to the memory and to the levels.\<close>

definition store_ok :: "nat \<Rightarrow> 'k sl_store \<Rightarrow> 'k memory \<Rightarrow> 'k memory \<Rightarrow> (nat \<Rightarrow> nat list) \<Rightarrow> (nat \<Rightarrow> nat list) \<Rightarrow> bool" where
  "store_ok head st m m' L L' \<longleftrightarrow> grows m m' \<and> (\<forall>i < kMaxHeight. set (L i) \<subseteq> set (L' i))
     \<and> (\<forall>y i. m y \<noteq> None \<and> (\<forall>release p. st \<noteq> Link release y i p) \<longrightarrow> node_next m' y i = node_next m y i)
     \<and> (\<forall>y i p. st = Link True y i p \<longrightarrow> node_next m' y i = Some p \<and> (\<forall>z. p = Some z \<longrightarrow> z \<in> set (L' i)))
     \<and> (\<forall>y i p. st = Link False y i p \<longrightarrow> y \<noteq> head \<and> y \<notin> set (L' i))
     \<and> (\<forall>h. st = Height h \<longrightarrow> 0 < h \<and> h \<le> kMaxHeight)"

definition history_ok ::
  "('k \<Rightarrow> bool) \<Rightarrow> ('k \<Rightarrow> 'k \<Rightarrow> int option) \<Rightarrow> nat \<Rightarrow> 'k memory \<Rightarrow> 'k sl_store list \<Rightarrow> (nat \<Rightarrow> nat \<Rightarrow> nat list) \<Rightarrow> bool" where
  "history_ok valid cmp head m0 log Ls \<longleftrightarrow>
     (\<forall>k \<le> length log. do_stores (take k log) m0 \<noteq> None \<and> sl_view valid cmp (memory_at m0 log k) head (Ls k))
     \<and> (\<forall>k < length log. store_ok head (log ! k) (memory_at m0 log k) (memory_at m0 log (Suc k)) (Ls k) (Ls (Suc k)))"

lemma memory_at_append: "k \<le> length log \<Longrightarrow> memory_at m0 (log @ sts) k = memory_at m0 log k"
  by (simp add: memory_at_def)

lemma history_snoc:
  assumes "history_ok valid cmp head m0 log Ls" "memory_at m0 log (length log) = m" "do_store st m = Some m'"
    and "store_ok head st m m' (Ls (length log)) L'" "sl_view valid cmp m' head L'"
  shows "history_ok valid cmp head m0 (log @ [st]) (Ls(Suc (length log) := L'))"
    and "memory_at m0 (log @ [st]) (Suc (length log)) = m'"
proof -
  have "do_stores log m0 = Some m" using assms(1,2) by (auto simp: history_ok_def memory_at_def)
  then have last: "do_stores (log @ [st]) m0 = Some m'" using assms(3) by (simp add: do_stores_append)
  then show now: "memory_at m0 (log @ [st]) (Suc (length log)) = m'" by (simp add: memory_at_def)
  let ?log = "log @ [st]" and ?Ls = "Ls(Suc (length log) := L')"
  have "do_stores (take k ?log) m0 \<noteq> None \<and> sl_view valid cmp (memory_at m0 ?log k) head (?Ls k)"
    if "k \<le> length ?log" for k
    using assms(1,5) that last now by (cases "k = Suc (length log)") (auto simp: history_ok_def memory_at_append)
  moreover have "store_ok head (?log ! k) (memory_at m0 ?log k) (memory_at m0 ?log (Suc k)) (?Ls k) (?Ls (Suc k))"
    if "k < length ?log" for k
    using assms(1,2,4) that now
    by (cases "k = length log") (auto simp: history_ok_def memory_at_append nth_append)
  ultimately show "history_ok valid cmp head m0 ?log ?Ls" by (simp add: history_ok_def)
qed

lemma history_mono:
  assumes "history_ok valid cmp head m0 log Ls" and "i < kMaxHeight"
  shows "j \<le> k \<Longrightarrow> k \<le> length log \<Longrightarrow> set (Ls j i) \<subseteq> set (Ls k i) \<and> grows (memory_at m0 log j) (memory_at m0 log k)"
proof (induction k)
  case (Suc k)
  show ?case
  proof (cases "j = Suc k")
    case False
    then have IH: "set (Ls j i) \<subseteq> set (Ls k i)" "grows (memory_at m0 log j) (memory_at m0 log k)"
      using Suc by simp_all
    have "store_ok head (log ! k) (memory_at m0 log k) (memory_at m0 log (Suc k)) (Ls k) (Ls (Suc k))"
      using assms(1) Suc.prems(2) by (simp add: history_ok_def)
    then have "set (Ls k i) \<subseteq> set (Ls (Suc k) i)" "grows (memory_at m0 log k) (memory_at m0 log (Suc k))"
      using assms(2) by (simp_all add: store_ok_def)
    with IH show ?thesis using grows_trans by blast
  qed simp
qed simp

text \<open>Between the last store to a link and a later point of the log the link does not change.\<close>

lemma last_link_same:
  assumes h: "history_ok valid cmp head m0 log Ls" and y: "memory_at m0 log j y \<noteq> None"
  shows "j \<le> k \<Longrightarrow> k \<le> length log \<Longrightarrow> (\<forall>n release. last_link log y i k = Some (n, release) \<longrightarrow> n < j) \<Longrightarrow>
    node_next (memory_at m0 log k) y i = node_next (memory_at m0 log j) y i"
proof (induction k)
  case (Suc k)
  show ?case
  proof (cases "j = Suc k")
    case False
    then have jk: "j \<le> k" using Suc.prems(1) by simp
    have st: "store_ok head (log ! k) (memory_at m0 log k) (memory_at m0 log (Suc k)) (Ls k) (Ls (Suc k))"
      using h Suc.prems(2) by (simp add: history_ok_def)
    have "grows (memory_at m0 log j) (memory_at m0 log k)"
      using history_mono[OF h, of 0 j k] jk Suc.prems(2) by (simp add: kMaxHeight_def)
    then have "memory_at m0 log k y \<noteq> None" using y by (simp add: grows_def)
    moreover have other: "log ! k \<noteq> Link release y i p" for release p using Suc.prems(3) jk by fastforce
    ultimately have "node_next (memory_at m0 log (Suc k)) y i = node_next (memory_at m0 log k) y i"
      using st unfolding store_ok_def by metis
    moreover have "last_link log y i (Suc k) = last_link log y i k"
      using other by (auto split: sl_store.split)
    ultimately show ?thesis using Suc jk by simp
  qed simp
qed simp

lemma last_link_store: "last_link log y i k = Some (j, release) \<Longrightarrow> j < k \<and> (\<exists>p. log ! j = Link release y i p)"
  by (induction k) (auto split: sl_store.splits if_splits)

lemma last_link_le: "last_link log y i k = Some (j, release) \<Longrightarrow> j < k"
  by (simp add: last_link_store)

lemma height_at_range:
  assumes "history_ok valid cmp head m0 log Ls" "0 < h0" "h0 \<le> kMaxHeight"
  shows "k \<le> length log \<Longrightarrow> 0 < height_at h0 log k \<and> height_at h0 log k \<le> kMaxHeight"
proof (induction k)
  case (Suc k)
  have "store_ok head (log ! k) (memory_at m0 log k) (memory_at m0 log (Suc k)) (Ls k) (Ls (Suc k))"
    using assms(1) Suc.prems by (simp add: history_ok_def)
  with Suc show ?case by (auto simp: store_ok_def split: sl_store.split)
qed (use assms(2,3) in simp)

section \<open>The reader\<close>

lemma search_at_later:
  assumes h: "history_ok valid cmp head m0 log Ls" and at: "search_at cmp (memory_at m0 log v) head (Ls v) key y i"
    and k: "v \<le> k" "k \<le> length log"
  shows "search_at cmp (memory_at m0 log k) head (Ls k) key y i"
proof (cases "y = head")
  case False
  have i: "i < kMaxHeight" and y: "y \<in> set (Ls v i)" "before cmp (memory_at m0 log v) key y"
    using at False by (auto simp: search_at_def)
  have "sl_view valid cmp (memory_at m0 log v) head (Ls v)" using h k by (simp add: history_ok_def)
  from view_level[OF this i] have "memory_at m0 log v y \<noteq> None" using y(1) by (simp add: level_ok_def)
  with y i history_mono[OF h i k] show ?thesis by (auto simp: search_at_def grows_def before_def)
qed (use at in \<open>simp add: search_at_def\<close>)

lemma search_at_node:
  assumes "sl_view valid cmp m head L" "search_at cmp m head L key y i"
  shows "m y \<noteq> None"
proof -
  have "level_ok valid cmp m head i (L i)" using assms view_level by (auto simp: search_at_def)
  then have "m head \<noteq> None" "\<forall>z \<in> set (L i). m z \<noteq> None"
    using linked_next[of m i head "L i"] node_next_height[of m head i "hd_opt (L i)"] by (auto simp: level_ok_def)
  then show ?thesis using assms(2) by (auto simp: search_at_def)
qed

context key_order begin

lemma search_next:
  assumes view: "sl_view valid cmp m head L" and key: "valid key" and at: "search_at cmp m head L key y i"
  shows "\<exists>next after. node_next m y i = Some next \<and> key_is_after_node cmp m key next = Some after
    \<and> (\<forall>z. next = Some z \<longrightarrow> z \<in> set (L i)) \<and> (after \<longrightarrow> next \<noteq> None)
    \<and> (\<not> after \<and> i = 0 \<longrightarrow> next = first_ge cmp m key (L 0))"
proof -
  have i: "i < kMaxHeight" using at by (simp add: search_at_def)
  obtain pre suf where l: "L i = pre @ suf" "y = last (head # pre)" "\<forall>z \<in> set pre. before cmp m key z"
    using level_split[OF view_level[OF view i] key] at unfolding search_at_def by blast
  have nx: "node_next m y i = Some (hd_opt suf)" using view_next[OF view i l(1)] l(2) by simp
  have node: "z \<in> set (L i)" if "hd_opt suf = Some z" for z using that l(1) by (cases suf) auto
  show ?thesis
  proof (cases rule: search_cases[OF view key at])
    case (1 z)
    then show ?thesis by (intro exI[of _ "Some z"] exI[of _ True]) (use nx node in simp)
  next
    case (2 p)
    then show ?thesis by (intro exI[of _ p] exI[of _ False]) (use nx node in simp)
  next
    case 3
    then show ?thesis by (intro exI[of _ "first_ge cmp m key (L 0)"] exI[of _ False]) (use nx node in simp)
  qed
qed

text \<open>
  The node a load returns is in the reader's view: either the link has not changed since the view, or
  the load acquired the release store that linked the node.
\<close>

lemma loaded_in_view:
  assumes h: "history_ok valid cmp head m0 log Ls" and key: "valid key"
    and at: "search_at cmp (memory_at m0 log v) head (Ls v) key y i"
    and k: "v \<le> k" "k \<le> length log" and load: "node_next (memory_at m0 log k) y i = Some (Some z)"
  shows "z \<in> set (Ls (acquired_view log y i k v) i)"
proof -
  have i: "i < kMaxHeight" using at by (simp add: search_at_def)
  have view: "sl_view valid cmp (memory_at m0 log v) head (Ls v)" using h k by (simp add: history_ok_def)
  have y: "memory_at m0 log v y \<noteq> None" by (rule search_at_node[OF view at])
  have old: "z \<in> set (Ls v i)" if "\<forall>j release. last_link log y i k = Some (j, release) \<longrightarrow> j < v"
    using search_next[OF view key at] last_link_same[OF h y k that] load by auto
  show ?thesis
  proof (cases "last_link log y i k")
    case None
    with old show ?thesis by (simp add: acquired_view_def)
  next
    case (Some jr)
    obtain j release where j: "last_link log y i k = Some (j, release)" using Some by (cases jr) auto
    obtain p where p: "j < k" "log ! j = Link release y i p" using last_link_store[OF j] by blast
    show ?thesis
    proof (cases "j < v")
      case True
      then have "max v (Suc j) = v" by simp
      with j old True show ?thesis by (simp add: acquired_view_def split: bool.split)
    next
      case False
      then have jv: "v \<le> Suc j" "Suc j \<le> k" "Suc j \<le> length log" using p(1) k(2) by simp_all
      have st: "store_ok head (log ! j) (memory_at m0 log j) (memory_at m0 log (Suc j)) (Ls j) (Ls (Suc j))"
        using h jv by (simp add: history_ok_def)
      have "memory_at m0 log (Suc j) y \<noteq> None" using history_mono[OF h i jv(1,3)] y by (auto simp: grows_def)
      then have same: "node_next (memory_at m0 log k) y i = node_next (memory_at m0 log (Suc j)) y i"
        using last_link_same[OF h _ jv(2) k(2)] j by simp
      have "release"
      proof (rule ccontr)
        assume "\<not> release"
        then have "y \<noteq> head" "y \<notin> set (Ls (Suc j) i)" using st p(2) by (simp_all add: store_ok_def)
        moreover have "set (Ls v i) \<subseteq> set (Ls (Suc j) i)" using history_mono[OF h i jv(1,3)] by blast
        ultimately show False using at by (auto simp: search_at_def)
      qed
      then have "z \<in> set (Ls (Suc j) i)" using st p(2) same load by (auto simp: store_ok_def)
      with j \<open>release\<close> False show ?thesis by (simp add: acquired_view_def max_def)
    qed
  qed
qed

lemma acquired_view_range:
  "v \<le> k \<Longrightarrow> v \<le> acquired_view log y i k v \<and> acquired_view log y i k v \<le> k"
  using last_link_le[of log y i k] by (fastforce simp: acquired_view_def split: option.split bool.split)

lemma reader_turn_ok:
  assumes h: "history_ok valid cmp head m0 log Ls" and key: "valid key"
    and at: "search_at cmp (memory_at m0 log v) head (Ls v) key y i" and k: "v \<le> k" "k \<le> length log"
  shows "\<exists>r v'. reader_turn cmp m0 log key k v y i = Some (r, v') \<and> v \<le> v' \<and> v' \<le> length log
    \<and> (case r of Search y' i' \<Rightarrow> search_at cmp (memory_at m0 log v') head (Ls v') key y' i'
       | Found p \<Rightarrow> p = first_ge cmp (memory_at m0 log k) key (Ls k 0))"
proof -
  let ?v = "acquired_view log y i k v"
  have i: "i < kMaxHeight" using at by (simp add: search_at_def)
  have v: "v \<le> ?v" "?v \<le> k" "?v \<le> length log" using acquired_view_range[OF k(1)] k(2) by (auto intro: order_trans)
  have views: "sl_view valid cmp (memory_at m0 log j) head (Ls j)" "do_stores (take j log) m0 = Some (memory_at m0 log j)"
    if "j \<le> length log" for j using h that by (auto simp: history_ok_def memory_at_def)
  note at_v = search_at_later[OF h at v(1,3)] and at_k = search_at_later[OF h at k]
  obtain nxt after where nx: "node_next (memory_at m0 log k) y i = Some nxt"
    "key_is_after_node cmp (memory_at m0 log k) key nxt = Some after" "after \<longrightarrow> nxt \<noteq> None"
    "\<not> after \<and> i = 0 \<longrightarrow> nxt = first_ge cmp (memory_at m0 log k) key (Ls k 0)"
    using search_next[OF views(1)[OF k(2)] key at_k] by blast
  have seen: "key_is_after_node cmp (memory_at m0 log ?v) key nxt = Some after
      \<and> (after \<longrightarrow> search_at cmp (memory_at m0 log ?v) head (Ls ?v) key (the nxt) i)"
  proof (cases nxt)
    case None
    with nx(2,3) show ?thesis by (simp add: key_is_after_node_def)
  next
    case (Some z)
    have z: "z \<in> set (Ls ?v i)" using loaded_in_view[OF h key at k] nx(1) Some by simp
    note is_after = after_defined[OF view_level[OF views(1)[OF v(3)] i] key z]
    have "memory_at m0 log ?v z \<noteq> None"
      using view_level[OF views(1)[OF v(3)] i] z by (auto simp: level_ok_def)
    then have "nkey (memory_at m0 log k) z = nkey (memory_at m0 log ?v) z" "memory_at m0 log k z \<noteq> None"
      using history_mono[OF h i v(2) k(2)] by (auto simp: grows_def)
    moreover obtain r where "cmp (nkey (memory_at m0 log ?v) z) key = Some r"
      using defined[OF _ key] view_level[OF views(1)[OF v(3)] i] z unfolding level_ok_def by blast
    ultimately have "key_is_after_node cmp (memory_at m0 log ?v) key nxt = Some after"
      using nx(2) \<open>memory_at m0 log ?v z \<noteq> None\<close> key_is_after_Some[of "memory_at m0 log k" z cmp key r]
        key_is_after_Some[of "memory_at m0 log ?v" z cmp key r] Some by simp
    with is_after z i Some show ?thesis by (simp add: search_at_def)
  qed
  have "search_at cmp (memory_at m0 log ?v) head (Ls ?v) key y (i - 1)" if "0 < i"
    using at_v views(1)[OF v(3)] that i by (auto simp: search_at_def sl_view_def)
  with nx(1,4) seen v(1,3) views(2)[OF k(2)] views(2)[OF v(3)] show ?thesis
    by (auto simp: reader_turn_def Let_def)
qed

end

section \<open>The writer\<close>

text \<open>An insertion of \<open>new\<close> into the list \<open>s\<close> before its links are stored; \<open>s1\<close> is the list then.\<close>

definition prepared ::
  "('k \<Rightarrow> bool) \<Rightarrow> ('k \<Rightarrow> 'k \<Rightarrow> int option) \<Rightarrow> 'k skip_list \<Rightarrow> (nat \<Rightarrow> nat list) \<Rightarrow> (nat \<times> nat) list \<Rightarrow> 'k \<Rightarrow> nat \<Rightarrow> ptr list \<Rightarrow> nat \<Rightarrow> 'k skip_list \<Rightarrow> bool" where
  "prepared valid cmp s L rs new x prev h s1 \<longleftrightarrow> sl_inv valid cmp s L rs \<and> 0 < h
     \<and> link_ready valid cmp (sl_head s) L new x prev h (sl_nodes s1)
     \<and> s1 = s\<lparr>sl_rnd := sl_rnd s1, sl_max_height := max (sl_max_height s) h, sl_arena := sl_arena s1,
             sl_nodes := (sl_nodes s)(x \<mapsto> \<lparr>sn_key = new, sn_next = replicate h None\<rparr>)\<rparr>
     \<and> arena_inv (sl_arena s1) ((x, node_size h) # rs) \<and> sl_nodes s x = None"

lemma prepared_list:
  assumes "prepared valid cmp s L rs new x prev h s1"
  shows "sl_head s1 = sl_head s" "sl_nodes s1 = (sl_nodes s)(x \<mapsto> \<lparr>sn_key = new, sn_next = replicate h None\<rparr>)"
proof -
  have s1: "s1 = s\<lparr>sl_rnd := sl_rnd s1, sl_max_height := max (sl_max_height s) h, sl_arena := sl_arena s1,
             sl_nodes := (sl_nodes s)(x \<mapsto> \<lparr>sn_key = new, sn_next = replicate h None\<rparr>)\<rparr>"
    using assms by (simp add: prepared_def)
  show "sl_head s1 = sl_head s" "sl_nodes s1 = (sl_nodes s)(x \<mapsto> \<lparr>sn_key = new, sn_next = replicate h None\<rparr>)"
    by (subst s1, simp)+
qed

lemma store_height_ok: "0 < h \<Longrightarrow> h \<le> kMaxHeight \<Longrightarrow> store_ok head (Height h) m m L L"
  by (simp add: store_ok_def)

lemma store_new_ok: "m x = None \<Longrightarrow> store_ok head (New x key h) m (m(x \<mapsto> nd)) L L"
  by (auto simp: store_ok_def grows_def nkey_def node_next_def)

lemma prepare_history:
  assumes h: "history_ok valid cmp head m0 log Ls" and mem: "memory_at m0 log (length log) = sl_nodes s"
    and p: "prepared valid cmp s (Ls (length log)) rs new x prev h s1" and head: "sl_head s = head"
  shows "\<exists>Ls'. history_ok valid cmp head m0 (log @ prepare_stores s x new h) Ls'
    \<and> (\<forall>k \<le> length log. Ls' k = Ls k)
    \<and> (\<forall>k. length log \<le> k \<longrightarrow> k \<le> length (log @ prepare_stores s x new h) \<longrightarrow>
         Ls' k = Ls (length log)
       \<and> map (nkey (memory_at m0 (log @ prepare_stores s x new h) k)) (Ls' k 0) = keys_of s (Ls (length log)))
    \<and> memory_at m0 (log @ prepare_stores s x new h) (length (log @ prepare_stores s x new h)) = sl_nodes s1"
proof -
  let ?L = "Ls (length log)" and ?new = "New x new h"
  have view: "sl_view valid cmp (sl_nodes s) head ?L" and fresh: "sl_nodes s x = None" and h0: "0 < h" "h \<le> kMaxHeight"
    using p head by (auto simp: prepared_def sl_inv_def link_ready_def)
  have grown: "do_store ?new (sl_nodes s) = Some (sl_nodes s1)" "sl_view valid cmp (sl_nodes s1) head ?L"
    "store_ok head ?new (sl_nodes s) (sl_nodes s1) ?L ?L"
    using prepared_list(2)[OF p] view_new_node[OF view fresh] store_new_ok[of "sl_nodes s" x, OF fresh] by simp_all
  have keys: "map (nkey (sl_nodes s1)) (?L 0) = map (nkey (sl_nodes s)) (?L 0)"
    using p prepared_list(2)[OF p] by (intro map_cong) (auto simp: nkey_def prepared_def link_ready_def)
  show ?thesis
  proof (cases "h > sl_max_height s")
    case False
    let ?log = "log @ [?new]" and ?Ls = "Ls(Suc (length log) := ?L)"
    have "history_ok valid cmp head m0 ?log ?Ls" "memory_at m0 ?log (Suc (length log)) = sl_nodes s1"
      using history_snoc[OF h mem grown(1,3,2)] by simp_all
    with False keys mem show ?thesis
      by (intro exI[of _ ?Ls]) (auto simp: prepare_stores_def le_Suc_eq keys_of_def memory_at_append)
  next
    case True
    let ?log1 = "log @ [Height h]" and ?Ls1 = "Ls(Suc (length log) := ?L)"
    have one: "history_ok valid cmp head m0 ?log1 ?Ls1" "memory_at m0 ?log1 (Suc (length log)) = sl_nodes s"
      using history_snoc[OF h mem _ store_height_ok[OF h0] view] by simp_all
    let ?log = "?log1 @ [?new]" and ?Ls = "?Ls1(Suc (Suc (length log)) := ?L)"
    have "history_ok valid cmp head m0 ?log ?Ls" "memory_at m0 ?log (Suc (Suc (length log))) = sl_nodes s1"
      using history_snoc[OF one(1), of "sl_nodes s" ?new "sl_nodes s1" ?L] one(2) grown by simp_all
    moreover have "memory_at m0 ?log (Suc (length log)) = sl_nodes s" "memory_at m0 ?log (length log) = sl_nodes s"
      using one(2) mem memory_at_append[of _ ?log1 m0 "[?new]"] memory_at_append[of _ log m0 "[Height h, ?new]"] by simp_all
    ultimately show ?thesis using True keys
      by (intro exI[of _ ?Ls]) (auto simp: prepare_stores_def le_Suc_eq keys_of_def)
  qed
qed

text \<open>One link: the levels it leaves are those of the sequential insertion.\<close>

context key_order begin

lemma link_event_ok:
  assumes ready: "link_ready valid cmp head L new x prev height m1" and inv: "link_inv valid cmp head L new x m1 n m"
    and n: "n < 2 * height"
  shows "\<exists>st m'. link_event x prev n m = Some st \<and> do_store st m = Some m'
    \<and> link_inv valid cmp head L new x m1 (Suc n) m'
    \<and> store_ok head st m m' (linked_levels cmp m1 new x L n) (linked_levels cmp m1 new x L (Suc n))"
proof -
  let ?i = "n div 2" and ?L = "linked_levels cmp m1 new x L n" and ?L' = "linked_levels cmp m1 new x L (Suc n)"
  have i: "?i < height" "?i < kMaxHeight" using n ready by (auto simp: link_ready_def)
  have ls: "link_store x prev n m \<noteq> None \<and> (\<forall>m'. link_store x prev n m = Some m' \<longrightarrow> link_inv valid cmp head L new x m1 (Suc n) m')"
    using link_store_even[OF ready inv n] link_store_odd[OF ready inv n] by (cases "even n") auto
  then obtain st m' where st: "link_event x prev n m = Some st" "do_store st m = Some m'"
      "link_inv valid cmp head L new x m1 (Suc n) m'"
    unfolding link_event_store[symmetric] by (auto simp: bind_eq_None_conv)
  have same: "same_nodes m m'"
    using same_nodes_trans[of m m1 m'] inv st(3) by (auto simp: link_inv_def same_nodes_def)
  obtain rel y p where ev: "st = Link rel y ?i p" "rel \<longleftrightarrow> odd n" "if rel then p = Some x else y = x"
    using st(1) by (cases "even n") (auto simp: link_event_def Let_def bind_eq_Some_conv)
  have upd: "node_next m' z j = (if z = y \<and> j = ?i then Some p else node_next m z j)" for z j
    using st(2) by (auto simp: ev(1) node_set_next_def node_next_def nth_list_update split: option.splits if_splits)
  have xL: "x \<noteq> head" "x \<notin> set (L ?i)"
    using ready view_sub[of valid cmp m1 head L ?i] i(2) by (auto simp: link_ready_def)
  have even: "?L' ?i = L ?i" if "even n" using that by (simp add: linked_levels_def)
  have odd: "x \<in> set (?L' ?i)" if "odd n" using that by (auto simp: linked_levels_def elim!: oddE)
  have "store_ok head st m m' ?L ?L'"
    unfolding store_ok_def
  proof (intro conjI)
    show "grows m m'" by (rule same_nodes_grows[OF same])
    show "\<forall>i < kMaxHeight. set (?L i) \<subseteq> set (?L' i)" by (simp add: linked_levels_mono)
    show "\<forall>z j. m z \<noteq> None \<and> (\<forall>release p. st \<noteq> Link release z j p) \<longrightarrow> node_next m' z j = node_next m z j"
      by (auto simp: upd ev(1))
    show "\<forall>z j q. st = Link True z j q \<longrightarrow> node_next m' z j = Some q \<and> (\<forall>w. q = Some w \<longrightarrow> w \<in> set (?L' j))"
      using ev odd by (auto simp: upd)
    show "\<forall>z j q. st = Link False z j q \<longrightarrow> z \<noteq> head \<and> z \<notin> set (?L' j)" using ev even xL by auto
    show "\<forall>h. st = Height h \<longrightarrow> 0 < h \<and> h \<le> kMaxHeight" by (simp add: ev(1))
  qed
  with st show ?thesis by blast
qed

end

section \<open>The invariant of a run\<close>

text \<open>The writer is idle and its list is whole, or it has stored \<open>n\<close> links of an insertion.\<close>

definition writer_ok ::
  "('k \<Rightarrow> bool) \<Rightarrow> ('k \<Rightarrow> 'k \<Rightarrow> int option) \<Rightarrow> (nat \<Rightarrow> nat list) \<Rightarrow> 'k sl_run \<Rightarrow> bool" where
  "writer_ok valid cmp L c \<longleftrightarrow> (case job c of
       None \<Rightarrow> \<exists>rs. sl_inv valid cmp (run_list c) L rs \<and> keys_of (run_list c) L = last (key_lists c)
     | Some (x, prev, h, n) \<Rightarrow> \<exists>s L0 rs new s1 m. prepared valid cmp s L0 rs new x prev h s1 \<and> n \<le> 2 * h
         \<and> run_list c = s1\<lparr>sl_nodes := m\<rparr> \<and> link_inv valid cmp (sl_head s) L0 new x (sl_nodes s1) n m
         \<and> L = linked_levels cmp (sl_nodes s1) new x L0 n
         \<and> keys_of s L0 \<in> set (key_lists c) \<and> last (key_lists c) = put_key cmp new (keys_of s L0))"

lemma writer_ok_job:
  assumes "job c = Some (x, prev, h, n)" and "run_list c = s1\<lparr>sl_nodes := m\<rparr>" and "prepared valid cmp s L0 rs new x prev h s1"
    and "n \<le> 2 * h" and "link_inv valid cmp (sl_head s) L0 new x (sl_nodes s1) n m"
    and "L = linked_levels cmp (sl_nodes s1) new x L0 n"
    and "keys_of s L0 \<in> set (key_lists c)" and "last (key_lists c) = put_key cmp new (keys_of s L0)"
  shows "writer_ok valid cmp L c"
  unfolding writer_ok_def assms(1) option.case prod.case using assms(2-) by blast

lemma writer_ok_reader [simp]:
  "writer_ok valid cmp L (c\<lparr>seeking := r\<rparr>) = writer_ok valid cmp L c"
  "writer_ok valid cmp L (c\<lparr>seeking := r, view := v\<rparr>) = writer_ok valid cmp L c"
  by (simp_all add: writer_ok_def split: option.split)

definition reader_ok ::
  "('k \<Rightarrow> 'k \<Rightarrow> int option) \<Rightarrow> 'k \<Rightarrow> nat \<Rightarrow> 'k memory \<Rightarrow> 'k sl_store list \<Rightarrow> (nat \<Rightarrow> nat \<Rightarrow> nat list) \<Rightarrow> nat \<Rightarrow> ptr search option \<Rightarrow> bool" where
  "reader_ok cmp key head m0 log Ls v sk \<longleftrightarrow> v \<le> length log
     \<and> (\<forall>y i. sk = Some (Search y i) \<longrightarrow> search_at cmp (memory_at m0 log v) head (Ls v) key y i)
     \<and> (\<forall>p. sk = Some (Found p) \<longrightarrow> (\<exists>k \<le> length log. p = first_ge cmp (memory_at m0 log k) key (Ls k 0)))"

definition run_inv ::
  "('k \<Rightarrow> bool) \<Rightarrow> ('k \<Rightarrow> 'k \<Rightarrow> int option) \<Rightarrow> 'k \<Rightarrow> 'k skip_list \<Rightarrow> (nat \<Rightarrow> nat \<Rightarrow> nat list) \<Rightarrow> 'k sl_run \<Rightarrow> bool" where
  "run_inv valid cmp key s0 Ls c \<longleftrightarrow>
     (let m0 = sl_nodes s0; log = run_log c; now = length (run_log c)
      in history_ok valid cmp (sl_head s0) m0 log Ls \<and> memory_at m0 log now = sl_nodes (run_list c)
       \<and> sl_head (run_list c) = sl_head s0 \<and> key_lists c \<noteq> []
       \<and> (\<forall>k \<le> now. map (nkey (memory_at m0 log k)) (Ls k 0) \<in> set (key_lists c))
       \<and> writer_ok valid cmp (Ls now) c \<and> reader_ok cmp key (sl_head s0) m0 log Ls (view c) (seeking c))"

text \<open>The writer does not touch what the reader has seen.\<close>

lemma reader_frame:
  assumes "\<forall>k \<le> length log. Ls' k = Ls k" "reader_ok cmp key head m0 log Ls v sk"
  shows "reader_ok cmp key head m0 (log @ sts) Ls' v sk"
  unfolding reader_ok_def
proof (intro conjI allI impI)
  show "v \<le> length (log @ sts)" using assms(2) by (simp add: reader_ok_def)
next
  fix y i assume "sk = Some (Search y i)"
  with assms show "search_at cmp (memory_at m0 (log @ sts) v) head (Ls' v) key y i"
    by (simp add: reader_ok_def memory_at_append)
next
  fix p assume "sk = Some (Found p)"
  then obtain k where "k \<le> length log" "p = first_ge cmp (memory_at m0 log k) key (Ls k 0)"
    using assms(2) by (auto simp: reader_ok_def)
  with assms(1) show "\<exists>k \<le> length (log @ sts). p = first_ge cmp (memory_at m0 (log @ sts) k) key (Ls' k 0)"
    by (intro exI[of _ k]) (simp add: memory_at_append)
qed

context key_order begin

lemma run_prepare:
  assumes inv: "run_inv valid cmp key s0 Ls c" and idle: "job c = None" and new: "valid new"
    and fresh: "\<forall>k \<in> set (last (key_lists c)). \<not> key_eqv cmp new k" and addr: "new_address 0 a (sl_arena (run_list c))"
  shows "\<exists>x prev h s1. insert_prepare cmp new a (run_list c) = Some (x, prev, h, s1) \<and>
    (\<exists>Ls'. run_inv valid cmp key s0 Ls' (c\<lparr>run_list := s1, run_log := run_log c @ prepare_stores (run_list c) x new h,
      job := Some (x, prev, h, 0), key_lists := key_lists c @ [put_key cmp new (last (key_lists c))]\<rparr>))"
proof -
  let ?s = "run_list c" and ?log = "run_log c" and ?m0 = "sl_nodes s0" and ?L = "Ls (length (run_log c))"
  have h: "history_ok valid cmp (sl_head s0) ?m0 ?log Ls" "memory_at ?m0 ?log (length ?log) = sl_nodes ?s"
    "sl_head ?s = sl_head s0" "reader_ok cmp key (sl_head s0) ?m0 ?log Ls (view c) (seeking c)" "key_lists c \<noteq> []"
    "\<forall>k \<le> length ?log. map (nkey (memory_at ?m0 ?log k)) (Ls k 0) \<in> set (key_lists c)"
    using inv by (simp_all add: run_inv_def Let_def)
  obtain rs where rs: "sl_inv valid cmp ?s ?L rs" "keys_of ?s ?L = last (key_lists c)"
    using inv idle by (auto simp: run_inv_def Let_def writer_ok_def)
  obtain x prev ht s1 where p: "insert_prepare cmp new a ?s = Some (x, prev, ht, s1)"
    "prepared valid cmp ?s ?L rs new x prev ht s1"
    using view_ready[OF rs(1) new _ addr] fresh rs unfolding prepared_def by metis
  let ?log' = "?log @ prepare_stores ?s x new ht"
  obtain Ls' where Ls': "history_ok valid cmp (sl_head s0) ?m0 ?log' Ls'" "\<forall>k \<le> length ?log. Ls' k = Ls k"
    "\<forall>k. length ?log \<le> k \<longrightarrow> k \<le> length ?log' \<longrightarrow> Ls' k = ?L
       \<and> map (nkey (memory_at ?m0 ?log' k)) (Ls' k 0) = keys_of ?s ?L"
    "memory_at ?m0 ?log' (length ?log') = sl_nodes s1"
    using prepare_history[OF h(1,2) p(2) h(3)] by blast
  have member: "last (key_lists c) \<in> set (key_lists c)" using h(5) by simp
  have keys: "map (nkey (memory_at ?m0 ?log' k)) (Ls' k 0) \<in> set (key_lists c)" if "k \<le> length ?log'" for k
  proof (cases "k \<le> length ?log")
    case True
    with h(6) Ls'(2) show ?thesis by (simp add: memory_at_append)
  next
    case False
    then have "map (nkey (memory_at ?m0 ?log' k)) (Ls' k 0) = keys_of ?s ?L"
      using Ls'(3)[rule_format, of k] that by (metis nle_le)
    with rs(2) member show ?thesis by simp
  qed
  have links: "link_inv valid cmp (sl_head ?s) ?L new x (sl_nodes s1) 0 (sl_nodes s1)"
    using p(2) by (simp add: link_inv_def prepared_def link_ready_def linked_levels_def[abs_def])
  have levels: "Ls' (length ?log') = linked_levels cmp (sl_nodes s1) new x ?L 0"
    using Ls'(3) by (simp add: linked_levels_def fun_eq_iff)
  have writer: "writer_ok valid cmp (Ls' (length ?log')) (c\<lparr>run_list := s1, run_log := ?log',
      job := Some (x, prev, ht, 0), key_lists := key_lists c @ [put_key cmp new (last (key_lists c))]\<rparr>)"
    by (rule writer_ok_job[OF _ _ p(2) _ links levels]) (use rs(2) member in simp_all)
  note reader = reader_frame[OF Ls'(2) h(4), of "prepare_stores ?s x new ht"]
  have "run_inv valid cmp key s0 Ls' (c\<lparr>run_list := s1, run_log := ?log',
      job := Some (x, prev, ht, 0), key_lists := key_lists c @ [put_key cmp new (last (key_lists c))]\<rparr>)"
    using Ls'(1,4) prepared_list(1)[OF p(2)] h(3) keys writer reader by (simp add: run_inv_def Let_def)
  with p(1) show ?thesis by blast
qed

lemma run_link:
  assumes inv: "run_inv valid cmp key s0 Ls c" and job: "job c = Some (x, prev, h, n)" and n: "n < 2 * h"
  shows "\<exists>st m. link_event x prev n (sl_nodes (run_list c)) = Some st \<and> do_store st (sl_nodes (run_list c)) = Some m \<and>
    (\<exists>Ls'. run_inv valid cmp key s0 Ls' (c\<lparr>run_list := (run_list c)\<lparr>sl_nodes := m\<rparr>, run_log := run_log c @ [st],
      job := Some (x, prev, h, Suc n)\<rparr>))"
proof -
  let ?log = "run_log c" and ?m0 = "sl_nodes s0" and ?L = "Ls (length (run_log c))"
  have hist: "history_ok valid cmp (sl_head s0) ?m0 ?log Ls" "memory_at ?m0 ?log (length ?log) = sl_nodes (run_list c)"
    "sl_head (run_list c) = sl_head s0" "reader_ok cmp key (sl_head s0) ?m0 ?log Ls (view c) (seeking c)"
    "key_lists c \<noteq> []" "\<forall>k \<le> length ?log. map (nkey (memory_at ?m0 ?log k)) (Ls k 0) \<in> set (key_lists c)"
    using inv by (simp_all add: run_inv_def Let_def)
  obtain s L0 rs new s1 m where w: "prepared valid cmp s L0 rs new x prev h s1" "run_list c = s1\<lparr>sl_nodes := m\<rparr>"
    "link_inv valid cmp (sl_head s) L0 new x (sl_nodes s1) n m" "?L = linked_levels cmp (sl_nodes s1) new x L0 n"
    "keys_of s L0 \<in> set (key_lists c)" "last (key_lists c) = put_key cmp new (keys_of s L0)"
    using inv job by (auto simp: run_inv_def Let_def writer_ok_def)
  have ready: "link_ready valid cmp (sl_head s) L0 new x prev h (sl_nodes s1)" using w(1) by (simp add: prepared_def)
  have head: "sl_head s = sl_head s0" using hist(3) w(2) prepared_list(1)[OF w(1)] by simp
  obtain st m' where st: "link_event x prev n m = Some st" "do_store st m = Some m'"
    "link_inv valid cmp (sl_head s) L0 new x (sl_nodes s1) (Suc n) m'"
    "store_ok (sl_head s) st m m' ?L (linked_levels cmp (sl_nodes s1) new x L0 (Suc n))"
    using link_event_ok[OF ready w(3) n] w(4) by auto
  let ?L' = "linked_levels cmp (sl_nodes s1) new x L0 (Suc n)" and ?log' = "?log @ [st]"
  let ?Ls' = "Ls(Suc (length ?log) := ?L')"
  have view: "sl_view valid cmp m' (sl_head s0) ?L'" using st(3) head by (simp add: link_inv_def)
  have "memory_at ?m0 ?log (length ?log) = m" using hist(2) w(2) by simp
  note snoc = history_snoc[OF hist(1) this st(2) st(4)[unfolded head] view]
  have "map (nkey (sl_nodes s1)) (L0 0) = keys_of s L0"
    using ready prepared_list(2)[OF w(1)] unfolding keys_of_def by (intro map_cong) (auto simp: nkey_def link_ready_def)
  then have now: "map (nkey m') (?L' 0) \<in> set (key_lists c)"
    using linked_keys[OF ready st(3)] w(5,6) last_in_set[OF hist(5)] by simp
  have keys: "map (nkey (memory_at ?m0 ?log' k)) (?Ls' k 0) \<in> set (key_lists c)" if "k \<le> length ?log'" for k
    using that hist(6) now snoc(2) by (cases "k = Suc (length ?log)") (simp_all add: memory_at_append)
  have reader: "reader_ok cmp key (sl_head s0) ?m0 ?log' ?Ls' (view c) (seeking c)"
    by (rule reader_frame[OF _ hist(4)]) simp
  have writer: "writer_ok valid cmp ?L' (c\<lparr>run_list := s1\<lparr>sl_nodes := m'\<rparr>, run_log := ?log', job := Some (x, prev, h, Suc n)\<rparr>)"
    by (rule writer_ok_job[OF _ _ w(1) _ st(3)]) (use w(5,6) n in simp_all)
  have "run_inv valid cmp key s0 ?Ls' (c\<lparr>run_list := s1\<lparr>sl_nodes := m'\<rparr>, run_log := ?log', job := Some (x, prev, h, Suc n)\<rparr>)"
    using snoc hist(3,5) w(2) keys reader writer by (simp add: run_inv_def Let_def)
  with st(1,2) w(2) show ?thesis by auto
qed

lemma run_finish:
  assumes inv: "run_inv valid cmp key s0 Ls c" and job: "job c = Some (x, prev, h, 2 * h)"
  shows "run_inv valid cmp key s0 Ls (c\<lparr>job := None\<rparr>)"
proof -
  let ?L = "Ls (length (run_log c))"
  obtain s L0 rs new s1 m where w: "prepared valid cmp s L0 rs new x prev h s1" "run_list c = s1\<lparr>sl_nodes := m\<rparr>"
    "link_inv valid cmp (sl_head s) L0 new x (sl_nodes s1) (2 * h) m" "?L = linked_levels cmp (sl_nodes s1) new x L0 (2 * h)"
    "last (key_lists c) = put_key cmp new (keys_of s L0)"
    using inv job by (auto simp: run_inv_def Let_def writer_ok_def)
  have "sl_inv valid cmp (run_list c) ?L ((x, node_size h) # rs)" "keys_of (run_list c) ?L = put_key cmp new (keys_of s L0)"
    unfolding w(2,4)
    by (rule all_linked_inv(1)[where prev = prev] all_linked_inv(2)[where prev = prev];
        use w(1,3) in \<open>unfold prepared_def, blast\<close>)+
  with w(5) inv show ?thesis by (auto simp: run_inv_def Let_def writer_ok_def)
qed

lemma run_start_seek:
  assumes inv: "run_inv valid cmp key s0 Ls c" and s0: "0 < sl_max_height s0" "sl_max_height s0 \<le> kMaxHeight"
    and k: "k \<le> length (run_log c)"
  shows "run_inv valid cmp key s0 Ls (c\<lparr>seeking := Some (Search (sl_head s0) (height_at (sl_max_height s0) (run_log c) k - 1))\<rparr>)"
proof -
  have "history_ok valid cmp (sl_head s0) (sl_nodes s0) (run_log c) Ls" using inv by (simp add: run_inv_def Let_def)
  from height_at_range[OF this s0 k] have "height_at (sl_max_height s0) (run_log c) k - 1 < kMaxHeight" by linarith
  with inv show ?thesis by (simp add: run_inv_def Let_def reader_ok_def search_at_def)
qed

lemma run_seek:
  assumes inv: "run_inv valid cmp key s0 Ls c" and key: "valid key" and sk: "seeking c = Some (Search y i)"
    and k: "view c \<le> k" "k \<le> length (run_log c)"
  shows "\<exists>r v. reader_turn cmp (sl_nodes s0) (run_log c) key k (view c) y i = Some (r, v)
    \<and> run_inv valid cmp key s0 Ls (c\<lparr>seeking := Some r, view := v\<rparr>)"
proof -
  have h: "history_ok valid cmp (sl_head s0) (sl_nodes s0) (run_log c) Ls"
    "search_at cmp (memory_at (sl_nodes s0) (run_log c) (view c)) (sl_head s0) (Ls (view c)) key y i"
    using inv sk by (simp_all add: run_inv_def Let_def reader_ok_def)
  obtain r v where t: "reader_turn cmp (sl_nodes s0) (run_log c) key k (view c) y i = Some (r, v)" "v \<le> length (run_log c)"
    "case r of Search y' i' \<Rightarrow> search_at cmp (memory_at (sl_nodes s0) (run_log c) v) (sl_head s0) (Ls v) key y' i'
       | Found p \<Rightarrow> p = first_ge cmp (memory_at (sl_nodes s0) (run_log c) k) key (Ls k 0)"
    using reader_turn_ok[OF h(1) key h(2) k] by blast
  then have "reader_ok cmp key (sl_head s0) (sl_nodes s0) (run_log c) Ls v (Some r)"
    using k(2) by (cases r) (auto simp: reader_ok_def)
  with t(1) inv show ?thesis by (simp add: run_inv_def Let_def)
qed

lemma run_reach_inv:
  assumes run: "sl_run_reach valid cmp key s0 ks0 c" and s0: "sl_inv valid cmp s0 L rs" "keys_of s0 L = ks0" and key: "valid key"
  shows "\<exists>Ls. run_inv valid cmp key s0 Ls c"
  using run
proof (induction rule: sl_run_reach.induct)
  case begins
  have "run_inv valid cmp key s0 (\<lambda>_. L) (run_start s0 ks0)"
    using s0 by (auto simp: run_inv_def Let_def run_start_def history_ok_def memory_at_def writer_ok_def reader_ok_def
        keys_of_def sl_inv_def)
  then show ?case by blast
next
  case (prepare c new a x prev height s1)
  then obtain Ls where "run_inv valid cmp key s0 Ls c" by blast
  from run_prepare[OF this prepare.hyps(2-5)] prepare.hyps(6) show ?case by auto
next
  case (link c x prev height n st m)
  then obtain Ls where "run_inv valid cmp key s0 Ls c" by blast
  from run_link[OF this link.hyps(2,3)] link.hyps(4,5) show ?case by auto
next
  case (finish c x prev height)
  then show ?case using run_finish by blast
next
  case (start_seek c k)
  then show ?case using run_start_seek s0(1) unfolding sl_inv_def by blast
next
  case (seek c y i k r v)
  then obtain Ls where "run_inv valid cmp key s0 Ls c" by blast
  from run_seek[OF this key seek.hyps(2-4)] seek.hyps(5) show ?case by auto
qed

end

text \<open>The key a reader found, read from the memory now.\<close>

lemma found_key:
  assumes inv: "run_inv valid cmp key s0 Ls c" and k: "k \<le> length (run_log c)"
  shows "map_option (nkey (sl_nodes (run_list c))) (first_ge cmp (memory_at (sl_nodes s0) (run_log c) k) key (Ls k 0))
    = hd_opt (dropWhile (\<lambda>k. key_lt cmp k key) (map (nkey (memory_at (sl_nodes s0) (run_log c) k)) (Ls k 0)))"
proof -
  let ?m = "memory_at (sl_nodes s0) (run_log c) k"
  have h: "history_ok valid cmp (sl_head s0) (sl_nodes s0) (run_log c) Ls"
    "memory_at (sl_nodes s0) (run_log c) (length (run_log c)) = sl_nodes (run_list c)"
    using inv by (simp_all add: run_inv_def Let_def)
  show ?thesis
  proof (cases "dropWhile (before cmp ?m key) (Ls k 0)")
    case Nil
    then show ?thesis by (simp add: first_ge_def dropWhile_map comp_def before_def[abs_def] del: dropWhile_eq_Nil_conv)
  next
    case (Cons z zs)
    then have "z \<in> set (Ls k 0)" by (metis list.set_intros(1) set_dropWhileD)
    moreover have "level_ok valid cmp ?m (sl_head s0) 0 (Ls k 0)"
      using h(1) k view_level[of valid cmp ?m "sl_head s0" "Ls k" 0] by (simp add: history_ok_def kMaxHeight_def)
    ultimately have "?m z \<noteq> None" by (simp add: level_ok_def)
    moreover have "grows ?m (sl_nodes (run_list c))"
      using history_mono[OF h(1) _ k order.refl, of 0] h(2) by (simp add: kMaxHeight_def)
    ultimately have "nkey (sl_nodes (run_list c)) z = nkey ?m z" unfolding grows_def by blast
    with Cons show ?thesis by (simp add: first_ge_def dropWhile_map comp_def before_def[abs_def])
  qed
qed

section \<open>Properties\<close>

text \<open>
  C6. Readers need no lock.  While a writer inserts any number of keys, a reader whose loads may return
  any value the memory orders of the code allow never fails an assertion, never reads a link that was
  not stored, never reads a key without the construction of its node happening before, and finds the
  first key at or after its target in one of the lists there have been since it started; and the
  insertions of the writer all return.
\<close>

theorem readers_need_no_lock:
  assumes "key_order valid cmp" "sl_reach valid cmp s0 ks0" "valid key" "sl_run_reach valid cmp key s0 ks0 c"
  shows "(\<forall>y i k. seeking c = Some (Search y i) \<and> view c \<le> k \<and> k \<le> length (run_log c) \<longrightarrow>
        reader_turn cmp (sl_nodes s0) (run_log c) key k (view c) y i \<noteq> None)
    \<and> (\<forall>p. seeking c = Some (Found p) \<longrightarrow> map_option (nkey (sl_nodes (run_list c))) p
        \<in> (\<lambda>ks. hd_opt (dropWhile (\<lambda>k. key_lt cmp k key) ks)) ` set (key_lists c))
    \<and> (\<forall>x prev h n. job c = Some (x, prev, h, n) \<and> n < 2 * h \<longrightarrow>
        Option.bind (link_event x prev n (sl_nodes (run_list c))) (\<lambda>st. do_store st (sl_nodes (run_list c))) \<noteq> None)
    \<and> (\<forall>new a. job c = None \<and> valid new \<and> (\<forall>k \<in> set (last (key_lists c)). \<not> key_eqv cmp new k)
        \<and> new_address 0 a (sl_arena (run_list c)) \<longrightarrow> insert_prepare cmp new a (run_list c) \<noteq> None)"
proof (intro conjI allI impI)
  obtain L rs where L: "sl_inv valid cmp s0 L rs" "keys_of s0 L = ks0" using sl_reach_inv[OF assms(1,2)] by blast
  obtain Ls where inv: "run_inv valid cmp key s0 Ls c" using key_order.run_reach_inv[OF assms(1,4) L assms(3)] by blast
  {
    fix y i k assume "seeking c = Some (Search y i) \<and> view c \<le> k \<and> k \<le> length (run_log c)"
    then show "reader_turn cmp (sl_nodes s0) (run_log c) key k (view c) y i \<noteq> None"
      using key_order.run_seek[OF assms(1) inv assms(3)] by blast
  next
    fix p assume "seeking c = Some (Found p)"
    then obtain k where k: "k \<le> length (run_log c)" "p = first_ge cmp (memory_at (sl_nodes s0) (run_log c) k) key (Ls k 0)"
      using inv by (auto simp: run_inv_def Let_def reader_ok_def)
    have "map (nkey (memory_at (sl_nodes s0) (run_log c) k)) (Ls k 0) \<in> set (key_lists c)"
      using inv k(1) by (simp add: run_inv_def Let_def)
    then show "map_option (nkey (sl_nodes (run_list c))) p
        \<in> (\<lambda>ks. hd_opt (dropWhile (\<lambda>k. key_lt cmp k key) ks)) ` set (key_lists c)"
      unfolding k(2) found_key[OF inv k(1)] by (rule imageI)
  next
    fix x prev h n assume "job c = Some (x, prev, h, n) \<and> n < 2 * h"
    then show "Option.bind (link_event x prev n (sl_nodes (run_list c))) (\<lambda>st. do_store st (sl_nodes (run_list c))) \<noteq> None"
      using key_order.run_link[OF assms(1) inv] by fastforce
  next
    fix new a assume "job c = None \<and> valid new \<and> (\<forall>k \<in> set (last (key_lists c)). \<not> key_eqv cmp new k)
        \<and> new_address 0 a (sl_arena (run_list c))"
    then show "insert_prepare cmp new a (run_list c) \<noteq> None"
      using key_order.run_prepare[OF assms(1) inv] by fastforce
  }
qed

theorem readers_need_no_lock_witness:
  "\<exists>s c. example_list = Some s \<and> sl_run_reach (\<lambda>_. True) byte_cmp [98] s [] c \<and> job c \<noteq> None
    \<and> (\<forall>k \<le> length (run_log c). reader_turn byte_cmp (sl_nodes s) (run_log c) [98] k 0 (sl_head s) 0 \<noteq> None)"
proof -
  obtain s where s: "example_list = Some s" "sl_reach (\<lambda>_. True) byte_cmp s []" "new_address 0 8192 (sl_arena s)"
    using example_reach by blast
  obtain L rs where L: "sl_inv (\<lambda>_. True) byte_cmp s L rs" "keys_of s L = []"
    using sl_reach_inv[OF slice_ord.key_order_axioms s(2)] by blast
  obtain x prev h s1 where p: "insert_prepare byte_cmp [97] 8192 s = Some (x, prev, h, s1)"
    using slice_ord.view_ready[OF L(1) _ _ s(3), of "[97]"] L(2) by auto
  have height: "sl_max_height s = 1"
    using s(1) by (auto simp: example_list_def skip_list_ctor_def bind_eq_Some_conv)
  let ?c0 = "run_start s []"
  let ?c1 = "?c0\<lparr>run_list := s1, run_log := run_log ?c0 @ prepare_stores s x [97] h, job := Some (x, prev, h, 0),
      key_lists := key_lists ?c0 @ [put_key byte_cmp [97] (last (key_lists ?c0))]\<rparr>"
  let ?c2 = "?c1\<lparr>seeking := Some (Search (sl_head s) (height_at (sl_max_height s) (run_log ?c1) 0 - 1))\<rparr>"
  have "sl_run_reach (\<lambda>_. True) byte_cmp [98] s [] ?c1"
    using sl_run_reach.prepare[OF sl_run_reach.begins, of s "[]" "\<lambda>_. True" "[97]" byte_cmp 8192 x prev h s1 "[98]"] p s(3)
    by (simp add: run_start_def)
  then have reach: "sl_run_reach (\<lambda>_. True) byte_cmp [98] s [] ?c2"
    by (rule sl_run_reach.start_seek) (simp_all add: run_start_def)
  have "seeking ?c2 = Some (Search (sl_head s) 0)" "view ?c2 = 0" "job ?c2 \<noteq> None"
    by (simp_all add: height run_start_def)
  with readers_need_no_lock[OF slice_ord.key_order_axioms s(2) TrueI reach] reach s(1) show ?thesis
    by (intro exI[of _ s] exI[of _ ?c2]) auto
qed

end
