(* ===== verification/Options.thy ===== *)
theory Options
  imports Environment Db_Format Lru_Cache_Inv
begin

text \<open>
  \<open>include/leveldb/options.h\<close>, \<open>src/leveldb/options.cc\<close> and \<open>sanitize_options\<close> of
  \<open>src/leveldb/db_impl.cc\<close>.  A null pointer is \<open>None\<close>; the logger is a handle of the environment,
  and the environment \<open>env::Default()\<close> returns is an argument.  A filter policy object is the client's or
  the database's wrapper of the client's pointer.
\<close>

datatype policy_object = User_Policy filter_policy | Internal_Policy "filter_policy option"

record 'w options =
  opt_comparator :: comparator
  opt_create_if_missing :: bool
  opt_error_if_exists :: bool
  opt_paranoid_checks :: bool
  opt_env :: "'w env"
  opt_info_log :: "nat option"
  opt_block_cache :: "nat sharded_lru_cache option"
  opt_block_size :: nat
  opt_write_buffer_size :: nat
  opt_max_open_files :: int
  opt_max_file_size :: nat
  opt_reuse_logs :: bool
  opt_filter_policy :: "policy_object option"

definition options_ctor :: "'w env \<Rightarrow> 'w options" where
  "options_ctor default_env =
     \<lparr>opt_comparator = bytewise_comparator, opt_create_if_missing = False, opt_error_if_exists = False,
      opt_paranoid_checks = False, opt_env = default_env, opt_info_log = None, opt_block_cache = None,
      opt_block_size = 4 * 1024, opt_write_buffer_size = 4 * 1024 * 1024, opt_max_open_files = 1000,
      opt_max_file_size = 2 * 1024 * 1024, opt_reuse_logs = False, opt_filter_policy = None\<rparr>"

record write_options =
  sync :: bool

definition write_options_ctor :: write_options where
  "write_options_ctor = \<lparr>sync = False\<rparr>"

definition kNumNonTableCacheFiles :: int where
  "kNumNonTableCacheFiles = 10"

definition table_cache_size :: "'w options \<Rightarrow> int" where
  "table_cache_size opts = opt_max_open_files opts - kNumNonTableCacheFiles"

section \<open>Sanitizing\<close>

text \<open>
  The template compares after a cast to the type of the bounds, which is \<open>int\<close> in every use: a
  \<open>size_t\<close> is compared by its low 32 bits as a signed number, but kept in full.
\<close>

definition int_of_size :: "nat \<Rightarrow> int" where
  "int_of_size v = sint (of_nat v :: 32 word)"

definition clip_to_range :: "('a \<Rightarrow> int) \<Rightarrow> (int \<Rightarrow> 'a) \<Rightarrow> 'a \<Rightarrow> int \<Rightarrow> int \<Rightarrow> 'a" where
  "clip_to_range cast_v store v minvalue maxvalue =
     (let v1 = (if cast_v v > maxvalue then store maxvalue else v)
      in if cast_v v1 < minvalue then store minvalue else v1)"

abbreviation clip_size :: "nat \<Rightarrow> int \<Rightarrow> int \<Rightarrow> nat" where
  "clip_size \<equiv> clip_to_range int_of_size nat"

abbreviation clip_int :: "int \<Rightarrow> int \<Rightarrow> int \<Rightarrow> int" where
  "clip_int \<equiv> clip_to_range id id"

definition clipped_options :: "comparator \<Rightarrow> policy_object \<Rightarrow> 'w options \<Rightarrow> 'w options" where
  "clipped_options icmp ipolicy src = src\<lparr>opt_comparator := icmp,
     opt_filter_policy := (if opt_filter_policy src \<noteq> None then Some ipolicy else None),
     opt_max_open_files := clip_int (opt_max_open_files src) (64 + kNumNonTableCacheFiles) 50000,
     opt_write_buffer_size := clip_size (opt_write_buffer_size src) (64 * 2 ^ 10) (2 ^ 30),
     opt_max_file_size := clip_size (opt_max_file_size src) (2 ^ 20) (2 ^ 30),
     opt_block_size := clip_size (opt_block_size src) (2 ^ 10) (4 * 2 ^ 20)\<rparr>"

text \<open>
  The comparator and the filter policy become the internal ones of the database.  The statuses of
  \<open>create_dir\<close> and \<open>rename_file\<close> are ignored.
\<close>

definition open_info_log :: "bytes \<Rightarrow> 'w options \<Rightarrow> 'w options \<Rightarrow> 'w \<Rightarrow> ('w options \<times> 'w) option" where
  "open_info_log dbname src r w =
     (if opt_info_log r = None then
        Option.bind (env_create_dir (opt_env src) dbname w) (\<lambda>(_, w1).
        Option.bind (env_rename_file (opt_env src) (info_log_file_name dbname) (old_info_log_file_name dbname) w1) (\<lambda>(_, w2).
        map_option (\<lambda>(s, h, w3). (r\<lparr>opt_info_log := (if is_ok s then Some h else None)\<rparr>, w3))
          (env_new_logger (opt_env src) (info_log_file_name dbname) w2)))
      else Some (r, w))"

definition add_block_cache :: "'w options \<Rightarrow> 'w options option" where
  "add_block_cache r =
     (if opt_block_cache r = None
      then map_option (\<lambda>c. r\<lparr>opt_block_cache := Some c\<rparr>) (sharded_ctor (8 * 2 ^ 20)) else Some r)"

definition sanitize_options :: "bytes \<Rightarrow> comparator \<Rightarrow> policy_object \<Rightarrow> 'w options \<Rightarrow> 'w \<Rightarrow> ('w options \<times> 'w) option" where
  "sanitize_options dbname icmp ipolicy src w =
     Option.bind (open_info_log dbname src (clipped_options icmp ipolicy src) w) (\<lambda>(r, w1).
       map_option (\<lambda>r1. (r1, w1)) (add_block_cache r))"

lemma open_info_log_result: "open_info_log dbname src r w = Some (r1, w1) \<Longrightarrow> \<exists>i. r1 = r\<lparr>opt_info_log := i\<rparr>"
  by (cases "opt_info_log r") (auto simp: open_info_log_def bind_eq_Some_conv intro: exI[of _ "opt_info_log r"])

lemma sanitize_result:
  assumes "sanitize_options dbname icmp ipolicy src w = Some (r, w')"
  shows "\<exists>i c. r = clipped_options icmp ipolicy src\<lparr>opt_info_log := i, opt_block_cache := Some c\<rparr>"
proof -
  obtain r1 w1 where r1: "open_info_log dbname src (clipped_options icmp ipolicy src) w = Some (r1, w1)"
    "add_block_cache r1 = Some r"
    using assms by (auto simp: sanitize_options_def bind_eq_Some_conv)
  obtain i where i: "r1 = clipped_options icmp ipolicy src\<lparr>opt_info_log := i\<rparr>"
    using open_info_log_result[OF r1(1)] by blast
  show ?thesis
  proof (cases "opt_block_cache r1")
    case None
    with r1(2) i show ?thesis by (auto simp: add_block_cache_def)
  next
    case (Some c)
    then have "r = r1\<lparr>opt_block_cache := Some c\<rparr>" using r1(2) by (simp add: add_block_cache_def)
    with i show ?thesis by blast
  qed
qed

section \<open>Properties\<close>

lemma int_of_size_small: "v < 2 ^ 31 \<Longrightarrow> int_of_size v = int v"
  by (simp add: int_of_size_def signed_of_nat signed_take_bit_int_eq_self)

lemma clip_size_bounds:
  assumes "v < 2 ^ 31" "0 \<le> lo" "lo \<le> hi" "hi < 2 ^ 31"
  shows "nat lo \<le> clip_size v lo hi \<and> clip_size v lo hi \<le> nat hi"
  using assms int_of_size_small[of v] int_of_size_small[of "nat hi"]
  by (auto simp: clip_to_range_def Let_def)

lemma clip_size_truncates: "clip_size (2 ^ 32 + 2 ^ 20) (2 ^ 16) (2 ^ 30) = 2 ^ 32 + 2 ^ 20"
  by (simp add: clip_to_range_def int_of_size_def)

definition sizes_below :: "nat \<Rightarrow> 'w options \<Rightarrow> bool" where
  "sizes_below n opts \<longleftrightarrow> opt_write_buffer_size opts < n \<and> opt_max_file_size opts < n \<and> opt_block_size opts < n"



end
