(* ===== verification/Version_Set.thy ===== *)
theory Version_Set
  imports Complex_Main Options Version_Edit Log_Writer Log_Reader
begin

text \<open>
  \<open>__detail/version_set.h/.cc\<close>.  Versions live in a heap and are linked through it in a circular
  list around the member \<open>dummy_versions_\<close>, whose address is 0; dereferencing a null pointer or a
  freed version is \<open>None\<close>, as is a failed assertion.  The address \<open>new version\<close> returns is an
  argument.  A file is a value: no version ever holds one, because \<open>builder::save_to\<close> is empty.
  The scores, which are doubles, are rational numbers: the quotients compared with 1 have
  denominators below \<open>2 ^ 40\<close>, so rounding does not move them across it.  What \<open>Log\<close> writes to the
  info log is not modelled.
\<close>

record version =
  ver_next :: "nat option"
  ver_prev :: "nat option"
  ver_refs :: int
  ver_files :: "file_meta_data list list"
  file_to_compact :: "file_meta_data option"
  file_to_compact_level :: int
  compaction_score :: rat
  compaction_level :: int

type_synonym version_heap = "nat \<Rightarrow> version option"

record 'w version_set =
  vs_env :: "'w env"
  vs_dbname :: bytes
  vs_options :: "'w options"
  vs_comparator :: comparator
  vs_next_file_number :: u64
  vs_manifest_file_number :: u64
  vs_last_sequence :: u64
  vs_log_number :: u64
  vs_prev_log_number :: u64
  vs_descriptor_file :: "nat option"
  vs_descriptor_log :: "log_writer option"
  vs_heap :: version_heap
  vs_current :: "nat option"
  vs_compact_pointer :: "bytes list"

definition dummy_versions :: nat where
  "dummy_versions = 0"

definition target_file_size :: "'w options \<Rightarrow> nat" where
  "target_file_size opts = opt_max_file_size opts"

section \<open>Versions\<close>

definition version_ctor :: version where
  "version_ctor = \<lparr>ver_next = None, ver_prev = None, ver_refs = 0, ver_files = replicate kNumLevels [],
     file_to_compact = None, file_to_compact_level = -1, compaction_score = -1, compaction_level = -1\<rparr>"

definition set_ver_next :: "nat option \<Rightarrow> nat option \<Rightarrow> version_heap \<Rightarrow> version_heap option" where
  "set_ver_next p n h = Option.bind p (\<lambda>a. map_option (\<lambda>v. h(a \<mapsto> v\<lparr>ver_next := n\<rparr>)) (h a))"

definition set_ver_prev :: "nat option \<Rightarrow> nat option \<Rightarrow> version_heap \<Rightarrow> version_heap option" where
  "set_ver_prev p n h = Option.bind p (\<lambda>a. map_option (\<lambda>v. h(a \<mapsto> v\<lparr>ver_prev := n\<rparr>)) (h a))"

text \<open>The files of a deleted version lose a reference each; none may be without.\<close>

definition version_dtor :: "nat \<Rightarrow> version_heap \<Rightarrow> version_heap option" where
  "version_dtor a h =
     Option.bind (h a) (\<lambda>v.
       if ver_refs v \<noteq> 0 then None
       else
         Option.bind (set_ver_next (ver_prev v) (ver_next v) h) (\<lambda>h1.
         Option.bind (set_ver_prev (ver_next v) (ver_prev v) h1) (\<lambda>h2.
           if list_all (list_all (\<lambda>f. 0 < refs f)) (ver_files v) then Some (h2(a := None)) else None)))"

definition version_ref :: "nat \<Rightarrow> version_heap \<Rightarrow> version_heap option" where
  "version_ref a h = map_option (\<lambda>v. h(a \<mapsto> v\<lparr>ver_refs := ver_refs v + 1\<rparr>)) (h a)"

definition version_un_ref :: "nat \<Rightarrow> version_heap \<Rightarrow> version_heap option" where
  "version_un_ref a h =
     Option.bind (h a) (\<lambda>v.
       if a = dummy_versions \<or> \<not> 1 \<le> ver_refs v then None
       else
         let h1 = h(a \<mapsto> v\<lparr>ver_refs := ver_refs v - 1\<rparr>)
         in if ver_refs v - 1 = 0 then version_dtor a h1 else Some h1)"

definition append_version :: "nat \<Rightarrow> 'w version_set \<Rightarrow> 'w version_set option" where
  "append_version a vs =
     Option.bind (vs_heap vs a) (\<lambda>v.
       if ver_refs v \<noteq> 0 \<or> vs_current vs = Some a then None
       else
         Option.bind (case vs_current vs of None \<Rightarrow> Some (vs_heap vs) | Some c \<Rightarrow> version_un_ref c (vs_heap vs)) (\<lambda>h1.
         Option.bind (version_ref a h1) (\<lambda>h2.
         Option.bind (map_option ver_prev (h2 dummy_versions)) (\<lambda>last.
         Option.bind (set_ver_prev (Some a) last h2) (\<lambda>h3.
         Option.bind (set_ver_next (Some a) (Some dummy_versions) h3) (\<lambda>h4.
         Option.bind (set_ver_next last (Some a) h4) (\<lambda>h5.
         map_option (\<lambda>h6. vs\<lparr>vs_heap := h6, vs_current := Some a\<rparr>)
           (set_ver_prev (Some dummy_versions) (Some a) h5))))))))"

definition new_version :: "nat \<Rightarrow> 'w version_set \<Rightarrow> 'w version_set" where
  "new_version a vs = vs\<lparr>vs_heap := (vs_heap vs)(a \<mapsto> version_ctor)\<rparr>"

definition version_set_ctor :: "bytes \<Rightarrow> 'w options \<Rightarrow> comparator \<Rightarrow> nat \<Rightarrow> 'w version_set option" where
  "version_set_ctor dbname opts cmp a =
     append_version a (new_version a
       \<lparr>vs_env = opt_env opts, vs_dbname = dbname, vs_options = opts, vs_comparator = cmp,
        vs_next_file_number = 2, vs_manifest_file_number = 0, vs_last_sequence = 0, vs_log_number = 0,
        vs_prev_log_number = 0, vs_descriptor_file = None, vs_descriptor_log = None,
        vs_heap = [dummy_versions \<mapsto> version_ctor], vs_current = None,
        vs_compact_pointer = replicate kNumLevels []\<rparr>)"

section \<open>Numbers and scores\<close>

definition new_file_number :: "'w version_set \<Rightarrow> u64 \<times> 'w version_set" where
  "new_file_number vs = (vs_next_file_number vs, vs\<lparr>vs_next_file_number := vs_next_file_number vs + 1\<rparr>)"

definition vs_set_last_sequence :: "u64 \<Rightarrow> 'w version_set \<Rightarrow> 'w version_set option" where
  "vs_set_last_sequence s vs = (if s \<ge> vs_last_sequence vs then Some (vs\<lparr>vs_last_sequence := s\<rparr>) else None)"

definition mark_file_number_used :: "u64 \<Rightarrow> 'w version_set \<Rightarrow> 'w version_set" where
  "mark_file_number_used number vs =
     (if vs_next_file_number vs \<le> number then vs\<lparr>vs_next_file_number := number + 1\<rparr> else vs)"

fun max_bytes_loop :: "rat \<Rightarrow> nat \<Rightarrow> rat" where
  "max_bytes_loop result level = (if 1 < level then max_bytes_loop (result * 10) (level - 1) else result)"

definition max_bytes_for_level :: "nat \<Rightarrow> rat" where
  "max_bytes_for_level level = max_bytes_loop (10 * 1048576) level"

definition total_file_size :: "file_meta_data list \<Rightarrow> u64" where
  "total_file_size files = foldl (\<lambda>sum f. sum + file_size f) 0 files"

text \<open>The test against the best score is inside the else branch.\<close>

definition finalize_step :: "file_meta_data list list \<Rightarrow> nat \<Rightarrow> int \<times> rat \<Rightarrow> int \<times> rat" where
  "finalize_step files level best =
     (if level = 0 then best
      else
        let level_bytes = total_file_size (files ! level);
            score = of_nat (unat level_bytes) / max_bytes_for_level level
        in if score > snd best then (int level, score) else best)"

definition finalize_version :: "version \<Rightarrow> version" where
  "finalize_version v =
     (let (best_level, best_score) = fold (finalize_step (ver_files v)) [0..<kNumLevels - 1] (-1, -1)
      in v\<lparr>compaction_level := best_level, compaction_score := best_score\<rparr>)"

definition finalize_at :: "nat \<Rightarrow> 'w version_set \<Rightarrow> 'w version_set option" where
  "finalize_at a vs = map_option (\<lambda>v. vs\<lparr>vs_heap := (vs_heap vs)(a \<mapsto> finalize_version v)\<rparr>) (vs_heap vs a)"

definition needs_compaction :: "'w version_set \<Rightarrow> bool option" where
  "needs_compaction vs =
     Option.bind (vs_current vs) (\<lambda>c. map_option (\<lambda>v. compaction_score v \<ge> 1 \<or> file_to_compact v \<noteq> None) (vs_heap vs c))"

partial_function (option) live_loop :: "version_heap \<Rightarrow> nat \<Rightarrow> u64 set \<Rightarrow> u64 set option" where
  "live_loop h a live =
     (if a = dummy_versions then Some live
      else Option.bind (h a) (\<lambda>v.
             Option.bind (ver_next v) (\<lambda>n. live_loop h n (live \<union> fnumber ` set (concat (ver_files v))))))"

definition add_live_files :: "'w version_set \<Rightarrow> u64 set \<Rightarrow> u64 set option" where
  "add_live_files vs live =
     Option.bind (vs_heap vs dummy_versions) (\<lambda>d. Option.bind (ver_next d) (\<lambda>n. live_loop (vs_heap vs) n live))"

section \<open>The builder\<close>

record level_state =
  b_deleted :: "u64 set"
  b_added :: "file_meta_data list"

record builder =
  b_base :: nat
  b_levels :: "level_state list"

definition by_smallest_key :: "comparator \<Rightarrow> file_meta_data \<Rightarrow> file_meta_data \<Rightarrow> bool option" where
  "by_smallest_key cmp f1 f2 =
     map_option (\<lambda>r. if r \<noteq> 0 then r < 0 else fnumber f1 < fnumber f2)
       (internal_compare_keys cmp (smallest f1) (smallest f2))"

text \<open>\<open>std::set::insert\<close>: in order, and not at all when an equivalent element is there.\<close>

fun file_set_insert :: "comparator \<Rightarrow> file_meta_data \<Rightarrow> file_meta_data list \<Rightarrow> file_meta_data list option" where
  "file_set_insert cmp f [] = Some [f]"
| "file_set_insert cmp f (g # gs) =
     Option.bind (by_smallest_key cmp f g) (\<lambda>fg.
       if fg then Some (f # g # gs)
       else
         Option.bind (by_smallest_key cmp g f) (\<lambda>gf.
           if gf then map_option ((#) g) (file_set_insert cmp f gs) else Some (g # gs)))"

definition builder_ctor :: "nat \<Rightarrow> version_heap \<Rightarrow> (builder \<times> version_heap) option" where
  "builder_ctor base h =
     map_option (Pair \<lparr>b_base = base, b_levels = replicate kNumLevels \<lparr>b_deleted = {}, b_added = []\<rparr>\<rparr>)
       (version_ref base h)"

definition builder_dtor :: "builder \<Rightarrow> version_heap \<Rightarrow> version_heap option" where
  "builder_dtor b h = version_un_ref (b_base b) h"

definition level_index :: "int \<Rightarrow> nat option" where
  "level_index level = (if 0 \<le> level \<and> level < int kNumLevels then Some (nat level) else None)"

fun apply_pointers :: "(int \<times> internal_key) list \<Rightarrow> bytes list \<Rightarrow> bytes list option" where
  "apply_pointers [] cps = Some cps"
| "apply_pointers ((level, key) # ps) cps =
     Option.bind (level_index level) (\<lambda>i.
     Option.bind (internal_key_encode key) (\<lambda>k. apply_pointers ps (cps[i := slice_to_string k])))"

definition apply_deletions :: "(int \<times> u64) set \<Rightarrow> level_state list \<Rightarrow> level_state list option" where
  "apply_deletions dels ls =
     (if \<forall>p \<in> dels. level_index (fst p) \<noteq> None
      then Some (map (\<lambda>(i, l). l\<lparr>b_deleted := b_deleted l \<union> snd ` {p \<in> dels. fst p = int i}\<rparr>) (zip [0..<length ls] ls))
      else None)"

definition initial_allowed_seeks :: "u64 \<Rightarrow> int" where
  "initial_allowed_seeks fsize =
     (let seeks = sint (ucast (fsize div 16384) :: 32 word) in if seeks < 100 then 100 else seeks)"

fun apply_new_files :: "comparator \<Rightarrow> (int \<times> file_meta_data) list \<Rightarrow> level_state list \<Rightarrow> level_state list option" where
  "apply_new_files cmp [] ls = Some ls"
| "apply_new_files cmp ((level, f) # fs) ls =
     Option.bind (level_index level) (\<lambda>i.
       let file = f\<lparr>refs := 1, allowed_seeks := initial_allowed_seeks (file_size f)\<rparr>; l = ls ! i
       in Option.bind (file_set_insert cmp file (b_added l)) (\<lambda>added.
            apply_new_files cmp fs (ls[i := \<lparr>b_deleted = b_deleted l - {fnumber file}, b_added = added\<rparr>])))"

definition builder_apply :: "version_edit \<Rightarrow> builder \<Rightarrow> 'w version_set \<Rightarrow> (builder \<times> 'w version_set) option" where
  "builder_apply e b vs =
     Option.bind (apply_pointers (compact_pointers e) (vs_compact_pointer vs)) (\<lambda>cps.
     Option.bind (apply_deletions (deleted_files e) (b_levels b)) (\<lambda>ls1.
     Option.bind (apply_new_files (vs_comparator vs) (new_files e) ls1) (\<lambda>ls2.
       Some (b\<lparr>b_levels := ls2\<rparr>, vs\<lparr>vs_compact_pointer := cps\<rparr>))))"

definition builder_save_to :: "builder \<Rightarrow> version \<Rightarrow> version" where
  "builder_save_to b v = v"

section \<open>The manifest\<close>

fun snapshot_pointers :: "nat \<Rightarrow> bytes list \<Rightarrow> version_edit \<Rightarrow> version_edit" where
  "snapshot_pointers level [] e = e"
| "snapshot_pointers level (cp # cps) e =
     snapshot_pointers (level + 1) cps
       (if cp \<noteq> [] then set_compact_pointer (int level) (snd (internal_key_decode_from cp)) e else e)"

fun snapshot_files :: "nat \<Rightarrow> file_meta_data list list \<Rightarrow> version_edit \<Rightarrow> version_edit" where
  "snapshot_files level [] e = e"
| "snapshot_files level (files # fss) e =
     snapshot_files (level + 1) fss
       (foldl (\<lambda>e f. add_file (int level) (fnumber f) (file_size f) (smallest f) (largest f) e) e files)"

definition snapshot_edit :: "'w version_set \<Rightarrow> version \<Rightarrow> version_edit" where
  "snapshot_edit vs v =
     snapshot_files 0 (ver_files v)
       (snapshot_pointers 0 (vs_compact_pointer vs)
         (set_comparator_name (comparator_name (vs_comparator vs)) version_edit_ctor))"

definition write_snap_shot ::
  "'w writable_file \<Rightarrow> log_writer \<Rightarrow> 'w version_set \<Rightarrow> 'w \<Rightarrow> (status \<times> log_writer \<times> 'w) option" where
  "write_snap_shot dest lg vs w =
     Option.bind (vs_current vs) (\<lambda>c. Option.bind (vs_heap vs c) (\<lambda>v.
     Option.bind (ve_encode_to (snapshot_edit vs v) []) (\<lambda>record. add_record dest record lg w)))"

text \<open>Opening a new manifest when there is none; the result names the new file.\<close>

definition open_manifest :: "'w version_set \<Rightarrow> 'w \<Rightarrow> (status \<times> bytes \<times> 'w version_set \<times> 'w) option" where
  "open_manifest vs w =
     (if vs_descriptor_log vs \<noteq> None then Some (Status_Ok, [], vs, w)
      else if vs_descriptor_file vs \<noteq> None then None
      else
        Option.bind (descriptor_file_name (vs_dbname vs) (vs_manifest_file_number vs)) (\<lambda>name.
        Option.bind (env_new_writable_file (vs_env vs) name w) (\<lambda>(s, h, w1).
          if \<not> is_ok s then Some (s, name, vs, w1)
          else
            map_option (\<lambda>(s2, lg, w2).
                (s2, name, vs\<lparr>vs_descriptor_file := Some h, vs_descriptor_log := Some lg\<rparr>, w2))
              (write_snap_shot (env_writable (vs_env vs) h) writer_ctor vs w1))))"

text \<open>Writing the edit and installing the manifest, which the code does without the mutex.\<close>

definition write_edit :: "version_edit \<Rightarrow> 'w version_set \<Rightarrow> 'w \<Rightarrow> (status \<times> 'w version_set \<times> 'w) option" where
  "write_edit e vs w =
     Option.bind (ve_encode_to e []) (\<lambda>record.
     Option.bind (vs_descriptor_file vs) (\<lambda>h.
     Option.bind (vs_descriptor_log vs) (\<lambda>lg.
     Option.bind (add_record (env_writable (vs_env vs) h) record lg w) (\<lambda>(s, lg1, w1).
     Option.bind (if is_ok s then wf_sync (env_writable (vs_env vs) h) w1 else Some (s, w1)) (\<lambda>(s2, w2).
       Some (s2, vs\<lparr>vs_descriptor_log := Some lg1\<rparr>, w2))))))"

definition complete_edit :: "version_edit \<Rightarrow> 'w version_set \<Rightarrow> version_edit option" where
  "complete_edit e vs =
     Option.bind
       (if has_log_number e
        then (if log_number e > vs_log_number vs \<and> log_number e < vs_next_file_number vs then Some e else None)
        else Some (set_log_number (vs_log_number vs) e)) (\<lambda>e1.
     let e2 = (if \<not> has_prev_log_number e1 then set_prev_log_number (vs_prev_log_number vs) e1 else e1)
     in Some (set_last_sequence (vs_last_sequence vs) (set_next_file (vs_next_file_number vs) e2)))"

text \<open>The version that an edit leads to: a builder based on the current version, destroyed at once.\<close>

definition build_version :: "nat \<Rightarrow> version_edit \<Rightarrow> 'w version_set \<Rightarrow> 'w version_set option" where
  "build_version a e vs =
     (let vs1 = new_version a vs
      in Option.bind (vs_current vs1) (\<lambda>c.
         Option.bind (builder_ctor c (vs_heap vs1)) (\<lambda>(b, h1).
         Option.bind (builder_apply e b (vs1\<lparr>vs_heap := h1\<rparr>)) (\<lambda>(b1, vs2).
         Option.bind (map_option (\<lambda>v. (vs_heap vs2)(a \<mapsto> builder_save_to b1 v)) (vs_heap vs2 a)) (\<lambda>h2.
         Option.bind (builder_dtor b1 h2) (\<lambda>h3. finalize_at a (vs2\<lparr>vs_heap := h3\<rparr>)))))))"

definition log_any_apply ::
  "nat \<Rightarrow> version_edit \<Rightarrow> 'w version_set \<Rightarrow> 'w \<Rightarrow> (status \<times> version_edit \<times> 'w version_set \<times> 'w) option" where
  "log_any_apply a e vs w =
     Option.bind (complete_edit e vs) (\<lambda>e1.
     Option.bind (build_version a e1 vs) (\<lambda>vs1.
     Option.bind (open_manifest vs1 w) (\<lambda>(s1, name, vs2, w1).
     Option.bind (if is_ok s1 then write_edit e1 vs2 w1 else Some (s1, vs2, w1)) (\<lambda>(s2, vs3, w2).
     Option.bind (if is_ok s2 \<and> name \<noteq> []
                  then set_current_file (vs_env vs3) (vs_dbname vs3) (vs_manifest_file_number vs3) w2
                  else Some (s2, w2)) (\<lambda>(s3, w3).
       if is_ok s3 then
         map_option (\<lambda>vs4. (s3, e1, vs4\<lparr>vs_log_number := log_number e1, vs_prev_log_number := prev_log_number e1\<rparr>, w3))
           (append_version a vs3)
       else
         Option.bind (version_dtor a (vs_heap vs3)) (\<lambda>h.
           let vs4 = vs3\<lparr>vs_heap := h\<rparr>
           in if name \<noteq> [] then
                let w4 = (case vs_descriptor_file vs4 of None \<Rightarrow> w3 | Some f \<Rightarrow> env_delete_writable (vs_env vs4) f w3)
                in map_option (\<lambda>(_, w5). (s3, e1, vs4\<lparr>vs_descriptor_file := None, vs_descriptor_log := None\<rparr>, w5))
                     (env_remove_file (vs_env vs4) name w4)
              else Some (s3, e1, vs4, w3)))))))"

section \<open>Recovery\<close>

text \<open>What the loop over the records of the manifest has collected.\<close>

record recovered =
  r_next_file :: "u64 option"
  r_last_sequence :: "u64 option"
  r_log_number :: "u64 option"
  r_prev_log_number :: "u64 option"

definition note_numbers :: "version_edit \<Rightarrow> recovered \<Rightarrow> recovered" where
  "note_numbers e r =
     \<lparr>r_next_file = (if has_next_file_number e then Some (next_file_number e) else r_next_file r),
      r_last_sequence = (if has_last_sequence e then Some (last_sequence e) else r_last_sequence r),
      r_log_number = (if has_log_number e then Some (log_number e) else r_log_number r),
      r_prev_log_number = (if has_prev_log_number e then Some (prev_log_number e) else r_prev_log_number r)\<rparr>"

text \<open>The reporter stores the first corruption it is told of in the status, when that is still OK.\<close>

definition reported :: "(nat \<times> status) list \<Rightarrow> status \<Rightarrow> status" where
  "reported rs s = foldl (\<lambda>s r. if is_ok s then snd r else s) s rs"

definition check_comparator :: "version_edit \<Rightarrow> 'w version_set \<Rightarrow> status \<Rightarrow> status" where
  "check_comparator e vs s =
     (if is_ok s \<and> has_comparator e \<and> comparator_str e \<noteq> comparator_name (vs_comparator vs)
      then invalid_argument (comparator_str e @ cstr '' dose not match exsisting comparator '') (comparator_name (vs_comparator vs))
      else s)"

partial_function (option) recover_loop ::
  "'w sequential_file \<Rightarrow> status \<Rightarrow> slice \<Rightarrow> bytes \<Rightarrow> 'w log_reader \<Rightarrow> recovered \<Rightarrow> builder \<Rightarrow> 'w version_set \<Rightarrow>
   (status \<times> recovered \<times> builder \<times> 'w version_set \<times> 'w) option" where
  "recover_loop sf s record scratch rd r b vs =
     Option.bind (read_record sf record scratch rd) (\<lambda>(more, record', scratch', rd').
       let s1 = reported (drop (length (reports rd)) (reports rd')) s
       in if \<not> (more \<and> is_ok s1) then Some (s1, r, b, vs, rd_file rd')
          else
            case ve_decode_from record' version_edit_ctor of
              (s2, e) \<Rightarrow>
                let s3 = check_comparator e vs s2
                in Option.bind (if is_ok s3 then builder_apply e b vs else Some (b, vs)) (\<lambda>(b', vs').
                     recover_loop sf s3 record' scratch' rd' (note_numbers e r) b' vs'))"

definition reuse_manifest :: "bytes \<Rightarrow> bytes \<Rightarrow> 'w version_set \<Rightarrow> 'w \<Rightarrow> (bool \<times> 'w version_set \<times> 'w) option" where
  "reuse_manifest dscname dscbase vs w =
     (if \<not> opt_reuse_logs (vs_options vs) then Some (False, vs, w)
      else
        case parse_file_name dscbase of
          None \<Rightarrow> Some (False, vs, w)
        | Some (number, kind) \<Rightarrow>
            if kind \<noteq> kDescriptorFile then Some (False, vs, w)
            else
              Option.bind (env_get_file_size (vs_env vs) dscname w) (\<lambda>(s, fsize, w1).
                if \<not> is_ok s \<or> target_file_size (vs_options vs) \<le> unat fsize then Some (False, vs, w1)
                else if vs_descriptor_file vs \<noteq> None \<or> vs_descriptor_log vs \<noteq> None then None
                else
                  Option.bind (env_new_appendable_file (vs_env vs) dscname w1) (\<lambda>(s2, h, w2).
                    if \<not> is_ok s2 then None
                    else Some (True, vs\<lparr>vs_descriptor_file := Some h, vs_descriptor_log := Some (writer_ctor_at fsize),
                                        vs_manifest_file_number := number\<rparr>, w2))))"

definition missing_entry :: "recovered \<Rightarrow> status \<Rightarrow> status" where
  "missing_entry r s =
     (if \<not> is_ok s then s
      else if r_next_file r = None then corruption (cstr ''no meta-nextfile entry in descriptor'') []
      else if r_log_number r = None then corruption (cstr ''no meta-lognumber entry in descriptor'') []
      else if r_last_sequence r = None then corruption (cstr ''no last-sequence-number entry in descriptor'') []
      else s)"

definition number_of :: "u64 option \<Rightarrow> u64" where
  "number_of n = (case n of None \<Rightarrow> 0 | Some v \<Rightarrow> v)"

text \<open>The end of recovery: the recovered version becomes the current one.\<close>

definition install_recovered ::
  "nat \<Rightarrow> bytes \<Rightarrow> bytes \<Rightarrow> recovered \<Rightarrow> builder \<Rightarrow> bool \<Rightarrow> 'w version_set \<Rightarrow> 'w \<Rightarrow> (bool \<times> 'w version_set \<times> 'w) option" where
  "install_recovered a dscname current r b save vs w =
     (let vs1 = new_version a vs
      in Option.bind (map_option (\<lambda>v. vs1\<lparr>vs_heap := (vs_heap vs1)(a \<mapsto> builder_save_to b v)\<rparr>) (vs_heap vs1 a)) (\<lambda>vs2.
         Option.bind (finalize_at a vs2) (\<lambda>vs3.
         Option.bind (append_version a vs3) (\<lambda>vs4.
         let vs5 = vs4\<lparr>vs_manifest_file_number := number_of (r_next_file r),
               vs_next_file_number := number_of (r_next_file r) + 1,
               vs_last_sequence := number_of (r_last_sequence r),
               vs_log_number := number_of (r_log_number r),
               vs_prev_log_number := number_of (r_prev_log_number r)\<rparr>
         in map_option (\<lambda>(reused, vs6, w1). (if reused then save else True, vs6, w1))
              (reuse_manifest dscname current vs5 w)))))"

definition recover_manifest ::
  "nat \<Rightarrow> bytes \<Rightarrow> bytes \<Rightarrow> nat \<Rightarrow> bool \<Rightarrow> 'w version_set \<Rightarrow> 'w \<Rightarrow> (status \<times> bool \<times> 'w version_set \<times> 'w) option" where
  "recover_manifest a dscname current h save vs w =
     Option.bind (vs_current vs) (\<lambda>c.
     Option.bind (builder_ctor c (vs_heap vs)) (\<lambda>(b, h1).
     Option.bind (recover_loop (env_sequential (vs_env vs) h) Status_Ok [] [] (reader_ctor w True True 0)
         \<lparr>r_next_file = None, r_last_sequence = None, r_log_number = None, r_prev_log_number = None\<rparr> b (vs\<lparr>vs_heap := h1\<rparr>))
       (\<lambda>(s, r, b1, vs1, w1).
     let w2 = env_delete_sequential (vs_env vs1) h w1;
         s2 = missing_entry r s;
         vs2 = mark_file_number_used (number_of (r_log_number r)) (mark_file_number_used (number_of (r_prev_log_number r)) vs1)
     in Option.bind (if is_ok s2 then install_recovered a dscname current r b1 save vs2 w2 else Some (save, vs2, w2))
          (\<lambda>(save', vs3, w3).
            map_option (\<lambda>h4. (s2, save', vs3\<lparr>vs_heap := h4\<rparr>, w3)) (builder_dtor b1 (vs_heap vs3))))))"

definition vs_recover :: "nat \<Rightarrow> bool \<Rightarrow> 'w version_set \<Rightarrow> 'w \<Rightarrow> (status \<times> bool \<times> 'w version_set \<times> 'w) option" where
  "vs_recover a save vs w =
     Option.bind (read_file_to_string (vs_env vs) (current_file_name (vs_dbname vs)) w) (\<lambda>(s, current, w1).
       if \<not> is_ok s then Some (s, save, vs, w1)
       else if current = [] \<or> last current \<noteq> 10
       then Some (corruption (cstr ''CURRENT file does not end with newline'') [], save, vs, w1)
       else
         let base = butlast current; dscname = vs_dbname vs @ cstr ''/'' @ base
         in Option.bind (env_new_sequential_file (vs_env vs) dscname w1) (\<lambda>(s2, h, w2).
              if \<not> is_ok s2 then
                (if is_not_found s2
                 then Some (corruption (cstr ''CURRENT points to a non-existent file'') (status_to_string s2), save, vs, w2)
                 else Some (s2, save, vs, w2))
              else recover_manifest a dscname base h save vs w2))"

end
