(* ===== verification/Version_Ring.thy ===== *)
theory Version_Ring
  imports Version_Set Linked_Ring
begin

text \<open>
  The circular list of versions: every version of a well-formed version set is reached from the
  dummy by \<open>next_\<close> and back by \<open>prev_\<close>, and is referenced.  Referencing, releasing and appending
  a version keep the list well formed, and \<open>add_live_files\<close> goes round it once.
\<close>

section \<open>The heap of versions\<close>

definition next_of :: "version_heap \<Rightarrow> nat \<Rightarrow> nat option" where
  "next_of h a = Option.bind (h a) ver_next"

definition prev_of :: "version_heap \<Rightarrow> nat \<Rightarrow> nat option" where
  "prev_of h a = Option.bind (h a) ver_prev"

text \<open>What a version is apart from its links.\<close>

definition body :: "version_heap \<Rightarrow> nat \<Rightarrow> version option" where
  "body h a = map_option (\<lambda>v. v\<lparr>ver_next := None, ver_prev := None\<rparr>) (h a)"

lemma same_body:
  assumes "(v' :: version)\<lparr>ver_next := None, ver_prev := None\<rparr> = v\<lparr>ver_next := None, ver_prev := None\<rparr>"
  shows "ver_refs v' = ver_refs v \<and> ver_files v' = ver_files v \<and> compaction_score v' = compaction_score v
    \<and> compaction_level v' = compaction_level v \<and> file_to_compact v' = file_to_compact v"
  using arg_cong[OF assms, of ver_refs] arg_cong[OF assms, of ver_files] arg_cong[OF assms, of compaction_score]
    arg_cong[OF assms, of compaction_level] arg_cong[OF assms, of file_to_compact] by simp

lemma body_Some: "body h' a = body h a \<Longrightarrow> h a = Some v \<Longrightarrow>
    \<exists>v'. h' a = Some v' \<and> ver_refs v' = ver_refs v \<and> ver_files v' = ver_files v
      \<and> compaction_score v' = compaction_score v \<and> compaction_level v' = compaction_level v \<and> file_to_compact v' = file_to_compact v"
  by (cases "h' a") (auto simp: body_def dest!: same_body)

lemma dom_body: "dom h = dom (body h)"
  by (auto simp: body_def)

lemma upd_links:
  assumes "h a = Some v"
  shows "next_of (h(a \<mapsto> v\<lparr>ver_next := n\<rparr>)) = (next_of h)(a := n)" "prev_of (h(a \<mapsto> v\<lparr>ver_next := n\<rparr>)) = prev_of h"
    "body (h(a \<mapsto> v\<lparr>ver_next := n\<rparr>)) = body h"
    "prev_of (h(a \<mapsto> v\<lparr>ver_prev := n\<rparr>)) = (prev_of h)(a := n)" "next_of (h(a \<mapsto> v\<lparr>ver_prev := n\<rparr>)) = next_of h"
    "body (h(a \<mapsto> v\<lparr>ver_prev := n\<rparr>)) = body h"
  using assms by (simp_all add: next_of_def prev_of_def body_def fun_eq_iff)

lemma set_links:
  assumes "h a = Some v"
  shows "\<exists>h'. set_ver_next (Some a) n h = Some h' \<and> next_of h' = (next_of h)(a := n) \<and> prev_of h' = prev_of h \<and> body h' = body h"
    and "\<exists>h'. set_ver_prev (Some a) n h = Some h' \<and> prev_of h' = (prev_of h)(a := n) \<and> next_of h' = next_of h \<and> body h' = body h"
  using assms upd_links[of h a v n, OF assms] by (auto simp: set_ver_next_def set_ver_prev_def)

definition held :: "version \<Rightarrow> bool" where
  "held v \<longleftrightarrow> 1 \<le> ver_refs v \<and> list_all (list_all (\<lambda>f. 0 < refs f)) (ver_files v)"

definition version_ring :: "version_heap \<Rightarrow> nat list \<Rightarrow> bool" where
  "version_ring h xs \<longleftrightarrow> ring 0 (next_of h) (prev_of h) xs \<and> h 0 \<noteq> None
     \<and> (\<forall>a\<in>set xs. \<exists>v. h a = Some v \<and> held v)"

text \<open>Links that form the ring and bodies that are kept make a ring of versions again.\<close>

lemma version_ring_body:
  assumes "ring 0 (next_of h') (prev_of h') ys" and "version_ring h xs" and "body h' 0 = body h 0"
    and "\<And>a. a \<in> set ys \<Longrightarrow> (a \<in> set xs \<and> body h' a = body h a) \<or> (\<exists>v. h' a = Some v \<and> held v)"
  shows "version_ring h' ys"
  unfolding version_ring_def
proof (intro conjI ballI)
  obtain v where "h 0 = Some v" using assms(2) by (auto simp: version_ring_def)
  then show "h' 0 \<noteq> None" using body_Some[OF assms(3)] by auto
next
  fix a assume "a \<in> set ys"
  from assms(4)[OF this] show "\<exists>v. h' a = Some v \<and> held v"
    using assms(2) body_Some[of h' a h] by (fastforce simp: version_ring_def held_def)
qed (rule assms(1))

lemma version_ring_in: "version_ring h xs \<Longrightarrow> a \<in> set xs \<Longrightarrow> \<exists>v. h a = Some v \<and> held v"
  by (simp add: version_ring_def)

lemma version_ring_0: "version_ring h xs \<Longrightarrow> 0 \<notin> set xs \<and> distinct xs"
  by (simp add: version_ring_def ring_def)

text \<open>Deleting an unreferenced version takes it out of the ring.\<close>

lemma dtor_ring:
  assumes ring: "ring 0 (next_of h) (prev_of h) (ys @ c # zs)" and v: "h c = Some v" "ver_refs v = 0"
    "list_all (list_all (\<lambda>f. 0 < refs f)) (ver_files v)"
    and mem: "\<And>a. a \<in> set (0 # ys @ zs) \<Longrightarrow> h a \<noteq> None"
  shows "\<exists>h'. version_dtor c h = Some h' \<and> ring 0 (next_of h') (prev_of h') (ys @ zs) \<and> body h' = (body h)(c := None)"
proof -
  define p n where "p = last (0 # ys)" and "n = hd (zs @ [0])"
  have at: "next_of h c = Some n" "prev_of h c = Some p" "p \<noteq> c" "n \<noteq> c"
    and new: "ring 0 ((next_of h)(p := Some n, c := None)) ((prev_of h)(n := Some p, c := None)) (ys @ zs)"
    using ring_remove[OF ring p_def n_def] by auto
  have "p \<in> set (0 # ys)" "n \<in> set (zs @ [0])" by (auto simp: p_def n_def hd_append)
  then obtain pv nv where "h p = Some pv" "h n = Some nv" using mem[of p] mem[of n] by auto
  obtain h1 where h1: "set_ver_next (Some p) (Some n) h = Some h1" "next_of h1 = (next_of h)(p := Some n)"
    "prev_of h1 = prev_of h" "body h1 = body h"
    using set_links(1)[of h p _ "Some n", OF \<open>h p = Some pv\<close>] by auto
  obtain nv1 where "h1 n = Some nv1" using h1(4) \<open>h n = Some nv\<close> body_Some[of h1 n h] by auto
  obtain h2 where h2: "set_ver_prev (Some n) (Some p) h1 = Some h2" "prev_of h2 = (prev_of h1)(n := Some p)"
    "next_of h2 = next_of h1" "body h2 = body h1"
    using set_links(2)[of h1 n _ "Some p", OF \<open>h1 n = Some nv1\<close>] by auto
  have "version_dtor c h = Some (h2(c := None))"
    using v at h1(1) h2(1) by (simp add: version_dtor_def next_of_def prev_of_def)
  moreover have "next_of (h2(c := None)) = (next_of h)(p := Some n, c := None)"
    "prev_of (h2(c := None)) = (prev_of h)(n := Some p, c := None)"
    "body (h2(c := None)) = (body h)(c := None)"
    using h1 h2 at by (auto simp: next_of_def[of "_(_ := _)"] prev_of_def[of "_(_ := _)"] body_def[of "_(_ := _)"] fun_eq_iff
        dest: fun_cong simp flip: next_of_def prev_of_def body_def)
  ultimately show ?thesis using new by auto
qed

lemma body_upd: "body (h(a \<mapsto> v)) = (body h)(a \<mapsto> v\<lparr>ver_next := None, ver_prev := None\<rparr>)"
  by (simp add: body_def fun_eq_iff)

lemma refs_links:
  assumes "h a = Some v"
  shows "next_of (h(a \<mapsto> v\<lparr>ver_refs := k\<rparr>)) = next_of h" "prev_of (h(a \<mapsto> v\<lparr>ver_refs := k\<rparr>)) = prev_of h"
  using assms by (simp_all add: next_of_def prev_of_def fun_eq_iff)

lemma ref_ring:
  assumes "version_ring h xs" and "c \<in> set xs"
  shows "\<exists>h' v. h c = Some v \<and> version_ref c h = Some h' \<and> version_ring h' xs
    \<and> h' = h(c \<mapsto> v\<lparr>ver_refs := ver_refs v + 1\<rparr>)"
proof -
  obtain v where v: "h c = Some v" "held v" using assms by (auto simp: version_ring_def)
  let ?h = "h(c \<mapsto> v\<lparr>ver_refs := ver_refs v + 1\<rparr>)"
  have "version_ring ?h xs"
    using assms v refs_links[of h c v "ver_refs v + 1", OF v(1)] by (simp add: version_ring_def held_def)
  then show ?thesis using v by (auto simp: version_ref_def)
qed

text \<open>Releasing a version: the last reference deletes it.\<close>

lemma un_ref_ring:
  assumes ring: "version_ring h (ys @ c # zs)" and v: "h c = Some v"
  shows "\<exists>h'. version_un_ref c h = Some h' \<and> (\<forall>x. x \<noteq> c \<longrightarrow> body h' x = body h x) \<and>
    (if ver_refs v = 1 then version_ring h' (ys @ zs) \<and> dom h' = dom h - {c}
     else version_ring h' (ys @ c # zs) \<and> h' = h(c \<mapsto> v\<lparr>ver_refs := ver_refs v - 1\<rparr>))"
proof -
  let ?h1 = "h(c \<mapsto> v\<lparr>ver_refs := ver_refs v - 1\<rparr>)"
  have held: "held v" and links: "ring 0 (next_of ?h1) (prev_of ?h1) (ys @ c # zs)"
    and c: "c \<notin> set (0 # ys @ zs)" and dist: "distinct (ys @ c # zs)"
    using ring v refs_links[of h c v "ver_refs v - 1", OF v] version_ring_0[OF ring] by (auto simp: version_ring_def)
  have in_h: "h a \<noteq> None" if "a \<in> set (0 # ys @ zs)" for a
    using ring that by (fastforce simp: version_ring_def)
  show ?thesis
  proof (cases "ver_refs v = 1")
    case True
    have "\<exists>h'. version_dtor c ?h1 = Some h' \<and> ring 0 (next_of h') (prev_of h') (ys @ zs) \<and> body h' = (body ?h1)(c := None)"
      by (rule dtor_ring[where v = "v\<lparr>ver_refs := ver_refs v - 1\<rparr>", OF links]) (use True held in_h c in \<open>auto simp: held_def\<close>)
    then obtain h' where h': "version_dtor c ?h1 = Some h'" "ring 0 (next_of h') (prev_of h') (ys @ zs)"
      "body h' = (body ?h1)(c := None)" by blast
    have b: "body h' x = (if x = c then None else body h x)" for x using h'(3) by (simp add: body_upd)
    have "version_ring h' (ys @ zs)"
      by (rule version_ring_body[OF h'(2) ring]) (use c b in auto)
    moreover have "dom h' = dom h - {c}" using dom_body[of h'] dom_body[of ?h1] h'(3) v by auto
    moreover have "version_un_ref c h = Some h'"
      using h'(1) v True c by (simp add: version_un_ref_def dummy_versions_def)
    ultimately show ?thesis using True b by auto
  next
    case False
    have "version_ring ?h1 (ys @ c # zs)"
      using ring links v held False dist c by (auto simp: version_ring_def held_def)
    moreover have "version_un_ref c h = Some ?h1"
      using v False held c by (auto simp: version_un_ref_def held_def dummy_versions_def)
    ultimately show ?thesis using False by (auto simp: body_upd)
  qed
qed

section \<open>Appending\<close>

text \<open>The invariant of a version set: the current version is the last of the ring, and nothing leaks.\<close>

definition versions_ok :: "'w version_set \<Rightarrow> nat list \<Rightarrow> bool" where
  "versions_ok vs xs \<longleftrightarrow> version_ring (vs_heap vs) xs \<and> xs \<noteq> [] \<and> vs_current vs = Some (last xs)
     \<and> dom (vs_heap vs) = insert 0 (set xs)"

lemma links_in_ring:
  assumes "version_ring h xs" and h: "h a = Some v" "held v" and a: "a \<notin> set (0 # xs)"
  shows "\<exists>h3 h4 h5 h6. set_ver_prev (Some a) (prev_of h 0) h = Some h3 \<and> set_ver_next (Some a) (Some 0) h3 = Some h4
    \<and> set_ver_next (prev_of h 0) (Some a) h4 = Some h5 \<and> set_ver_prev (Some 0) (Some a) h5 = Some h6
    \<and> version_ring h6 (xs @ [a]) \<and> body h6 = body h"
proof -
  define l where "l = last (0 # xs)"
  have r: "ring 0 (next_of h) (prev_of h) xs" using assms(1) by (simp add: version_ring_def)
  have l: "prev_of h 0 = Some l" using ring_ends[OF r] by (simp add: l_def)
  have "l \<in> set (0 # xs)" by (simp add: l_def)
  then obtain lv where lv: "h l = Some lv" using assms(1) by (auto simp: version_ring_def)
  obtain h3 where h3: "set_ver_prev (Some a) (Some l) h = Some h3" "prev_of h3 = (prev_of h)(a := Some l)"
    "next_of h3 = next_of h" "body h3 = body h" using set_links(2)[of h a v "Some l", OF h(1)] by auto
  obtain v3 where "h3 a = Some v3" using body_Some[of h3 a h] h3(4) h(1) by auto
  then obtain h4 where h4: "set_ver_next (Some a) (Some 0) h3 = Some h4" "next_of h4 = (next_of h3)(a := Some 0)"
    "prev_of h4 = prev_of h3" "body h4 = body h3" using set_links(1)[of h3 a v3 "Some 0"] by auto
  obtain v4 where "h4 l = Some v4" using body_Some[of h4 l h] h3(4) h4(4) lv by auto
  then obtain h5 where h5: "set_ver_next (Some l) (Some a) h4 = Some h5" "next_of h5 = (next_of h4)(l := Some a)"
    "prev_of h5 = prev_of h4" "body h5 = body h4" using set_links(1)[of h4 l v4 "Some a"] by auto
  obtain v0 where "h 0 = Some v0" using assms(1) by (auto simp: version_ring_def)
  then obtain v5 where "h5 0 = Some v5" using body_Some[of h5 0 h] h3(4) h4(4) h5(4) by auto
  then obtain h6 where h6: "set_ver_prev (Some 0) (Some a) h5 = Some h6" "prev_of h6 = (prev_of h5)(0 := Some a)"
    "next_of h6 = next_of h5" "body h6 = body h5" using set_links(2)[of h5 0 v5 "Some a"] by auto
  have b: "body h6 = body h" using h3 h4 h5 h6 by simp
  have "ring 0 (next_of h6) (prev_of h6) (xs @ [a])"
    using ring_append[OF r a l_def] h3 h4 h5 h6 by simp
  moreover have "\<exists>v. h6 a = Some v \<and> held v"
    using body_Some[of h6 a h] b h by (fastforce simp: held_def)
  ultimately have "version_ring h6 (xs @ [a])"
    using b by (intro version_ring_body[OF _ assms(1)]) auto
  then show ?thesis using l h3(1) h4(1) h5(1) h6(1) b by auto
qed

lemma set_butlast_distinct: "distinct xs \<Longrightarrow> xs \<noteq> [] \<Longrightarrow> set (butlast xs) = set xs - {last xs}"
  by (cases xs rule: rev_cases) auto

lemma append_ring:
  assumes "version_ring (vs_heap vs) xs" "xs \<noteq> []" "vs_current vs = Some (last xs)"
    and dom: "dom (vs_heap vs) = insert a (insert 0 (set xs))" and a: "a \<notin> set (0 # xs)"
    and v: "vs_heap vs a = Some v" "ver_refs v = 0" "list_all (list_all (\<lambda>f. 0 < refs f)) (ver_files v)"
    and c: "vs_heap vs (last xs) = Some c"
  shows "\<exists>h. append_version a vs = Some (vs\<lparr>vs_heap := h, vs_current := Some a\<rparr>)
    \<and> versions_ok (vs\<lparr>vs_heap := h, vs_current := Some a\<rparr>) ((if ver_refs c = 1 then butlast xs else xs) @ [a])
    \<and> (\<exists>v'. h a = Some v' \<and> v'\<lparr>ver_next := None, ver_prev := None\<rparr> = v\<lparr>ver_next := None, ver_prev := None, ver_refs := 1\<rparr>)
    \<and> (\<forall>x. x \<noteq> a \<longrightarrow> x \<noteq> last xs \<longrightarrow> body h x = body (vs_heap vs) x)
    \<and> (ver_refs c \<noteq> 1 \<longrightarrow> (\<exists>c'. h (last xs) = Some c' \<and> ver_refs c' = ver_refs c - 1 \<and> ver_files c' = ver_files c))"
proof -
  let ?h = "vs_heap vs" and ?xs = "if ver_refs c = 1 then butlast xs else xs"
  have xs: "xs = butlast xs @ last xs # []" using assms(2) by simp
  obtain h1 where un: "version_un_ref (last xs) ?h = Some h1" "\<forall>x. x \<noteq> last xs \<longrightarrow> body h1 x = body ?h x"
    and h1: "version_ring h1 ?xs" "dom h1 = insert a (insert 0 (set ?xs))"
    and kept: "ver_refs c \<noteq> 1 \<longrightarrow> h1 = ?h(last xs \<mapsto> c\<lparr>ver_refs := ver_refs c - 1\<rparr>)"
  proof -
    obtain h' where h': "version_un_ref (last xs) ?h = Some h'" "\<forall>x. x \<noteq> last xs \<longrightarrow> body h' x = body ?h x"
      "if ver_refs c = 1 then version_ring h' (butlast xs @ []) \<and> dom h' = dom ?h - {last xs}
       else version_ring h' xs \<and> h' = ?h(last xs \<mapsto> c\<lparr>ver_refs := ver_refs c - 1\<rparr>)"
      using un_ref_ring[of ?h "butlast xs" "last xs" "[]" c, folded xs, OF assms(1) c] by auto
    have "dom h' = insert a (insert 0 (set ?xs))"
    proof (cases "ver_refs c = 1")
      case True
      have "set (butlast xs) = set xs - {last xs}" "last xs \<in> set xs"
        using set_butlast_distinct version_ring_0[OF assms(1)] assms(2) by auto
      moreover have "last xs \<noteq> 0" "last xs \<noteq> a"
        using last_in_set[OF assms(2)] version_ring_0[OF assms(1)] a by (metis, metis list.set_intros(2))
      ultimately show ?thesis using h'(3) dom True by auto
    next
      case False
      with h'(3) dom c show ?thesis by auto
    qed
    with h' show thesis by (intro that[of h']) (auto split: if_splits)
  qed
  have ne: "a \<noteq> last xs" "a \<notin> set (0 # ?xs)" using a assms(2) by (auto dest: in_set_butlastD)
  have "body h1 a = body ?h a" using un(2) ne by simp
  then obtain v1 where v1: "h1 a = Some v1" "ver_refs v1 = 0" "ver_files v1 = ver_files v"
    and b1: "v1\<lparr>ver_next := None, ver_prev := None\<rparr> = v\<lparr>ver_next := None, ver_prev := None\<rparr>"
    using body_Some[of h1 a ?h v] v by (auto simp: body_def)
  let ?v2 = "v1\<lparr>ver_refs := ver_refs v1 + 1\<rparr>" and ?h2 = "h1(a \<mapsto> v1\<lparr>ver_refs := ver_refs v1 + 1\<rparr>)"
  have "version_ring ?h2 ?xs"
    using h1(1) ne(2) refs_links[of h1 a v1 "ver_refs v1 + 1", OF v1(1)] by (auto simp: version_ring_def)
  moreover have "held ?v2" using v1 v by (simp add: held_def)
  ultimately obtain h3 h4 h5 h6 where l: "set_ver_prev (Some a) (prev_of ?h2 0) ?h2 = Some h3"
    "set_ver_next (Some a) (Some 0) h3 = Some h4" "set_ver_next (prev_of ?h2 0) (Some a) h4 = Some h5"
    "set_ver_prev (Some 0) (Some a) h5 = Some h6" and r6: "version_ring h6 (?xs @ [a])" and b6: "body h6 = body ?h2"
    using links_in_ring[of ?h2 ?xs a ?v2] ne by auto
  obtain d where d: "?h2 0 = Some d" using h1(1) a by (auto simp: version_ring_def)
  then have "prev_of ?h2 0 = ver_prev d" by (simp add: prev_of_def)
  note l = l[unfolded this]
  have "append_version a vs = Some (vs\<lparr>vs_heap := h6, vs_current := Some a\<rparr>)"
    using v assms(3) ne un(1) v1(1) d l
    by (simp add: append_version_def version_ref_def dummy_versions_def del: fun_upd_apply)
  moreover have "dom h6 = insert 0 (set (?xs @ [a]))"
    using dom_body[of h6] dom_body[of ?h2] b6 h1(2) by auto
  moreover have "\<exists>v'. h6 a = Some v' \<and> v'\<lparr>ver_next := None, ver_prev := None\<rparr> = v\<lparr>ver_next := None, ver_prev := None, ver_refs := 1\<rparr>"
  proof -
    have "?v2\<lparr>ver_next := None, ver_prev := None\<rparr> = v\<lparr>ver_next := None, ver_prev := None, ver_refs := 1\<rparr>"
      using arg_cong[OF b1, of "ver_refs_update (\<lambda>_. 1)"] v1(2) by (cases v1, cases v) simp
    moreover have "body h6 a = Some (?v2\<lparr>ver_next := None, ver_prev := None\<rparr>)" by (simp add: b6 body_upd)
    ultimately show ?thesis by (auto simp: body_def)
  qed
  moreover have "body h6 x = body ?h x" if "x \<noteq> a" "x \<noteq> last xs" for x using that un(2) by (simp add: b6 body_upd)
  moreover have "ver_refs c \<noteq> 1 \<longrightarrow>
      (\<exists>c'. h6 (last xs) = Some c' \<and> ver_refs c' = ver_refs c - 1 \<and> ver_files c' = ver_files c)"
    using kept ne(1) body_Some[of h6 "last xs" ?h2] b6 by fastforce
  ultimately show ?thesis using r6 by (intro exI[of _ h6]) (auto simp: versions_ok_def)
qed

section \<open>Live files\<close>

definition files_of :: "version_heap \<Rightarrow> nat \<Rightarrow> u64 set" where
  "files_of h a = (case h a of None \<Rightarrow> {} | Some v \<Rightarrow> fnumber ` set (concat (ver_files v)))"

lemma live_loop_path:
  "path (next_of h) pv (zs @ [0]) \<Longrightarrow> 0 \<notin> set zs \<Longrightarrow> (\<forall>a\<in>set zs. h a \<noteq> None) \<Longrightarrow>
   live_loop h (hd (zs @ [0])) live = Some (live \<union> (\<Union>a\<in>set zs. files_of h a))"
proof (induction zs arbitrary: live)
  case Nil
  then show ?case by (subst live_loop.simps) (simp add: dummy_versions_def)
next
  case (Cons z zs)
  obtain v where v: "h z = Some v" using Cons.prems by auto
  have n: "next_of h z = Some (hd (zs @ [0]))" and p: "path (next_of h) pv (zs @ [0])"
    using Cons.prems(1) by (cases zs; simp)+
  have "ver_next v = Some (hd (zs @ [0]))" using n v by (simp add: next_of_def)
  then have "live_loop h z live = live_loop h (hd (zs @ [0])) (live \<union> files_of h z)"
    using Cons.prems(2) v by (subst live_loop.simps) (simp add: dummy_versions_def files_of_def)
  then show ?case using Cons.IH[OF p, of "live \<union> files_of h z"] Cons.prems(2,3) by (simp add: Un_assoc)
qed

lemma add_live_ring:
  assumes "version_ring (vs_heap vs) xs"
  shows "add_live_files vs live = Some (live \<union> (\<Union>a\<in>set xs. files_of (vs_heap vs) a))"
proof -
  let ?h = "vs_heap vs"
  have r: "ring 0 (next_of ?h) (prev_of ?h) xs" using assms by (simp add: version_ring_def)
  have "path (next_of ?h) (prev_of ?h) (xs @ [0])" using r by (cases xs) (auto simp: ring_def)
  moreover have "0 \<notin> set xs" "\<forall>a\<in>set xs. ?h a \<noteq> None" using assms version_ring_0[OF assms] by (auto simp: version_ring_def)
  moreover obtain d where "?h 0 = Some d" "ver_next d = Some (hd (xs @ [0]))"
    using ring_ends[OF r] assms by (auto simp: version_ring_def next_of_def)
  ultimately show ?thesis using live_loop_path[of ?h _ xs live]
    by (simp add: add_live_files_def dummy_versions_def)
qed

section \<open>New versions\<close>

lemma ring_other:
  assumes "version_ring h xs" and "a \<notin> set (0 # xs)"
  shows "version_ring (h(a := x)) xs"
proof -
  have "path (next_of h) (prev_of h) (0 # xs @ [0])" using assms(1) by (simp add: version_ring_def ring_def)
  then have "path (next_of (h(a := x))) (prev_of (h(a := x))) (0 # xs @ [0])"
    by (rule path_other) (use assms(2) in \<open>auto simp: next_of_def prev_of_def dest: in_set_butlastD\<close>)
  then show ?thesis using assms by (auto simp: version_ring_def ring_def)
qed

lemma versions_okD:
  assumes "versions_ok vs xs"
  shows "version_ring (vs_heap vs) xs" "xs \<noteq> []" "vs_current vs = Some (last xs)" "dom (vs_heap vs) = insert 0 (set xs)"
    "\<exists>c. vs_heap vs (last xs) = Some c \<and> held c" "distinct xs" "0 \<notin> set xs"
  using assms version_ring_0 version_ring_in last_in_set[of xs] by (auto simp: versions_ok_def)

lemma fresh_in_ring:
  assumes "versions_ok vs xs" and "vs_heap vs a = None"
  shows "a \<notin> set (0 # xs)"
  using versions_okD(4)[OF assms(1)] assms(2) by (metis domIff list.simps(15))

text \<open>\<open>finalize\<close> computes scores only; a version the builder saves to has no files.\<close>

definition blank_version :: version where
  "blank_version = finalize_version version_ctor"

lemma finalize_version_same:
  "ver_refs (finalize_version v) = ver_refs v" "ver_files (finalize_version v) = ver_files v"
  "ver_next (finalize_version v) = ver_next v" "ver_prev (finalize_version v) = ver_prev v"
  by (simp_all add: finalize_version_def split: prod.splits)

lemma blank_version [simp]: "ver_refs blank_version = 0" "ver_files blank_version = replicate kNumLevels []"
  by (simp_all add: blank_version_def finalize_version_same version_ctor_def)

lemma append_blank:
  assumes ok: "versions_ok vs xs" and a: "vs_heap vs a = None" and c: "vs_heap vs (last xs) = Some c"
  shows "\<exists>h. append_version a (vs\<lparr>vs_heap := (vs_heap vs)(a \<mapsto> blank_version)\<rparr>) = Some (vs\<lparr>vs_heap := h, vs_current := Some a\<rparr>)
    \<and> versions_ok (vs\<lparr>vs_heap := h, vs_current := Some a\<rparr>) ((if ver_refs c = 1 then butlast xs else xs) @ [a])
    \<and> files_of h a = {} \<and> (\<forall>x. x \<noteq> a \<longrightarrow> x \<noteq> last xs \<longrightarrow> body h x = body (vs_heap vs) x)
    \<and> (ver_refs c \<noteq> 1 \<longrightarrow> (\<exists>c'. h (last xs) = Some c' \<and> ver_refs c' = ver_refs c - 1 \<and> ver_files c' = ver_files c))"
proof -
  let ?vs = "vs\<lparr>vs_heap := (vs_heap vs)(a \<mapsto> blank_version)\<rparr>"
  note f = fresh_in_ring[OF ok a] and d = versions_okD[OF ok]
  have ne: "last xs \<noteq> a" using f d(2) last_in_set by fastforce
  have p: "version_ring (vs_heap ?vs) xs" "vs_current ?vs = Some (last xs)" "dom (vs_heap ?vs) = insert a (insert 0 (set xs))"
    "vs_heap ?vs a = Some blank_version" "vs_heap ?vs (last xs) = Some c"
    "list_all (list_all (\<lambda>f. 0 < refs f)) (ver_files blank_version)"
    using ring_other[OF d(1) f] d(3,4) ne c by (simp_all add: list_all_iff)
  obtain h v' where h: "append_version a ?vs = Some (?vs\<lparr>vs_heap := h, vs_current := Some a\<rparr>)"
    "versions_ok (?vs\<lparr>vs_heap := h, vs_current := Some a\<rparr>) ((if ver_refs c = 1 then butlast xs else xs) @ [a])"
    and v': "h a = Some v'" "v'\<lparr>ver_next := None, ver_prev := None\<rparr> = blank_version\<lparr>ver_next := None, ver_prev := None, ver_refs := 1\<rparr>"
    and b: "\<forall>x. x \<noteq> a \<longrightarrow> x \<noteq> last xs \<longrightarrow> body h x = body (vs_heap ?vs) x"
    and r: "ver_refs c \<noteq> 1 \<longrightarrow> (\<exists>c'. h (last xs) = Some c' \<and> ver_refs c' = ver_refs c - 1 \<and> ver_files c' = ver_files c)"
    using append_ring[OF p(1) d(2) p(2,3) f p(4) blank_version(1) p(6,5)] by (elim exE conjE) (rule that)
  have "ver_files v' = replicate kNumLevels []" using arg_cong[OF v'(2), of ver_files] by simp
  then have "files_of h a = {}" using v'(1) by (auto simp: files_of_def)
  moreover have "\<forall>x. x \<noteq> a \<longrightarrow> x \<noteq> last xs \<longrightarrow> body h x = body (vs_heap vs) x" using b by (simp add: body_upd)
  ultimately show ?thesis using h r by (intro exI[of _ h]) (simp add: versions_ok_def)
qed

end
