(* ===== verification/Table_Cache.thy ===== *)
theory Table_Cache
  imports Options
begin

text \<open>
  \<open>__detail/table_cache.h/.cc\<close>: the cache of open tables, keyed by the file number in eight bytes.
  The environment, the name and the options it keeps are not used by any operation.  A negative
  number of entries becomes a huge \<open>size_t\<close>, as the call of \<open>new_lru_cache\<close> converts it.
\<close>

record 'w table_cache =
  tc_env :: "'w env"
  tc_dbname :: bytes
  tc_options :: "'w options"
  tc_cache :: "nat sharded_lru_cache"

definition table_cache_ctor :: "bytes \<Rightarrow> 'w options \<Rightarrow> int \<Rightarrow> 'w table_cache option" where
  "table_cache_ctor dbname opts entries =
     map_option (\<lambda>c. \<lparr>tc_env = opt_env opts, tc_dbname = dbname, tc_options = opts, tc_cache = c\<rparr>)
       (sharded_ctor (unat (word_of_int entries :: u64)))"

definition table_key :: "u64 \<Rightarrow> slice" where
  "table_key file_number = encode_fixed64 file_number"

definition tc_evict :: "u64 \<Rightarrow> 'w table_cache \<Rightarrow> 'w table_cache option" where
  "tc_evict file_number tc =
     map_option (\<lambda>(_, c). tc\<lparr>tc_cache := c\<rparr>) (sharded_erase (table_key file_number) (tc_cache tc))"

section \<open>Erased keys\<close>

lemma finish_erase_table: "finish_erase old c = Some (b, c') \<Longrightarrow> table c' = table c"
  by (auto simp: finish_erase_def un_ref_def set_entry_def append_lru_def lru_remove_def Let_def
      bind_eq_Some_conv split: option.splits if_splits)

lemma erase_misses:
  assumes inv: "cache_inv c cl" and erase: "cache_erase key hash c = Some c'"
  shows "\<exists>c2. cache_look_up key hash c' = Some (None, c2)"
proof -
  obtain old t where r: "table_remove (heap c) (table c) key hash = Some (old, t)" "table_inv (heap c) t"
    "table_handles t = table_handles (table c) - set_option old" "set_option old \<subseteq> table_handles (table c)"
    and old: "found_in (key_of (heap c)) (table_handles (table c)) (hash, key) old"
    using table_remove_handles[OF inv] by blast
  have lists: "lists_inv (c\<lparr>table := t\<rparr>) cl (table_handles (table c))" using inv by (simp add: cache_inv_def)
  obtain c1 where c1: "finish_erase old (c\<lparr>table := t\<rparr>) = Some (old \<noteq> None, c1)" "cache_inv c1 cl"
    "\<forall>b. b \<notin> set_option old \<longrightarrow> heap c1 b = heap c b"
    using drop_found[OF lists r(4)] r(2,3) by auto
  have c': "c1 = c'" using erase r(1) c1(1) by (auto simp: cache_erase_def)
  have table: "table c' = t" using finish_erase_table[OF c1(1)] c' by simp
  obtain x c2 where x: "cache_look_up key hash c' = Some (x, c2)"
    "found_in (key_of (heap c')) (table_handles t) (hash, key) x"
    using look_up_inv[OF c1(2)] table c' by blast
  have "x = None"
  proof (cases x)
    case (Some a)
    then have a: "a \<in> table_handles t" "key_of (heap c') a = Some (hash, key)" using x(2) by (auto simp: found_in_def)
    then have "a \<notin> set_option old" "a \<in> table_handles (table c)" using r(3) by auto
    moreover from this have "key_of (heap c) a = Some (hash, key)" using a(2) c1(3) c' by (simp add: key_of_def)
    ultimately have "found_in (key_of (heap c)) (table_handles (table c)) (hash, key) (Some a)" by (simp add: found_in_def)
    then have "old = Some a" using old inv hash_table.found_unique unfolding cache_inv_def by blast
    with \<open>a \<notin> set_option old\<close> show ?thesis by simp
  qed
  with x(1) show ?thesis by blast
qed

section \<open>Properties\<close>

text \<open>
  Evicting a file from the table cache succeeds whatever the cache holds, afterwards the file's
  table is not found, and the shards the file's key does not belong to are unchanged.
\<close>

theorem evict_removes_table:
  assumes "sharded_inv cap (tc_cache tc) cls"
  shows "\<exists>tc' c2. tc_evict n tc = Some tc' \<and> sharded_look_up (table_key n) (tc_cache tc') = Some (None, c2)
    \<and> (\<forall>i. i \<noteq> shard_of (hash_slice (table_key n)) \<longrightarrow> shards (tc_cache tc') ! i = shards (tc_cache tc) ! i)"
proof -
  let ?h = "hash_slice (table_key n)"
  let ?c = "shards (tc_cache tc) ! shard_of ?h"
  have inv: "cache_inv ?c (cls (shard_of ?h))" and len: "shard_of ?h < length (shards (tc_cache tc))"
    using assms cache_reach_inv shard_of_less unfolding sharded_inv_def by metis+
  obtain c' where c': "cache_erase (table_key n) ?h ?c = Some c'" using erase_inv[OF inv] by blast
  with erase_misses[OF inv c'] len show ?thesis
    by (auto simp: tc_evict_def sharded_erase_def sharded_look_up_def on_shard_def Let_def)
qed

theorem evict_removes_table_witness:
  "\<exists>tc tc' c2. table_cache_ctor (cstr ''db'') (options_ctor mem_env) 990 = Some tc \<and> tc_evict 7 tc = Some tc'
    \<and> sharded_look_up (table_key 7) (tc_cache tc') = Some (None, c2)"
proof -
  obtain c :: "nat sharded_lru_cache" where c: "sharded_ctor 990 = Some c" "sharded_inv 62 c (\<lambda>_ _. 0)"
    using sharded_ctor_inv[of 990 0] by auto
  let ?tc = "\<lparr>tc_env = mem_env, tc_dbname = cstr ''db'', tc_options = options_ctor mem_env, tc_cache = c\<rparr>"
  have "table_cache_ctor (cstr ''db'') (options_ctor mem_env) 990 = Some ?tc"
    using c(1) by (simp add: table_cache_ctor_def options_ctor_def)
  then show ?thesis using evict_removes_table[of 62 ?tc "\<lambda>_ _. 0" 7] c(2) by auto
qed

end
