(* ===== verification/Memory_Table.thy ===== *)
theory Memory_Table
  imports Skip_List_Spec Db_Format
begin

text \<open>
  \<open>__detail/memory_table.h/.cc\<close>: a reference count, an arena and a skip list over pointers into it,
  a pointer being an optional address.  The comparator's call operator is declared but has no
  definition in the repository, so nothing inserts into the list.  The arena and the list share
  their state: the list holds the arena.
\<close>

record mem_table =
  mt_comparator :: comparator
  mt_refs :: int
  mt_table :: "nat option skip_list"

definition mem_table_ctor :: "comparator \<Rightarrow> nat \<Rightarrow> mem_table option" where
  "mem_table_ctor cmp a =
     map_option (\<lambda>t. \<lparr>mt_comparator = cmp, mt_refs = 0, mt_table = t\<rparr>) (skip_list_ctor None a arena_ctor)"

definition mem_table_ref :: "mem_table \<Rightarrow> mem_table" where
  "mem_table_ref m = m\<lparr>mt_refs := mt_refs m + 1\<rparr>"

definition mem_table_dtor :: "mem_table \<Rightarrow> unit option" where
  "mem_table_dtor m = (if mt_refs m = 0 then Some () else None)"

end
