(* ===== verification/Working_Env.thy ===== *)
theory Working_Env
  imports Environment Log_Roundtrip
begin

text \<open>
  What recovery relies on: an environment whose calls succeed and do what their names say.
  \<open>files\<close> is the content of every file.  A file opened for writing is a \<open>byte_sink\<close>, one opened for
  reading a \<open>byte_source\<close>, and each touches no other file.  The environment in memory is one.
\<close>

definition open_for_writing :: "'w env \<Rightarrow> ('w \<Rightarrow> bytes \<Rightarrow> bytes option) \<Rightarrow> nat \<Rightarrow> bytes \<Rightarrow> 'w \<Rightarrow> ('w \<Rightarrow> bool) \<Rightarrow> bool" where
  "open_for_writing e files h f w good \<longleftrightarrow> byte_sink (env_writable e h) good (\<lambda>w. the (files w f)) \<and> good w
     \<and> (\<forall>w2. good w2 \<longrightarrow> files w2 = (files w)(f \<mapsto> the (files w2 f))
          \<and> (\<exists>w3. wf_sync (env_writable e h) w2 = Some (Status_Ok, w3) \<and> good w3 \<and> files w3 = files w2)
          \<and> (\<exists>w3. wf_close (env_writable e h) w2 = Some (Status_Ok, w3) \<and> files w3 = files w2))"

definition open_for_reading :: "'w env \<Rightarrow> ('w \<Rightarrow> bytes \<Rightarrow> bytes option) \<Rightarrow> nat \<Rightarrow> bytes \<Rightarrow> 'w \<Rightarrow> ('w \<Rightarrow> bool) \<Rightarrow> ('w \<Rightarrow> bytes) \<Rightarrow> bool" where
  "open_for_reading e files h c w ready remaining \<longleftrightarrow> byte_source (env_sequential e h) ready remaining \<and> ready w
     \<and> remaining w = c \<and> (\<forall>w2. ready w2 \<longrightarrow> files w2 = files w)"

definition opens_files :: "'w env \<Rightarrow> ('w \<Rightarrow> bytes \<Rightarrow> bytes option) \<Rightarrow> bool" where
  "opens_files e files \<longleftrightarrow>
     (\<forall>f w. \<exists>h w1 good. env_new_writable_file e f w = Some (Status_Ok, h, w1) \<and> files w1 = (files w)(f \<mapsto> [])
        \<and> open_for_writing e files h f w1 good)
   \<and> (\<forall>f w c. files w f = Some c \<longrightarrow> (\<exists>h w1 ready remaining. env_new_sequential_file e f w = Some (Status_Ok, h, w1)
        \<and> files w1 = files w \<and> open_for_reading e files h c w1 ready remaining))
   \<and> (\<forall>h w. files (env_delete_writable e h w) = files w) \<and> (\<forall>h w. files (env_delete_sequential e h w) = files w)"

definition manages_files :: "'w env \<Rightarrow> ('w \<Rightarrow> bytes \<Rightarrow> bytes option) \<Rightarrow> bool" where
  "manages_files e files \<longleftrightarrow>
     (\<forall>a b w c. files w a = Some c \<longrightarrow> a \<noteq> b \<longrightarrow>
        (\<exists>w1. env_rename_file e a b w = Some (Status_Ok, w1) \<and> files w1 = (files w)(a := None, b \<mapsto> c)))
   \<and> (\<forall>f w. \<exists>s w1. env_remove_file e f w = Some (s, w1) \<and> files w1 = (files w)(f := None))
   \<and> (\<forall>f w. \<exists>w1. env_file_exists e f w = Some (files w f \<noteq> None, w1) \<and> files w1 = files w)
   \<and> (\<forall>d w. \<exists>w1. env_create_dir e d w = Some (Status_Ok, w1) \<and> files w1 = files w)
   \<and> (\<forall>f w. \<exists>h w1. env_lock_file e f w = Some (Status_Ok, h, w1) \<and> (\<forall>g. g \<noteq> f \<longrightarrow> files w1 g = files w g))
   \<and> (\<forall>d w. \<exists>names w1. env_get_children e d w = Some (Status_Ok, names, w1) \<and> files w1 = files w
        \<and> (\<forall>g. g \<in> set names \<longleftrightarrow> files w (d @ cstr ''/'' @ g) \<noteq> None))"

definition working_env :: "'w env \<Rightarrow> ('w \<Rightarrow> bytes \<Rightarrow> bytes option) \<Rightarrow> bool" where
  "working_env e files \<longleftrightarrow> opens_files e files \<and> manages_files e files"

section \<open>Consequences, one per call\<close>

lemma working_writable:
  "working_env e files \<Longrightarrow> \<exists>h w1 good. env_new_writable_file e f w = Some (Status_Ok, h, w1)
     \<and> files w1 = (files w)(f \<mapsto> []) \<and> open_for_writing e files h f w1 good"
  by (simp add: working_env_def opens_files_def)

lemma working_sequential:
  "working_env e files \<Longrightarrow> files w f = Some c \<Longrightarrow> \<exists>h w1 ready remaining. env_new_sequential_file e f w = Some (Status_Ok, h, w1)
     \<and> files w1 = files w \<and> open_for_reading e files h c w1 ready remaining"
  by (simp add: working_env_def opens_files_def)

lemma working_delete [simp]:
  assumes "working_env e files"
  shows "files (env_delete_writable e h w) = files w" "files (env_delete_sequential e h w) = files w"
  using assms by (simp_all add: working_env_def opens_files_def)

lemma working_rename:
  "working_env e files \<Longrightarrow> files w a = Some c \<Longrightarrow> a \<noteq> b \<Longrightarrow>
     \<exists>w1. env_rename_file e a b w = Some (Status_Ok, w1) \<and> files w1 = (files w)(a := None, b \<mapsto> c)"
  by (simp add: working_env_def manages_files_def)

lemma working_remove:
  "working_env e files \<Longrightarrow> \<exists>s w1. env_remove_file e f w = Some (s, w1) \<and> files w1 = (files w)(f := None)"
  unfolding working_env_def manages_files_def by blast

lemma working_exists:
  "working_env e files \<Longrightarrow> \<exists>w1. env_file_exists e f w = Some (files w f \<noteq> None, w1) \<and> files w1 = files w"
  unfolding working_env_def manages_files_def by blast

lemma working_create_dir:
  "working_env e files \<Longrightarrow> \<exists>w1. env_create_dir e d w = Some (Status_Ok, w1) \<and> files w1 = files w"
  unfolding working_env_def manages_files_def by blast

lemma working_lock:
  "working_env e files \<Longrightarrow> \<exists>h w1. env_lock_file e f w = Some (Status_Ok, h, w1) \<and> (\<forall>g. g \<noteq> f \<longrightarrow> files w1 g = files w g)"
  unfolding working_env_def manages_files_def by blast

lemma working_children:
  "working_env e files \<Longrightarrow> \<exists>names w1. env_get_children e d w = Some (Status_Ok, names, w1) \<and> files w1 = files w
        \<and> (\<forall>g. g \<in> set names \<longleftrightarrow> files w (d @ cstr ''/'' @ g) \<noteq> None)"
  unfolding working_env_def manages_files_def by blast

section \<open>The environment in memory works\<close>

lemma mem_reading:
  "byte_source (env_sequential mem_env h)
     (\<lambda>w. mem_files w = F \<and> mw_names w h = f \<and> F f = Some c) (\<lambda>w. drop (mw_pos w h) c)"
proof
  fix r n
  assume "mem_files r = F \<and> mw_names r h = f \<and> F f = Some c"
  then show "\<exists>r'. sf_read (env_sequential mem_env h) n r = Some (Status_Ok, take n (drop (mw_pos r h) c), r')
    \<and> (mem_files r' = F \<and> mw_names r' h = f \<and> F f = Some c) \<and> drop (mw_pos r' h) c = drop n (drop (mw_pos r h) c)"
    by (auto simp: mem_env_def Let_def mem_files_def min_def add.commute)
qed

lemma mem_writing:
  "byte_sink (env_writable mem_env h)
     (\<lambda>w. mw_names w h = f \<and> (\<exists>c. mem_files w = F(f \<mapsto> c))) (\<lambda>w. the (mem_files w f))"
proof
  fix d w
  assume a: "mw_names w h = f \<and> (\<exists>c. mem_files w = F(f \<mapsto> c))"
  then obtain c where c: "mem_files w = F(f \<mapsto> c)" by blast
  show "\<exists>w'. wf_append (env_writable mem_env h) d w = Some (Status_Ok, w')
    \<and> (mw_names w' h = f \<and> (\<exists>c. mem_files w' = F(f \<mapsto> c))) \<and> the (mem_files w' f) = the (mem_files w f) @ d"
    using a c by (simp add: mem_env_def mem_append_def Let_def) (auto simp: mem_files_def update_conv')
  show "\<exists>w'. wf_flush (env_writable mem_env h) w = Some (Status_Ok, w')
    \<and> (mw_names w' h = f \<and> (\<exists>c. mem_files w' = F(f \<mapsto> c))) \<and> the (mem_files w' f) = the (mem_files w f)"
    using a by (simp add: mem_env_def)
qed

lemma mem_opens: "opens_files mem_env mem_files"
  unfolding opens_files_def
proof (intro conjI allI impI)
  fix f and w :: mem_world
  let ?w = "w\<lparr>mw_files := AList.update f [] (mw_files w)\<rparr>"
  obtain h w1 where o: "mem_open f ?w = (Status_Ok, h, w1)" "mw_names w1 h = f" "mem_files w1 = (mem_files w)(f \<mapsto> [])"
    by (simp add: mem_open_def mem_files_def update_conv')
  have "open_for_writing mem_env mem_files h f w1 (\<lambda>w2. mw_names w2 h = f \<and> (\<exists>c. mem_files w2 = (mem_files w1)(f \<mapsto> c)))"
    unfolding open_for_writing_def using mem_writing[of h f "mem_files w1"] o(2,3) by (auto simp: mem_env_def fun_upd_idem_iff)
  with o show "\<exists>h w1 good. env_new_writable_file mem_env f w = Some (Status_Ok, h, w1)
      \<and> mem_files w1 = (mem_files w)(f \<mapsto> []) \<and> open_for_writing mem_env mem_files h f w1 good"
    by (auto simp: mem_env_def)
next
  fix f c and w :: mem_world assume c: "mem_files w f = Some c"
  obtain h w1 where o: "mem_open f w = (Status_Ok, h, w1)" "mw_names w1 h = f" "mem_files w1 = mem_files w" "mw_pos w1 h = 0"
    by (simp add: mem_open_def mem_files_def)
  have "open_for_reading mem_env mem_files h c w1
      (\<lambda>w2. mem_files w2 = mem_files w1 \<and> mw_names w2 h = f \<and> mem_files w1 f = Some c) (\<lambda>w. drop (mw_pos w h) c)"
    unfolding open_for_reading_def using mem_reading[of h "mem_files w1" f c] o c by auto
  with o c show "\<exists>h w1 ready remaining. env_new_sequential_file mem_env f w = Some (Status_Ok, h, w1)
      \<and> mem_files w1 = mem_files w \<and> open_for_reading mem_env mem_files h c w1 ready remaining"
    by (auto simp: mem_env_def)
qed (simp_all add: mem_env_def)

lemma mem_manages: "manages_files mem_env mem_files"
  unfolding manages_files_def
proof (intro conjI allI impI)
  fix d and w :: mem_world
  let ?d = "d @ cstr ''/''"
  have "g \<in> (\<lambda>f. drop (length d + 1) f) ` {f \<in> set (map fst (mw_files w)). prefix ?d f} \<longleftrightarrow> ?d @ g \<in> set (map fst (mw_files w))" for g
    by (force simp: prefix_def image_iff)
  then show "\<exists>names w1. env_get_children mem_env d w = Some (Status_Ok, names, w1) \<and> mem_files w1 = mem_files w
        \<and> (\<forall>g. g \<in> set names \<longleftrightarrow> mem_files w (d @ cstr ''/'' @ g) \<noteq> None)"
    by (simp add: mem_env_def mem_files_def map_of_eq_None_iff)
qed (auto simp: mem_env_def mem_files_def update_conv' delete_conv' fun_eq_iff mem_open_def split: option.splits)


lemma mem_working: "working_env mem_env mem_files"
  by (simp add: working_env_def mem_opens mem_manages)

section \<open>Writing and reading in a working environment\<close>

lemma write_string_works:
  assumes "working_env e files"
  shows "\<exists>w'. do_write_string_to_file e data f sync w = Some (Status_Ok, w') \<and> files w' = (files w)(f \<mapsto> data)"
proof -
  obtain h w1 good where o: "env_new_writable_file e f w = Some (Status_Ok, h, w1)" "files w1 = (files w)(f \<mapsto> [])"
    and open_: "open_for_writing e files h f w1 good" using working_writable[OF assms] by blast
  have sink: "byte_sink (env_writable e h) good (\<lambda>w. the (files w f))" and g1: "good w1"
    and after: "\<And>w2. good w2 \<Longrightarrow> files w2 = (files w1)(f \<mapsto> the (files w2 f))
       \<and> (\<exists>w3. wf_sync (env_writable e h) w2 = Some (Status_Ok, w3) \<and> good w3 \<and> files w3 = files w2)
       \<and> (\<exists>w3. wf_close (env_writable e h) w2 = Some (Status_Ok, w3) \<and> files w3 = files w2)"
    using open_ unfolding open_for_writing_def by blast+
  obtain w2 where w2: "wf_append (env_writable e h) data w1 = Some (Status_Ok, w2)" "good w2"
    "the (files w2 f) = the (files w1 f) @ data" using byte_sink.append[OF sink g1] by blast
  obtain w3 where w3: "(if sync then wf_sync (env_writable e h) w2 else Some (Status_Ok, w2)) = Some (Status_Ok, w3)"
    "good w3" "files w3 = files w2" using after[OF w2(2)] w2(2) by (cases sync) auto
  obtain w4 where w4: "wf_close (env_writable e h) w3 = Some (Status_Ok, w4)" "files w4 = files w3"
    using after[OF w3(2)] by blast
  have "files w4 = (files w)(f \<mapsto> data)" using after[OF w2(2)] w2(3) w3(3) w4(2) o(2) by auto
  then show ?thesis using o w2(1) w3(1) w4(1) assms
    by (cases sync) (auto simp: do_write_string_to_file_def Let_def)
qed

lemma read_file_works:
  assumes "working_env e files" and "files w f = Some c"
  shows "\<exists>w'. read_file_to_string e f w = Some (Status_Ok, c, w') \<and> files w' = files w"
proof -
  obtain h w1 ready remaining where o: "env_new_sequential_file e f w = Some (Status_Ok, h, w1)" "files w1 = files w"
    and open_: "open_for_reading e files h c w1 ready remaining" using working_sequential[OF assms] by blast
  then have src: "byte_source (env_sequential e h) ready remaining" and r: "ready w1" "remaining w1 = c"
    and keep: "\<And>w2. ready w2 \<Longrightarrow> files w2 = files w1" unfolding open_for_reading_def by blast+
  obtain w2 where w2: "read_all_loop (env_sequential e h) [] w1 = Some (Status_Ok, [] @ remaining w1, w2)" "ready w2"
    using byte_source.read_all_returns[OF src r(1), of "[]"] by blast
  then have "files w2 = files w" using keep[OF w2(2)] o(2) by simp
  then show ?thesis using o(1) r(2) w2(1) assms(1) by (auto simp: read_file_to_string_def)
qed

definition manifest_base :: "u64 \<Rightarrow> bytes" where
  "manifest_base n = cstr ''MANIFEST-'' @ format_06llu n"

lemma descriptor_name: "0 < n \<Longrightarrow> descriptor_file_name db n = Some (db @ cstr ''/'' @ manifest_base n)"
  by (simp add: descriptor_file_name_def manifest_base_def)

lemma set_current_works:
  assumes "working_env e files" and "0 < n"
  shows "\<exists>w'. set_current_file e db n w = Some (Status_Ok, w')
    \<and> files w' = (files w)(the (temp_file_name db n) := None, current_file_name db \<mapsto> manifest_base n @ [10])"
proof -
  obtain t where t: "temp_file_name db n = Some t" using assms(2) by (simp add: temp_file_name_def)
  have ct: "t \<noteq> current_file_name db"
    using t by (auto simp: current_file_name_def temp_file_name_def make_file_name_def split: if_splits
        dest!: arg_cong[of _ _ "\<lambda>s. s ! (length s - 1)"] simp: nth_append)
  obtain w1 where w1: "write_string_to_file_sync e (manifest_base n @ [10]) t w = Some (Status_Ok, w1)"
    "files w1 = (files w)(t \<mapsto> manifest_base n @ [10])"
    using write_string_works[OF assms(1)] unfolding write_string_to_file_sync_def by blast
  obtain w2 where w2: "env_rename_file e t (current_file_name db) w1 = Some (Status_Ok, w2)"
    "files w2 = (files w1)(t := None, current_file_name db \<mapsto> manifest_base n @ [10])"
    using working_rename[OF assms(1), of w1 t _ "current_file_name db"] w1(2) ct by auto
  have "slice_starts_with (db @ cstr ''/'' @ manifest_base n) (db @ cstr ''/'')"
    "slice_remove_prefix (db @ cstr ''/'' @ manifest_base n) (length db + 1) = Some (manifest_base n)"
    by (simp_all add: slice_starts_with_def slice_remove_prefix_def slice_size_def)
  then show ?thesis using w1 w2 t descriptor_name[OF assms(2)]
    by (auto simp: set_current_file_def slice_to_string_def)
qed

end
