(* ===== verification/Version_Recovery.thy ===== *)
theory Version_Recovery
  imports Version_Ring Working_Env
begin

text \<open>
  The version set and its manifest together, in a working environment: what \<open>recover\<close> makes of
  a manifest whose records are version edits, what \<open>log_any_apply\<close> does to the version set and to
  the files, and that the one reads back what the other wrote.
\<close>

section \<open>Replaying edits\<close>

definition encodes :: "slice \<Rightarrow> version_edit \<Rightarrow> bool" where
  "encodes r e \<longleftrightarrow> (\<forall>e0. ve_decode_from r e0 = (Status_Ok, e))"

lemma encodes_plain: "plain_edit e \<Longrightarrow> \<exists>r. ve_encode_to e [] = Some r \<and> encodes r e"
  using encode_plain[of e] decode_plain[of e] by (auto simp: encodes_def) 

definition comparator_matches :: "comparator \<Rightarrow> version_edit \<Rightarrow> bool" where
  "comparator_matches cmp e \<longleftrightarrow> (has_comparator e \<longrightarrow> comparator_str e = comparator_name cmp)"

fun apply_edits :: "version_edit list \<Rightarrow> builder \<Rightarrow> 'w version_set \<Rightarrow> (builder \<times> 'w version_set) option" where
  "apply_edits [] b vs = Some (b, vs)"
| "apply_edits (e # es) b vs = Option.bind (builder_apply e b vs) (\<lambda>(b', vs'). apply_edits es b' vs')"

lemma builder_apply_frame:
  "builder_apply e b vs = Some (b', vs') \<Longrightarrow> b_base b' = b_base b \<and> (\<exists>cps. vs' = vs\<lparr>vs_compact_pointer := cps\<rparr>)"
  by (auto simp: builder_apply_def bind_eq_Some_conv)

lemma apply_edits_frame:
  "apply_edits es b vs = Some (b', vs') \<Longrightarrow> b_base b' = b_base b \<and> (\<exists>cps. vs' = vs\<lparr>vs_compact_pointer := cps\<rparr>)"
proof (induction es arbitrary: b vs)
  case Nil
  then show ?case by (auto intro: exI[of _ "vs_compact_pointer vs"])
next
  case (Cons e es)
  then obtain b1 vs1 where s: "builder_apply e b vs = Some (b1, vs1)" "apply_edits es b1 vs1 = Some (b', vs')"
    by (auto simp: bind_eq_Some_conv)
  with Cons.IH[OF s(2)] builder_apply_frame[OF s(1)] show ?case by auto
qed

text \<open>What an edit without deletions and pointers does depends on the comparator and the levels only.\<close>

lemma apply_deletions_none [simp]: "apply_deletions {} ls = Some ls"
proof -
  have "map (\<lambda>(i, l). l\<lparr>b_deleted := b_deleted l \<union> snd ` {p \<in> {}. fst p = int i}\<rparr>) (zip [0..<length ls] ls) = ls"
    by (rule nth_equalityI) auto
  then show ?thesis by (simp add: apply_deletions_def)
qed

lemma builder_apply_plain:
  assumes "plain_edit e"
  shows "builder_apply e b vs = map_option (\<lambda>ls. (b\<lparr>b_levels := ls\<rparr>, vs))
    (apply_new_files (vs_comparator vs) (new_files e) (b_levels b))"
  using assms by (cases "apply_new_files (vs_comparator vs) (new_files e) (b_levels b)")
    (simp_all add: builder_apply_def plain_edit_def)

context byte_source begin

lemma recover_loop_reads:
  assumes "positioned off (map (Pair kFullType) rs) rd" "initial_offset rd = 0" "\<not> resyncing rd"
    and "list_all2 encodes rs es" "list_all (comparator_matches (vs_comparator vs)) es"
    and "apply_edits es b vs = Some (b', vs')"
  shows "\<exists>w'. recover_loop sf Status_Ok rec scr rd r b vs = Some (Status_Ok, fold note_numbers es r, b', vs', w') \<and> ready w'"
  using assms
proof (induction rs arbitrary: off rd es rec scr r b vs)
  case Nil
  obtain rd' scr' where "read_record_loop sf False 0 [] [] rd = Some (False, [], scr', rd')" "positioned off [] rd'" "same_mode rd rd'"
    using loop_end[of off rd False 0 "[]" "[]"] Nil.prems(1-3) by auto
  then show ?case using Nil.prems
    by (subst recover_loop.simps) (auto simp: read_record_def Let_def reported_def same_mode_def positioned_def)
next
  case (Cons q rs)
  obtain e es' where es: "es = e # es'" "encodes q e" "list_all2 encodes rs es'"
    using Cons.prems(4) by (auto simp: list_all2_Cons1)
  obtain b1 vs1 where ap: "builder_apply e b vs = Some (b1, vs1)" "apply_edits es' b1 vs1 = Some (b', vs')"
    using Cons.prems(6) es(1) by (auto simp: bind_eq_Some_conv)
  let ?off = "start_of off + kHeaderSize + length q"
  obtain rd1 where rd1: "read_record_loop sf False 0 [] [] rd = Some (True, q, [], rd1)"
    "positioned ?off (map (Pair kFullType) rs) rd1" and m: "same_mode rd rd1"
    using loop_full[of off q _ rd 0 "[]" "[]"] Cons.prems by auto
  have read: "read_record sf rec scr rd = Some (True, q, [], rd1)"
    using rd1(1) Cons.prems(2) by (simp add: read_record_def)
  have dec: "ve_decode_from q version_edit_ctor = (Status_Ok, e)" using es(2) by (simp add: encodes_def)
  have chk: "check_comparator e vs Status_Ok = Status_Ok"
    using Cons.prems(5) es(1) by (auto simp: check_comparator_def comparator_matches_def)
  have reports: "reports rd1 = reports rd" by (rule same_modeD(3)[OF m])
  have "recover_loop sf Status_Ok rec scr rd r b vs
      = recover_loop sf Status_Ok q [] rd1 (note_numbers e r) b1 vs1"
    by (subst recover_loop.simps) (simp add: read dec chk ap(1) reports reported_def Let_def)
  moreover have "vs_comparator vs1 = vs_comparator vs" using builder_apply_frame[OF ap(1)] by auto
  ultimately show ?case
    using Cons.IH[OF rd1(2) same_modeD(1,2)[OF m] es(3) _ ap(2)] Cons.prems(5) es(1) by auto
qed

lemma recover_loop_manifest:
  assumes "ready w" "remaining w = layout 0 (log_pieces 0 rs)" "unfragmented 0 rs"
    and "list_all2 encodes rs es" "list_all (comparator_matches (vs_comparator vs)) es"
    and "apply_edits es b vs = Some (b', vs')"
  shows "\<exists>w'. recover_loop sf Status_Ok [] [] (reader_ctor w True True 0) r b vs
      = Some (Status_Ok, fold note_numbers es r, b', vs', w') \<and> ready w'"
proof -
  have p: "log_pieces 0 rs = map (Pair kFullType) rs" by (rule log_pieces_unfragmented[OF assms(3)])
  have "layout_fits 0 (map (Pair kFullType) rs)" using log_pieces_fit[of 0 rs] p by simp
  then have "positioned kBlockSize (map (Pair kFullType) rs) (reader_ctor w True True 0)"
    using positioned_ctor[OF assms(1)] assms(2) p by simp
  then show ?thesis by (rule recover_loop_reads) (use assms(4-6) in \<open>simp_all add: reader_ctor_def\<close>)
qed

end

section \<open>Installing the recovered version\<close>

lemma install_blank:
  "install_recovered a dscname current r b save vs w =
     Option.bind (append_version a (vs\<lparr>vs_heap := (vs_heap vs)(a \<mapsto> blank_version)\<rparr>)) (\<lambda>vs4.
       map_option (\<lambda>(reused, vs6, w1). (if reused then save else True, vs6, w1))
         (reuse_manifest dscname current (vs4\<lparr>vs_manifest_file_number := number_of (r_next_file r),
               vs_next_file_number := number_of (r_next_file r) + 1,
               vs_last_sequence := number_of (r_last_sequence r),
               vs_log_number := number_of (r_log_number r),
               vs_prev_log_number := number_of (r_prev_log_number r)\<rparr>) w))"
  by (simp add: install_recovered_def new_version_def builder_save_to_def finalize_at_def blank_version_def Let_def)

definition recovered_set :: "nat \<Rightarrow> recovered \<Rightarrow> bytes list \<Rightarrow> version_heap \<Rightarrow> 'w version_set \<Rightarrow> 'w version_set" where
  "recovered_set a r cps h vs = vs\<lparr>vs_compact_pointer := cps, vs_heap := h, vs_current := Some a,
     vs_manifest_file_number := number_of (r_next_file r), vs_next_file_number := number_of (r_next_file r) + 1,
     vs_last_sequence := number_of (r_last_sequence r), vs_log_number := number_of (r_log_number r),
     vs_prev_log_number := number_of (r_prev_log_number r)\<rparr>"

text \<open>
  The builder holds the version that was current until the recovered one has replaced it, so that
  version goes away only when nobody else holds it.
\<close>

lemma files_of_body: "body h x = body h' x \<Longrightarrow> files_of h x = files_of h' x"
  using body_Some[of h x h'] by (cases "h' x"; cases "h x") (auto simp: files_of_def body_def)

lemma install_held:
  assumes ok: "versions_ok vs xs" and a: "vs_heap vs a = None" and c: "vs_heap vs (last xs) = Some c"
    and vs1: "vs1 = vs\<lparr>vs_heap := (vs_heap vs)(last xs \<mapsto> c\<lparr>ver_refs := ver_refs c + 1\<rparr>), vs_compact_pointer := cps,
        vs_next_file_number := n\<rparr>"
    and reuse: "\<not> opt_reuse_logs (vs_options vs)" and b: "b_base b = last xs"
  shows "\<exists>h h4. install_recovered a dsc cur r b save vs1 w = Some (True, recovered_set a r cps h vs, w)
    \<and> builder_dtor b h = Some h4
    \<and> versions_ok (recovered_set a r cps h4 vs) ((if ver_refs c = 1 then butlast xs else xs) @ [a])
    \<and> files_of h4 a = {} \<and> (\<forall>x. x \<noteq> a \<longrightarrow> h4 x \<noteq> None \<longrightarrow> files_of h4 x = files_of (vs_heap vs) x)"
proof -
  note d = versions_okD[OF ok]
  let ?c = "c\<lparr>ver_refs := ver_refs c + 1\<rparr>"
  have held: "held c" using d(5) c by auto
  obtain h' v where r: "version_ref (last xs) (vs_heap vs) = Some h'" "version_ring h' xs" "vs_heap vs (last xs) = Some v"
    "h' = (vs_heap vs)(last xs \<mapsto> v\<lparr>ver_refs := ver_refs v + 1\<rparr>)"
    using ref_ring[OF d(1), of "last xs"] d(2) by auto
  then have h': "h' = (vs_heap vs)(last xs \<mapsto> ?c)" using c by simp
  have ne: "a \<noteq> last xs" using a c by auto
  have ok1: "versions_ok vs1 xs" using r(2) h' d c by (auto simp: versions_ok_def vs1)
  have a1: "vs_heap vs1 a = None" using a ne by (simp add: vs1)
  have c1: "vs_heap vs1 (last xs) = Some ?c" by (simp add: vs1)
  have "ver_refs ?c \<noteq> 1" using held by (simp add: held_def)
  then obtain h c' where h: "append_version a (vs1\<lparr>vs_heap := (vs_heap vs1)(a \<mapsto> blank_version)\<rparr>)
      = Some (vs1\<lparr>vs_heap := h, vs_current := Some a\<rparr>)" "versions_ok (vs1\<lparr>vs_heap := h, vs_current := Some a\<rparr>) (xs @ [a])"
    "files_of h a = {}" "h (last xs) = Some c'" "ver_refs c' = ver_refs c" "ver_files c' = ver_files c"
    and others: "\<forall>x. x \<noteq> a \<longrightarrow> x \<noteq> last xs \<longrightarrow> body h x = body (vs_heap vs1) x"
    using append_blank[OF ok1 a1 c1] by auto
  have "install_recovered a dsc cur r b save vs1 w = Some (True, recovered_set a r cps h vs, w)"
    using h(1) reuse by (simp add: install_blank reuse_manifest_def recovered_set_def) (auto simp: vs1)
  moreover obtain h4 where h4: "builder_dtor b h = Some h4" "\<forall>x. x \<noteq> last xs \<longrightarrow> body h4 x = body h x"
    "h4 (last xs) \<noteq> None \<longrightarrow> files_of h4 (last xs) = files_of (vs_heap vs) (last xs)"
    "versions_ok (recovered_set a r cps h4 vs) ((if ver_refs c = 1 then butlast xs else xs) @ [a])"
  proof -
    have "\<exists>h4. builder_dtor b h = Some h4 \<and> (\<forall>x. x \<noteq> last xs \<longrightarrow> body h4 x = body h x)
      \<and> (h4 (last xs) \<noteq> None \<longrightarrow> files_of h4 (last xs) = files_of (vs_heap vs) (last xs))
      \<and> versions_ok (recovered_set a r cps h4 vs) ((if ver_refs c = 1 then butlast xs else xs) @ [a])"
    proof -
    have xs: "xs @ [a] = butlast xs @ last xs # [a]" using d(2) by simp
    have ring: "version_ring h (butlast xs @ last xs # [a])" and dom: "dom h = insert 0 (set (xs @ [a]))"
      using h(2) unfolding xs[symmetric] by (simp_all add: versions_ok_def)
    obtain h4 where h4: "version_un_ref (last xs) h = Some h4" "\<forall>x. x \<noteq> last xs \<longrightarrow> body h4 x = body h x"
      "if ver_refs c' = 1 then version_ring h4 (butlast xs @ [a]) \<and> dom h4 = dom h - {last xs}
       else version_ring h4 (xs @ [a]) \<and> h4 = h(last xs \<mapsto> c'\<lparr>ver_refs := ver_refs c' - 1\<rparr>)"
      using un_ref_ring[OF ring h(4), folded xs] by blast
    have "last xs \<in> set xs" using d(2) by (rule last_in_set)
    moreover have "last xs \<noteq> 0" using calculation d(7) by metis
    moreover have "set (butlast xs) = set xs - {last xs}" by (rule set_butlast_distinct[OF d(6,2)])
    ultimately have "dom h4 = insert 0 (set ((if ver_refs c = 1 then butlast xs else xs) @ [a]))"
      using h4(3) dom h(4,5) ne by (auto split: if_splits)
    then have "versions_ok (recovered_set a r cps h4 vs) ((if ver_refs c = 1 then butlast xs else xs) @ [a])"
      using h4(3) h(5) xs by (auto simp: versions_ok_def recovered_set_def split: if_splits)
    moreover have "h4 (last xs) \<noteq> None \<longrightarrow> files_of h4 (last xs) = files_of (vs_heap vs) (last xs)"
      using h4(3) h(6) c by (auto simp: files_of_def dom_def split: if_splits)
    ultimately show ?thesis using h4(1,2) b by (auto simp: builder_dtor_def)
    qed
    then show thesis using that by blast
  qed
  moreover have "files_of h4 a = {}" using h(3) h4(2) ne files_of_body[of h4 a h] by simp
  moreover have "files_of h4 x = files_of (vs_heap vs) x" if "x \<noteq> a" "h4 x \<noteq> None" for x
  proof (cases "x = last xs")
    case True
    then show ?thesis using h4(3) that by simp
  next
    case False
    then have "body h4 x = body (vs_heap vs) x" using h4(2) others that by (simp add: vs1 body_upd)
    then show ?thesis by (rule files_of_body)
  qed
  ultimately show ?thesis by blast
qed

section \<open>Recovering from a manifest\<close>

definition no_numbers :: recovered where
  "no_numbers = \<lparr>r_next_file = None, r_last_sequence = None, r_log_number = None, r_prev_log_number = None\<rparr>"

definition fresh_builder :: "nat \<Rightarrow> builder" where
  "fresh_builder base = \<lparr>b_base = base, b_levels = replicate kNumLevels \<lparr>b_deleted = {}, b_added = []\<rparr>\<rparr>"

lemma builder_apply_heap:
  "builder_apply e b (vs\<lparr>vs_heap := h\<rparr>) = map_option (\<lambda>(b', vs'). (b', vs'\<lparr>vs_heap := h\<rparr>)) (builder_apply e b vs)"
  by (auto simp: builder_apply_def bind_eq_None_conv bind_eq_Some_conv map_option_case split: option.split)

lemma apply_edits_heap:
  "apply_edits es b (vs\<lparr>vs_heap := h\<rparr>) = map_option (\<lambda>(b', vs'). (b', vs'\<lparr>vs_heap := h\<rparr>)) (apply_edits es b vs)"
proof (induction es arbitrary: b vs)
  case (Cons e es)
  then show ?case by (cases "builder_apply e b vs") (auto simp: builder_apply_heap)
qed simp

text \<open>The manifest that CURRENT names holds the edits, each record within its block.\<close>

definition manifest_holds :: "('w \<Rightarrow> bytes \<Rightarrow> bytes option) \<Rightarrow> bytes \<Rightarrow> bytes \<Rightarrow> version_edit list \<Rightarrow> 'w \<Rightarrow> bool" where
  "manifest_holds files name base es w \<longleftrightarrow> files w (current_file_name name) = Some (base @ [10])
     \<and> (\<exists>rs. files w (name @ cstr ''/'' @ base) = Some (layout 0 (log_pieces 0 rs)) \<and> unfragmented 0 rs \<and> list_all2 encodes rs es)"

lemma recover_installs:
  assumes env: "working_env (vs_env vs) files" and ok: "versions_ok vs xs" and a: "vs_heap vs a = None"
    and manifest: "manifest_holds files (vs_dbname vs) base es w"
    and cmp: "list_all (comparator_matches (vs_comparator vs)) es"
    and app: "apply_edits es (fresh_builder (last xs)) vs = Some (b, vs')"
    and r: "r = fold note_numbers es no_numbers" "r_next_file r \<noteq> None" "r_log_number r \<noteq> None" "r_last_sequence r \<noteq> None"
    and reuse: "\<not> opt_reuse_logs (vs_options vs)" and c: "vs_heap vs (last xs) = Some c"
  shows "\<exists>h w'. vs_recover a save vs w = Some (Status_Ok, True, recovered_set a r (vs_compact_pointer vs') h vs, w')
    \<and> files w' = files w
    \<and> versions_ok (recovered_set a r (vs_compact_pointer vs') h vs) ((if ver_refs c = 1 then butlast xs else xs) @ [a])
    \<and> files_of h a = {} \<and> (\<forall>x. x \<noteq> a \<longrightarrow> h x \<noteq> None \<longrightarrow> files_of h x = files_of (vs_heap vs) x)"
proof -
  have d3: "vs_current vs = Some (last xs)" by (rule versions_okD(3)[OF ok])
  let ?man = "vs_dbname vs @ cstr ''/'' @ base"
  obtain rs where rs: "files w ?man = Some (layout 0 (log_pieces 0 rs))" "unfragmented 0 rs" "list_all2 encodes rs es"
    and cur: "files w (current_file_name (vs_dbname vs)) = Some (base @ [10])"
    using manifest by (auto simp: manifest_holds_def)
  obtain w1 where w1: "read_file_to_string (vs_env vs) (current_file_name (vs_dbname vs)) w = Some (Status_Ok, base @ [10], w1)"
    "files w1 = files w" using read_file_works[OF env cur] by blast
  obtain h w2 ready remaining where o: "env_new_sequential_file (vs_env vs) ?man w1 = Some (Status_Ok, h, w2)" "files w2 = files w1"
    and opn: "open_for_reading (vs_env vs) files h (layout 0 (log_pieces 0 rs)) w2 ready remaining"
    using working_sequential[OF env, of w1 ?man] rs(1) w1(2) by auto
  then have src: "byte_source (env_sequential (vs_env vs) h) ready remaining"
    and rdy: "ready w2" "remaining w2 = layout 0 (log_pieces 0 rs)"
    and keep: "\<And>w3. ready w3 \<Longrightarrow> files w3 = files w2" unfolding open_for_reading_def by blast+
  let ?h1 = "(vs_heap vs)(last xs \<mapsto> c\<lparr>ver_refs := ver_refs c + 1\<rparr>)"
  let ?vs1 = "vs\<lparr>vs_heap := ?h1\<rparr>"
  obtain cps where vs': "vs' = vs\<lparr>vs_compact_pointer := cps\<rparr>" and base: "b_base b = last xs"
    using apply_edits_frame[OF app] by (auto simp: fresh_builder_def)
  have app1: "apply_edits es (fresh_builder (last xs)) ?vs1 = Some (b, vs'\<lparr>vs_heap := ?h1\<rparr>)"
    using app apply_edits_heap[of es "fresh_builder (last xs)" ?h1 vs] by simp
  obtain w3 where w3: "recover_loop (env_sequential (vs_env vs) h) Status_Ok [] [] (reader_ctor w2 True True 0) no_numbers
      (fresh_builder (last xs)) ?vs1 = Some (Status_Ok, r, b, vs'\<lparr>vs_heap := ?h1\<rparr>, w3)" "ready w3"
    using byte_source.recover_loop_manifest[OF src rdy rs(2,3) _ app1, of no_numbers] cmp r(1) by auto
  let ?w4 = "env_delete_sequential (vs_env vs) h w3"
  let ?n = "vs_next_file_number (mark_file_number_used (number_of (r_log_number r)) (mark_file_number_used (number_of (r_prev_log_number r)) vs))"
  let ?vs2 = "vs\<lparr>vs_heap := ?h1, vs_compact_pointer := cps, vs_next_file_number := ?n\<rparr>"
  have mark: "mark_file_number_used (number_of (r_log_number r))
      (mark_file_number_used (number_of (r_prev_log_number r)) (vs'\<lparr>vs_heap := ?h1\<rparr>)) = ?vs2"
    by (simp add: mark_file_number_used_def vs')
  obtain h3 h4 where inst: "install_recovered a ?man base r b save ?vs2 ?w4 = Some (True, recovered_set a r cps h3 vs, ?w4)"
    "builder_dtor b h3 = Some h4"
    "versions_ok (recovered_set a r cps h4 vs) ((if ver_refs c = 1 then butlast xs else xs) @ [a])" "files_of h4 a = {}"
    "\<forall>x. x \<noteq> a \<longrightarrow> h4 x \<noteq> None \<longrightarrow> files_of h4 x = files_of (vs_heap vs) x"
    using install_held[OF ok a c refl reuse base] by metis
  have "missing_entry r Status_Ok = Status_Ok" using r(2-4) by (auto simp: missing_entry_def)
  moreover have "builder_ctor (last xs) (vs_heap vs) = Some (fresh_builder (last xs), ?h1)"
    using c by (simp add: builder_ctor_def version_ref_def fresh_builder_def)
  moreover have "vs_heap (recovered_set a r cps h3 vs) = h3" "(recovered_set a r cps h3 vs)\<lparr>vs_heap := h4\<rparr> = recovered_set a r cps h4 vs"
    by (simp_all add: recovered_set_def)
  ultimately have "recover_manifest a ?man base h save vs w2 = Some (Status_Ok, True, recovered_set a r cps h4 vs, ?w4)"
    using d3 w3(1) inst(1,2) mark
    by (simp add: recover_manifest_def no_numbers_def[symmetric] Let_def) (simp add: vs')
  then have "vs_recover a save vs w = Some (Status_Ok, True, recovered_set a r cps h4 vs, ?w4)"
    using w1(1) o(1) by (simp add: vs_recover_def Let_def)
  moreover have "files ?w4 = files w" using env keep[OF w3(2)] o(2) w1(2) by simp
  moreover have "vs_compact_pointer vs' = cps" by (simp add: vs')
  ultimately show ?thesis using inst(3-5) by auto
qed

section \<open>Logging an edit\<close>

lemma build_version_blank:
  assumes ok: "versions_ok vs xs" and a: "vs_heap vs a = None"
  shows "build_version a e vs = map_option (\<lambda>(b, vs'). vs'\<lparr>vs_heap := (vs_heap vs)(a \<mapsto> blank_version)\<rparr>)
    (builder_apply e (fresh_builder (last xs)) vs)"
proof -
  note d = versions_okD[OF ok]
  obtain c where c: "vs_heap vs (last xs) = Some c" "held c" using d(5) by blast
  have "a \<noteq> last xs" using a c(1) by auto
  moreover have "last xs \<noteq> 0" using last_in_set[OF d(2)] d(7) by metis
  ultimately have ne: "a \<noteq> last xs" "last xs \<noteq> 0" by blast+
  let ?h1 = "(vs_heap vs)(a \<mapsto> version_ctor, last xs \<mapsto> c\<lparr>ver_refs := ver_refs c + 1\<rparr>)"
  have ctor: "builder_ctor (last xs) (vs_heap (new_version a vs)) = Some (fresh_builder (last xs), ?h1)"
    using c(1) ne by (simp add: builder_ctor_def version_ref_def fresh_builder_def new_version_def)
  have "(new_version a vs)\<lparr>vs_heap := ?h1\<rparr> = vs\<lparr>vs_heap := ?h1\<rparr>" by (simp add: new_version_def)
  then have applied: "builder_apply e (fresh_builder (last xs)) ((new_version a vs)\<lparr>vs_heap := ?h1\<rparr>)
      = map_option (\<lambda>(b', vs'). (b', vs'\<lparr>vs_heap := ?h1\<rparr>)) (builder_apply e (fresh_builder (last xs)) vs)"
    using builder_apply_heap[of e "fresh_builder (last xs)" ?h1 vs] by simp
  have un: "version_un_ref (last xs) (?h1(a \<mapsto> version_ctor)) = Some ((vs_heap vs)(a \<mapsto> version_ctor))"
  proof -
    have "(?h1(a \<mapsto> version_ctor))(last xs \<mapsto> c\<lparr>ver_refs := ver_refs c\<rparr>) = (vs_heap vs)(a \<mapsto> version_ctor)"
      using c(1) ne by (auto simp: fun_eq_iff)
    then show ?thesis using c ne by (simp add: version_un_ref_def dummy_versions_def held_def Let_def)
  qed
  show ?thesis
  proof (cases "builder_apply e (fresh_builder (last xs)) vs")
    case None
    then show ?thesis using d(3) ctor applied by (simp add: build_version_def Let_def new_version_def)
  next
    case (Some x)
    obtain b vs' where x: "x = (b, vs')" by force
    note frame = builder_apply_frame[OF Some[unfolded x]]
    have "b_base b = last xs" using frame by (simp add: fresh_builder_def)
    moreover have "?h1 a = Some version_ctor" using ne by simp
    ultimately show ?thesis using d(3) ctor applied Some x un ne
      by (simp add: build_version_def Let_def builder_save_to_def builder_dtor_def finalize_at_def blank_version_def
          del: fun_upd_apply) (simp add: new_version_def)
  qed
qed

lemma open_manifest_frame:
  "open_manifest vs w = Some (s, name, vs', w') \<Longrightarrow> \<exists>f l. vs' = vs\<lparr>vs_descriptor_file := f, vs_descriptor_log := l\<rparr>"
  by (cases vs) (auto simp: open_manifest_def bind_eq_Some_conv split: if_splits)

lemma write_edit_frame:
  "write_edit e vs w = Some (s, vs', w') \<Longrightarrow> \<exists>l. vs' = vs\<lparr>vs_descriptor_log := l\<rparr>"
  by (auto simp: write_edit_def bind_eq_Some_conv)

text \<open>A version that is in no list cannot be deleted: its destructor writes through null links.\<close>

lemma blank_dtor: "h a = Some blank_version \<Longrightarrow> version_dtor a h = None"
  by (simp add: version_dtor_def set_ver_next_def blank_version_def finalize_version_same version_ctor_def)

lemma log_outcome:
  assumes ok: "versions_ok vs xs" and a: "vs_heap vs a = None" and c: "vs_heap vs (last xs) = Some c"
    and run: "log_any_apply a e vs w = Some (s, e1, vs1, w1)"
  shows "is_ok s \<and> complete_edit e vs = Some e1
    \<and> (\<exists>b vs' f l h. builder_apply e1 (fresh_builder (last xs)) vs = Some (b, vs')
        \<and> vs1 = vs'\<lparr>vs_descriptor_file := f, vs_descriptor_log := l, vs_heap := h, vs_current := Some a,
            vs_log_number := log_number e1, vs_prev_log_number := prev_log_number e1\<rparr>
        \<and> versions_ok vs1 ((if ver_refs c = 1 then butlast xs else xs) @ [a]) \<and> files_of h a = {}
        \<and> (\<forall>x. x \<noteq> a \<longrightarrow> x \<noteq> last xs \<longrightarrow> body h x = body (vs_heap vs) x)
        \<and> (ver_refs c \<noteq> 1 \<longrightarrow> (\<exists>c'. h (last xs) = Some c' \<and> ver_files c' = ver_files c)))"
proof -
  obtain vsa where e1: "complete_edit e vs = Some e1" and vsa: "build_version a e1 vs = Some vsa"
    using run by (auto simp: log_any_apply_def bind_eq_Some_conv Let_def split: if_splits prod.splits)
  obtain b vs' where ap: "builder_apply e1 (fresh_builder (last xs)) vs = Some (b, vs')"
    and vsa': "vsa = vs'\<lparr>vs_heap := (vs_heap vs)(a \<mapsto> blank_version)\<rparr>"
    using vsa build_version_blank[OF ok a, of e1] by auto
  obtain cps where vs': "vs' = vs\<lparr>vs_compact_pointer := cps\<rparr>" using builder_apply_frame[OF ap] by auto
  obtain s1 name vsb wb where b: "open_manifest vsa w = Some (s1, name, vsb, wb)"
    using run e1 vsa by (auto simp: log_any_apply_def bind_eq_Some_conv)
  obtain s2 vsc wc where cc: "(if is_ok s1 then write_edit e1 vsb wb else Some (s1, vsb, wb)) = Some (s2, vsc, wc)"
    using run e1 vsa b by (auto simp: log_any_apply_def bind_eq_Some_conv)
  have "\<exists>f l. vsc = vsa\<lparr>vs_descriptor_file := f, vs_descriptor_log := l\<rparr>"
    using open_manifest_frame[OF b] cc write_edit_frame[of e1 vsb wb s2 vsc wc] by (auto split: if_splits)
  then obtain f l where vsc: "vsc = vs\<lparr>vs_compact_pointer := cps, vs_heap := (vs_heap vs)(a \<mapsto> blank_version),
      vs_descriptor_file := f, vs_descriptor_log := l\<rparr>" by (auto simp: vsa' vs')
  obtain s3 wd where dd: "(if is_ok s2 \<and> name \<noteq> [] then set_current_file (vs_env vsc) (vs_dbname vsc) (vs_manifest_file_number vsc) wc
      else Some (s2, wc)) = Some (s3, wd)"
    using run e1 vsa b cc by (auto simp: log_any_apply_def bind_eq_Some_conv)
  have ok3: "is_ok s3"
  proof (rule ccontr)
    assume "\<not> is_ok s3"
    moreover have "version_dtor a (vs_heap vsc) = None" by (rule blank_dtor) (simp add: vsc)
    ultimately have "log_any_apply a e vs w = None"
      using e1 vsa b cc dd by (simp add: log_any_apply_def)
    with run show False by simp
  qed
  let ?vs2 = "vs\<lparr>vs_compact_pointer := cps, vs_descriptor_file := f, vs_descriptor_log := l\<rparr>"
  have ok2: "versions_ok ?vs2 xs" using ok by (simp add: versions_ok_def)
  obtain h where h: "append_version a (?vs2\<lparr>vs_heap := (vs_heap ?vs2)(a \<mapsto> blank_version)\<rparr>) = Some (?vs2\<lparr>vs_heap := h, vs_current := Some a\<rparr>)"
    "versions_ok (?vs2\<lparr>vs_heap := h, vs_current := Some a\<rparr>) ((if ver_refs c = 1 then butlast xs else xs) @ [a])"
    "files_of h a = {}" "\<forall>x. x \<noteq> a \<longrightarrow> x \<noteq> last xs \<longrightarrow> body h x = body (vs_heap ?vs2) x"
    "ver_refs c \<noteq> 1 \<longrightarrow> (\<exists>c'. h (last xs) = Some c' \<and> ver_refs c' = ver_refs c - 1 \<and> ver_files c' = ver_files c)"
    using append_blank[OF ok2, of a c] a c by auto
  have "?vs2\<lparr>vs_heap := (vs_heap ?vs2)(a \<mapsto> blank_version)\<rparr> = vsc" by (simp add: vsc)
  then have ap2: "append_version a vsc = Some (?vs2\<lparr>vs_heap := h, vs_current := Some a\<rparr>)" using h(1) by (simp only:)
  have "log_any_apply a e vs w = map_option (\<lambda>vs4. (s3, e1, vs4\<lparr>vs_log_number := log_number e1, vs_prev_log_number := prev_log_number e1\<rparr>, wd))
      (append_version a vsc)"
    using e1 vsa b cc dd ok3 by (simp add: log_any_apply_def)
  then have res: "s = s3" "vs1 = ?vs2\<lparr>vs_heap := h, vs_current := Some a, vs_log_number := log_number e1, vs_prev_log_number := prev_log_number e1\<rparr>"
    using run unfolding ap2 by (simp_all del: version_set.update_convs)
  have "versions_ok vs1 ((if ver_refs c = 1 then butlast xs else xs) @ [a])"
    using h(2) by (simp add: versions_ok_def res(2))
  moreover have "is_ok s" using ok3 res(1) by simp
  moreover have "vs1 = vs'\<lparr>vs_descriptor_file := f, vs_descriptor_log := l, vs_heap := h, vs_current := Some a,
      vs_log_number := log_number e1, vs_prev_log_number := prev_log_number e1\<rparr>" by (simp add: res(2) vs')
  moreover have "\<forall>x. x \<noteq> a \<longrightarrow> x \<noteq> last xs \<longrightarrow> body h x = body (vs_heap vs) x" using h(4) by simp
  ultimately show ?thesis using e1 ap h(3,5) by blast
qed

section \<open>Writing a manifest\<close>

lemma two_records: "layout 0 (log_pieces 0 [r0, r1]) = layout 0 (pieces True 0 r0)
    @ layout (layout_end 0 (pieces True 0 r0)) (pieces True (layout_end 0 (pieces True 0 r0)) r1)"
  by (simp add: layout_append)

lemma manifest_names:
  assumes "0 < n"
  shows "name @ cstr ''/'' @ manifest_base n \<noteq> current_file_name name"
    and "Some (name @ cstr ''/'' @ manifest_base n) \<noteq> temp_file_name name n"
proof -
  show "name @ cstr ''/'' @ manifest_base n \<noteq> current_file_name name"
    by (simp add: manifest_base_def current_file_name_def)
  obtain ch r where "format_06llu n = ch # r" using format_06llu_exact(3)[of n] by (cases "format_06llu n") auto
  moreover from this have "is_digit ch" by (rule formatted_head)
  ultimately show "Some (name @ cstr ''/'' @ manifest_base n) \<noteq> temp_file_name name n"
    using assms by (auto simp: manifest_base_def temp_file_name_def make_file_name_def is_digit_def)
qed

text \<open>The first edit of a version set starts a manifest: a snapshot record, then the edit.\<close>

lemma first_edit_outcome:
  assumes env: "working_env (vs_env vs) files" and ok: "versions_ok vs xs" and a: "vs_heap vs a = None"
    and lazy: "vs_descriptor_file vs = None" "vs_descriptor_log vs = None" and n: "0 < vs_manifest_file_number vs"
    and e1: "complete_edit e vs = Some e1" and ap: "builder_apply e1 (fresh_builder (last xs)) vs \<noteq> None"
    and c: "vs_heap vs (last xs) = Some c" and plain: "compact_pointers e1 = []"
    and r0: "ve_encode_to (snapshot_edit vs c) [] = Some r0" and r1: "ve_encode_to e1 [] = Some r1"
  shows "\<exists>vs1 w1. log_any_apply a e vs w = Some (Status_Ok, e1, vs1, w1)
    \<and> files w1 (current_file_name (vs_dbname vs)) = Some (manifest_base (vs_manifest_file_number vs) @ [10])
    \<and> files w1 (vs_dbname vs @ cstr ''/'' @ manifest_base (vs_manifest_file_number vs)) = Some (layout 0 (log_pieces 0 [r0, r1]))"
proof -
  note d = versions_okD[OF ok]
  let ?n = "vs_manifest_file_number vs"
  let ?man = "vs_dbname vs @ cstr ''/'' @ manifest_base ?n"
  obtain b vs' where ap': "builder_apply e1 (fresh_builder (last xs)) vs = Some (b, vs')" using ap by auto
  have vs': "vs' = vs" using ap' plain by (auto simp: builder_apply_def bind_eq_Some_conv)
  let ?vs1 = "vs\<lparr>vs_heap := (vs_heap vs)(a \<mapsto> blank_version)\<rparr>"
  have bv: "build_version a e1 vs = Some ?vs1" using build_version_blank[OF ok a] ap' vs' by simp
  have ne: "last xs \<noteq> a" using c a by auto
  obtain h w1 good where o: "env_new_writable_file (vs_env vs) ?man w = Some (Status_Ok, h, w1)" "files w1 = (files w)(?man \<mapsto> [])"
    and opn: "open_for_writing (vs_env vs) files h ?man w1 good" using working_writable[OF env] by blast
  have sink: "byte_sink (env_writable (vs_env vs) h) good (\<lambda>w. the (files w ?man))" and g1: "good w1"
    and after: "\<And>w2. good w2 \<Longrightarrow> files w2 = (files w1)(?man \<mapsto> the (files w2 ?man))"
    and sync: "\<And>w2. good w2 \<Longrightarrow> \<exists>w3. wf_sync (env_writable (vs_env vs) h) w2 = Some (Status_Ok, w3) \<and> good w3 \<and> files w3 = files w2"
    using opn unfolding open_for_writing_def by blast+
  obtain l2 w2 where w2: "add_record (env_writable (vs_env vs) h) r0 writer_ctor w1 = Some (Status_Ok, l2, w2)" "good w2" "writer_ok l2"
    "block_offset l2 = layout_end 0 (pieces True 0 r0)"
    "the (files w2 ?man) = the (files w1 ?man) @ layout 0 (pieces True 0 r0)"
    using byte_sink.add_record_works[OF sink g1 writer_ctor_ok(1), of r0] by (auto simp: writer_ctor_def)
  obtain l3 w3 where w3: "add_record (env_writable (vs_env vs) h) r1 l2 w2 = Some (Status_Ok, l3, w3)" "good w3"
    "the (files w3 ?man) = the (files w2 ?man) @ layout (block_offset l2) (pieces True (block_offset l2) r1)"
    using byte_sink.add_record_works[OF sink w2(2,3), of r1] by blast
  obtain w4 where w4: "wf_sync (env_writable (vs_env vs) h) w3 = Some (Status_Ok, w4)" "files w4 = files w3" using sync[OF w3(2)] by blast
  have man4: "files w4 ?man = Some (layout 0 (log_pieces 0 [r0, r1]))"
    using after[OF w3(2)] w4(2) w3(3) w2(4,5) o(2) two_records[of r0 r1] by (metis append_Nil fun_upd_same option.sel)
  let ?vs2 = "?vs1\<lparr>vs_descriptor_file := Some h, vs_descriptor_log := Some l2\<rparr>"
  let ?vs3 = "?vs1\<lparr>vs_descriptor_file := Some h, vs_descriptor_log := Some l3\<rparr>"
  have om: "open_manifest ?vs1 w = Some (Status_Ok, ?man, ?vs2, w2)"
  proof -
    have "snapshot_edit ?vs1 c = snapshot_edit vs c" by (simp add: snapshot_edit_def)
    then have "write_snap_shot (env_writable (vs_env vs) h) writer_ctor ?vs1 w1 = Some (Status_Ok, l2, w2)"
      using d(3) c ne r0 w2(1) by (simp add: write_snap_shot_def)
    then show ?thesis using lazy o(1) descriptor_name[OF n] by (simp add: open_manifest_def)
  qed
  have we: "write_edit e1 ?vs2 w2 = Some (Status_Ok, ?vs3, w4)" using r1 w3(1) w4(1) by (simp add: write_edit_def)
  obtain w5 where w5: "set_current_file (vs_env vs) (vs_dbname vs) ?n w4 = Some (Status_Ok, w5)"
    "files w5 = (files w4)(the (temp_file_name (vs_dbname vs) ?n) := None, current_file_name (vs_dbname vs) \<mapsto> manifest_base ?n @ [10])"
    using set_current_works[OF env n] by blast
  have "?man \<noteq> the (temp_file_name (vs_dbname vs) ?n)" using manifest_names(2)[OF n, of "vs_dbname vs"] n by (auto simp: temp_file_name_def)
  then have files5: "files w5 ?man = Some (layout 0 (log_pieces 0 [r0, r1]))"
    "files w5 (current_file_name (vs_dbname vs)) = Some (manifest_base ?n @ [10])"
    using w5(2) man4 manifest_names(1)[OF n, of "vs_dbname vs"] by auto
  let ?vd = "vs\<lparr>vs_descriptor_file := Some h, vs_descriptor_log := Some l3\<rparr>"
  have "versions_ok ?vd xs" using ok by (simp add: versions_ok_def)
  then obtain hh where hh: "append_version a (?vd\<lparr>vs_heap := (vs_heap ?vd)(a \<mapsto> blank_version)\<rparr>) = Some (?vd\<lparr>vs_heap := hh, vs_current := Some a\<rparr>)"
    using append_blank[of ?vd xs a c] a c by auto
  have "?vd\<lparr>vs_heap := (vs_heap ?vd)(a \<mapsto> blank_version)\<rparr> = ?vs3" by simp
  with hh have ap3: "append_version a ?vs3 = Some (?vd\<lparr>vs_heap := hh, vs_current := Some a\<rparr>)" by (simp only:)
  have "?man \<noteq> []" by simp
  then have "log_any_apply a e vs w = map_option (\<lambda>vs4. (Status_Ok, e1, vs4\<lparr>vs_log_number := log_number e1, vs_prev_log_number := prev_log_number e1\<rparr>, w5))
      (append_version a ?vs3)"
    using e1 bv om we w5(1) by (simp add: log_any_apply_def del: cstr_Cons)
  then show ?thesis using ap3 files5 by simp
qed

end
