(* ===== verification/Version_Spec.thy ===== *)
theory Version_Spec
  imports Version_Recovery
begin

text \<open>The properties of the version set and of its manifest.\<close>

section \<open>A version set\<close>

text \<open>
  The constructor of the code cannot make one (see \<open>opening_never_succeeds\<close>), so the examples start
  from the version set it was meant to make: the dummy is linked to itself before the first
  version is appended.
\<close>

definition linked_dummy :: version where
  "linked_dummy = version_ctor\<lparr>ver_next := Some 1, ver_prev := Some 1\<rparr>"

definition sample_set :: "'w env \<Rightarrow> u64 \<Rightarrow> 'w version_set" where
  "sample_set e manifest = \<lparr>vs_env = e, vs_dbname = cstr ''db'', vs_options = options_ctor e, vs_comparator = bytewise_comparator,
     vs_next_file_number = 4, vs_manifest_file_number = manifest, vs_last_sequence = 0, vs_log_number = 0,
     vs_prev_log_number = 0, vs_descriptor_file = None, vs_descriptor_log = None,
     vs_heap = [0 \<mapsto> linked_dummy, 1 \<mapsto> version_ctor\<lparr>ver_next := Some 0, ver_prev := Some 0, ver_refs := 1\<rparr>],
     vs_current = Some 1, vs_compact_pointer = replicate kNumLevels []\<rparr>"

lemma sample_set_ok: "versions_ok (sample_set e m) [1]"
  by (auto simp: versions_ok_def sample_set_def version_ring_def ring_def next_of_def prev_of_def linked_dummy_def held_def
      version_ctor_def list_all_iff)

section \<open>Failed recoveries\<close>

lemma recover_loop_frame:
  assumes "recover_loop sf s rec scr rd r b vs = Some (s', r', b', vs', w')"
  shows "b_base b' = b_base b \<and> (\<exists>cps. vs' = vs\<lparr>vs_compact_pointer := cps\<rparr>)"
proof (rule recover_loop.raw_induct[where P = "\<lambda>sf s rec scr rd r b vs (s', r', b', vs', w'). b_base b' = b_base b \<and>
    (\<exists>cps. vs' = vs\<lparr>vs_compact_pointer := cps\<rparr>)", OF _ assms, simplified prod.case], goal_cases)
  case (1 recurse sf s rec scr rd r b vs y)
  obtain more rec' scr' rd' where rd: "read_record sf rec scr rd = Some (more, rec', scr', rd')"
    using 1(2) by (auto simp: bind_eq_Some_conv)
  let ?s1 = "reported (drop (length (reports rd)) (reports rd')) s"
  show ?case
  proof (cases "more \<and> is_ok ?s1")
    case False
    then show ?thesis using 1(2) rd by (auto simp: Let_def intro: exI[of _ "vs_compact_pointer vs"])
  next
    case True
    obtain s2 e where e: "ve_decode_from rec' version_edit_ctor = (s2, e)" by force
    let ?s3 = "check_comparator e vs s2"
    obtain b1 vs1 where ap: "(if is_ok ?s3 then builder_apply e b vs else Some (b, vs)) = Some (b1, vs1)"
      and rest: "recurse sf ?s3 rec' scr' rd' (note_numbers e r) b1 vs1 = Some y"
      using 1(2) rd True e by (auto simp: Let_def bind_eq_Some_conv simp del: if_split) 
    have "b_base b1 = b_base b \<and> (\<exists>cps. vs1 = vs\<lparr>vs_compact_pointer := cps\<rparr>)"
      using ap builder_apply_frame[of e b vs b1 vs1] by (auto split: if_splits intro: exI[of _ "vs_compact_pointer vs"])
    then show ?thesis using 1(1)[OF rest] by (cases y) auto
  qed
qed

lemma mark_frame: "\<exists>n. mark_file_number_used k (mark_file_number_used j vs) = vs\<lparr>vs_next_file_number := n\<rparr>"
  by (auto simp: mark_file_number_used_def intro: exI[of _ "vs_next_file_number vs"])

text \<open>A builder that is made and destroyed leaves the heap as it was.\<close>

lemma builder_released:
  assumes "versions_ok vs xs" and "builder_ctor (last xs) (vs_heap vs) = Some (b, h1)"
    and "b_base b' = last xs" and "builder_dtor b' h1 = Some h2"
  shows "h2 = vs_heap vs"
proof -
  note d = versions_okD[OF assms(1)]
  obtain c where c: "vs_heap vs (last xs) = Some c" "held c" using d(5) by blast
  then have h1: "h1 = (vs_heap vs)(last xs \<mapsto> c\<lparr>ver_refs := ver_refs c + 1\<rparr>)"
    using assms(2) by (auto simp: builder_ctor_def version_ref_def)
  have "h1(last xs \<mapsto> c\<lparr>ver_refs := ver_refs c\<rparr>) = vs_heap vs" using c by (auto simp: h1 fun_eq_iff)
  then show ?thesis using assms(3,4) c by (auto simp: builder_dtor_def version_un_ref_def h1 held_def Let_def split: if_splits)
qed

lemma failed_manifest:
  assumes ok: "versions_ok vs xs" and run: "recover_manifest a dsc cur h save vs w = Some (s, save', vs', w')" and "\<not> is_ok s"
  shows "save' = save \<and> (\<exists>cps n. vs' = vs\<lparr>vs_compact_pointer := cps, vs_next_file_number := n\<rparr>)"
proof -
  note d = versions_okD[OF ok]
  obtain b h1 where b: "builder_ctor (last xs) (vs_heap vs) = Some (b, h1)"
    using run d(3) by (auto simp: recover_manifest_def bind_eq_Some_conv)
  obtain s0 r b1 vs1 w1 where loop: "recover_loop (env_sequential (vs_env vs) h) Status_Ok [] [] (reader_ctor w True True 0)
         no_numbers b (vs\<lparr>vs_heap := h1\<rparr>) = Some (s0, r, b1, vs1, w1)"
    using run d(3) b by (auto simp: recover_manifest_def bind_eq_Some_conv no_numbers_def)
  have "b_base b = last xs" using b by (auto simp: builder_ctor_def)
  with recover_loop_frame[OF loop] obtain cps where
    vs1: "vs1 = vs\<lparr>vs_heap := h1, vs_compact_pointer := cps\<rparr>" and base: "b_base b1 = last xs" by metis
  let ?vs2 = "mark_file_number_used (number_of (r_log_number r)) (mark_file_number_used (number_of (r_prev_log_number r)) vs1)"
  obtain n where n: "?vs2 = vs1\<lparr>vs_next_file_number := n\<rparr>" using mark_frame by blast
  have "missing_entry r s0 = s \<and> save' = save \<and> (\<exists>h4. builder_dtor b1 (vs_heap ?vs2) = Some h4 \<and> vs' = ?vs2\<lparr>vs_heap := h4\<rparr>)"
    using run d(3) b loop assms(3)
    by (auto simp: recover_manifest_def bind_eq_Some_conv no_numbers_def[symmetric] Let_def split: if_splits)
  then obtain h4 where h4: "builder_dtor b1 h1 = Some h4" "vs' = ?vs2\<lparr>vs_heap := h4\<rparr>" "save' = save"
    unfolding n by (auto simp: vs1)
  have "h4 = vs_heap vs" by (rule builder_released[OF ok b base h4(1)])
  then have "vs' = vs\<lparr>vs_compact_pointer := cps, vs_next_file_number := n\<rparr>" unfolding h4(2) n by (simp add: vs1)
  with h4(3) show ?thesis by blast
qed

section \<open>Scores\<close>

definition level_score :: "version \<Rightarrow> nat \<Rightarrow> rat" where
  "level_score v level = of_nat (unat (total_file_size (ver_files v ! level))) / (10 * 1048576 * 10 ^ (level - 1))"

declare max_bytes_loop.simps [simp del]

lemma max_bytes_power: "max_bytes_loop r level = r * 10 ^ (level - 1)"
proof (induction r level rule: max_bytes_loop.induct)
  case (1 r level)
  show ?case
  proof (cases "1 < level")
    case True
    moreover from this obtain n where "level = Suc (Suc n)" by (metis One_nat_def less_imp_Suc_add plus_1_eq_Suc add_Suc)
    ultimately show ?thesis using 1 by (subst max_bytes_loop.simps) simp
  qed (subst max_bytes_loop.simps, simp)
qed

lemma finalize_step_score:
  "0 < level \<Longrightarrow> finalize_step (ver_files v) level best =
     (if level_score v level > snd best then (int level, level_score v level) else best)"
  by (simp add: finalize_step_def level_score_def max_bytes_for_level_def max_bytes_power Let_def)

lemma finalize_fold:
  "\<exists>l\<in>{1..Suc n}. fold (finalize_step (ver_files v)) [0..<Suc (Suc n)] (-1, -1) = (int l, level_score v l)
     \<and> (\<forall>k\<in>{1..Suc n}. level_score v k \<le> level_score v l) \<and> (\<forall>k\<in>{1..<l}. level_score v k < level_score v l)"
proof (induction n)
  case 0
  have "0 \<le> level_score v 1" unfolding level_score_def by (intro divide_nonneg_nonneg of_nat_0_le_iff) simp
  then have "level_score v 1 > -1" by linarith
  then show ?case by (simp add: finalize_step_score upt_rec finalize_step_def[of _ 0])
next
  case (Suc n)
  then obtain l where l: "l \<in> {1..Suc n}" "fold (finalize_step (ver_files v)) [0..<Suc (Suc n)] (-1, -1) = (int l, level_score v l)"
    "\<forall>k\<in>{1..Suc n}. level_score v k \<le> level_score v l" "\<forall>k\<in>{1..<l}. level_score v k < level_score v l" by blast
  let ?m = "Suc (Suc n)"
  have step: "fold (finalize_step (ver_files v)) [0..<Suc ?m] (-1, -1)
      = (if level_score v ?m > level_score v l then (int ?m, level_score v ?m) else (int l, level_score v l))"
    using l(2) by (simp add: finalize_step_score)
  show ?case
  proof (cases "level_score v ?m > level_score v l")
    case True
    have "level_score v k < level_score v ?m" if "k \<in> {1..Suc n}" for k using l(3) that True by fastforce
    then have "level_score v k < level_score v ?m" if "k \<in> {1..<?m}" for k using that by auto
    then show ?thesis using True unfolding step
      by (intro bexI[of _ ?m] conjI ballI) (auto simp: le_less Suc_le_eq less_Suc_eq)
  next
    case False
    then show ?thesis using l unfolding step by (intro bexI[of _ l]) (auto simp: le_Suc_eq)
  qed
qed

lemma un_ref_versions:
  assumes ok: "versions_ok vs xs" and c: "c \<in> set xs" "vs_heap vs c = Some v" "c = last xs \<longrightarrow> ver_refs v \<noteq> 1"
  shows "\<exists>h. version_un_ref c (vs_heap vs) = Some h
        \<and> versions_ok (vs\<lparr>vs_heap := h\<rparr>) (if ver_refs v = 1 then remove1 c xs else xs)"
proof -
  note d = versions_okD[OF ok]
  obtain ys zs where xs: "xs = ys @ c # zs" using c(1) by (metis split_list)
  have cd: "c \<notin> set ys" "c \<notin> set zs" using d(6) xs by auto
  obtain h where h: "version_un_ref c (vs_heap vs) = Some h"
    "if ver_refs v = 1 then version_ring h (ys @ zs) \<and> dom h = dom (vs_heap vs) - {c}
     else version_ring h (ys @ c # zs) \<and> h = (vs_heap vs)(c \<mapsto> v\<lparr>ver_refs := ver_refs v - 1\<rparr>)"
    using un_ref_ring[OF d(1)[unfolded xs] c(2)] by blast
  have "versions_ok (vs\<lparr>vs_heap := h\<rparr>) (if ver_refs v = 1 then remove1 c xs else xs)"
  proof (cases "ver_refs v = 1")
    case True
    then have "zs \<noteq> []" using c(3) xs by auto
    then have "last (ys @ zs) = last xs" "ys @ zs \<noteq> []" by (simp_all add: xs)
    moreover have "c \<noteq> 0" using c(1) d(7) by metis
    ultimately show ?thesis using True h(2) d(3,4) xs cd by (auto simp: versions_ok_def remove1_append)
  next
    case False
    then show ?thesis using h(2) d(2,3,4) xs c(2) by (auto simp: versions_ok_def)
  qed
  with h(1) show ?thesis by blast
qed

lemma ref_versions:
  assumes ok: "versions_ok vs xs" and c: "c \<in> set xs"
  shows "\<exists>h. version_ref c (vs_heap vs) = Some h \<and> versions_ok (vs\<lparr>vs_heap := h\<rparr>) xs"
proof -
  note d = versions_okD[OF ok]
  obtain h v where "vs_heap vs c = Some v" "version_ref c (vs_heap vs) = Some h" "version_ring h xs"
    "h = (vs_heap vs)(c \<mapsto> v\<lparr>ver_refs := ver_refs v + 1\<rparr>)" using ref_ring[OF d(1) c] by blast
  then show ?thesis using d(2,3,4) by (auto simp: versions_ok_def)
qed

section \<open>Edits in a manifest\<close>

lemma complete_edit_numbers:
  assumes "complete_edit e vs = Some e1"
  shows "has_log_number e1 \<and> has_prev_log_number e1 \<and> has_next_file_number e1 \<and> has_last_sequence e1
    \<and> next_file_number e1 = vs_next_file_number vs \<and> last_sequence e1 = vs_last_sequence vs
    \<and> has_comparator e1 = has_comparator e \<and> comparator_str e1 = comparator_str e \<and> new_files e1 = new_files e
    \<and> (plain_edit e \<longrightarrow> plain_edit e1)"
proof -
  let ?e0 = "if has_log_number e then e else set_log_number (vs_log_number vs) e"
  define e0 where "e0 = ?e0"
  have e0: "e0 = e \<and> has_log_number e \<or> e0 = set_log_number (vs_log_number vs) e"
    "e1 = set_last_sequence (vs_last_sequence vs) (set_next_file (vs_next_file_number vs)
      (if \<not> has_prev_log_number e0 then set_prev_log_number (vs_prev_log_number vs) e0 else e0))"
    using assms by (simp_all add: e0_def complete_edit_def Let_def split: if_splits)
  have "has_log_number e0 \<and> has_comparator e0 = has_comparator e \<and> comparator_str e0 = comparator_str e \<and> new_files e0 = new_files e
      \<and> (plain_edit e \<longrightarrow> plain_edit e0)"
    using e0(1) by (elim disjE) (simp_all add: set_log_number_def plain_edit_def)
  then show ?thesis unfolding e0(2)
    by (cases "has_prev_log_number e0")
      (simp_all add: set_prev_log_number_def set_next_file_def set_last_sequence_def plain_edit_def)
qed

lemma snapshot_blank:
  assumes "ver_files c = replicate kNumLevels []" and "vs_compact_pointer vs = replicate kNumLevels []"
  shows "snapshot_edit vs c = set_comparator_name (comparator_name (vs_comparator vs)) version_edit_ctor"
proof -
  have "snapshot_files i (replicate n []) e = e" "snapshot_pointers i (replicate n []) e = e" for i n e
    by (induction n arbitrary: i) auto
  then show ?thesis using assms by (simp add: snapshot_edit_def)
qed

lemma snapshot_plain:
  "length name < 2 ^ 32 \<Longrightarrow> plain_edit (set_comparator_name name version_edit_ctor)"
  by (simp add: plain_edit_def set_comparator_name_def version_edit_ctor_def ve_clear_def slice_to_string_def)

lemma two_fit:
  "length r0 + length r1 + 2 * kHeaderSize \<le> kBlockSize \<Longrightarrow> unfragmented 0 [r0, r1]"
  by (auto simp: start_of_def log_sizes)

section \<open>Properties\<close>

text \<open>
  C8. The list of versions stays well formed: every version is linked both ways from the dummy,
  referenced, and nothing else is allocated.  Referencing a version, dropping a reference that is
  not the current version's only one (the last reference deletes the version), and making a new
  version current keep this; and the set of live files is the union over the listed versions.
\<close>

theorem version_list_well_formed:
  assumes "versions_ok vs xs"
  shows "(c \<in> set xs \<longrightarrow> (\<exists>h. version_ref c (vs_heap vs) = Some h \<and> versions_ok (vs\<lparr>vs_heap := h\<rparr>) xs))
    \<and> (c \<in> set xs \<and> vs_heap vs c = Some v \<and> (c = last xs \<longrightarrow> ver_refs v \<noteq> 1) \<longrightarrow>
        (\<exists>h. version_un_ref c (vs_heap vs) = Some h
          \<and> versions_ok (vs\<lparr>vs_heap := h\<rparr>) (if ver_refs v = 1 then remove1 c xs else xs)))
    \<and> (vs_heap vs a = None \<and> vs_heap vs (last xs) = Some u \<longrightarrow>
        (\<exists>vs'. Option.bind (finalize_at a (new_version a vs)) (append_version a) = Some vs' \<and> vs_current vs' = Some a
          \<and> versions_ok vs' ((if ver_refs u = 1 then butlast xs else xs) @ [a])))
    \<and> add_live_files vs live = Some (live \<union> (\<Union>x\<in>set xs. files_of (vs_heap vs) x))"
proof (intro conjI impI)
  show "\<exists>h. version_ref c (vs_heap vs) = Some h \<and> versions_ok (vs\<lparr>vs_heap := h\<rparr>) xs" if "c \<in> set xs"
    by (rule ref_versions[OF assms that])
  show "\<exists>h. version_un_ref c (vs_heap vs) = Some h \<and> versions_ok (vs\<lparr>vs_heap := h\<rparr>) (if ver_refs v = 1 then remove1 c xs else xs)"
    if "c \<in> set xs \<and> vs_heap vs c = Some v \<and> (c = last xs \<longrightarrow> ver_refs v \<noteq> 1)"
    using un_ref_versions[OF assms] that by blast
  show "add_live_files vs live = Some (live \<union> (\<Union>x\<in>set xs. files_of (vs_heap vs) x))"
    by (rule add_live_ring[OF versions_okD(1)[OF assms]])
  assume a: "vs_heap vs a = None \<and> vs_heap vs (last xs) = Some u"
  have "finalize_at a (new_version a vs) = Some (vs\<lparr>vs_heap := (vs_heap vs)(a \<mapsto> blank_version)\<rparr>)"
    by (simp add: finalize_at_def new_version_def blank_version_def)
  then show "\<exists>vs'. Option.bind (finalize_at a (new_version a vs)) (append_version a) = Some vs' \<and> vs_current vs' = Some a
          \<and> versions_ok vs' ((if ver_refs u = 1 then butlast xs else xs) @ [a])"
    using append_blank[OF assms, of a u] a by auto
qed

theorem version_list_well_formed_witness:
  "(\<exists>vs'. Option.bind (finalize_at 2 (new_version 2 (sample_set mem_env 1))) (append_version 2) = Some vs'
      \<and> versions_ok vs' [2])
    \<and> add_live_files (sample_set mem_env 1) {5} = Some {5}"
  using version_list_well_formed[OF sample_set_ok, of 1 mem_env 1 _ 2 "version_ctor\<lparr>ver_next := Some 0, ver_prev := Some 0, ver_refs := 1\<rparr>" "{5}"]
  by (auto simp: sample_set_def files_of_def version_ctor_def)

text \<open>
  C14. A recovery that returns an error has no effect: the current version, the versions, the log,
  manifest and sequence numbers are as before, and it does not ask for a new manifest.  Only the
  next file number and the compaction pointers may have changed.
\<close>

theorem failed_recovery_keeps_versions:
  assumes "versions_ok vs xs" and "vs_recover a save vs w = Some (s, save', vs', w')" and "\<not> is_ok s"
  shows "save' = save \<and> (\<exists>cps n. vs' = vs\<lparr>vs_compact_pointer := cps, vs_next_file_number := n\<rparr>)"
proof -
  have same: "\<exists>cps n. vs = vs\<lparr>vs_compact_pointer := cps, vs_next_file_number := n\<rparr>"
    by (intro exI[of _ "vs_compact_pointer vs"] exI[of _ "vs_next_file_number vs"]) simp
  obtain s1 current w1 where r: "read_file_to_string (vs_env vs) (current_file_name (vs_dbname vs)) w = Some (s1, current, w1)"
    using assms(2) by (auto simp: vs_recover_def bind_eq_Some_conv)
  show ?thesis
  proof (cases "is_ok s1 \<and> current \<noteq> [] \<and> last current = 10")
    case False
    then have "vs' = vs \<and> save' = save" using assms(2) r by (cases "is_ok s1") (auto simp: vs_recover_def split: if_splits)
    with same show ?thesis by auto
  next
    case True
    let ?dsc = "vs_dbname vs @ cstr ''/'' @ butlast current"
    obtain s2 h w2 where o: "env_new_sequential_file (vs_env vs) ?dsc w1 = Some (s2, h, w2)"
      using assms(2) r True by (auto simp: vs_recover_def bind_eq_Some_conv Let_def)
    show ?thesis
    proof (cases "is_ok s2")
      case True2: True
      then have "recover_manifest a ?dsc (butlast current) h save vs w2 = Some (s, save', vs', w')"
        using assms(2) r True o by (simp add: vs_recover_def Let_def)
      then show ?thesis by (rule failed_manifest[OF assms(1) _ assms(3)])
    next
      case False
      then have "vs' = vs \<and> save' = save" using assms(2) r True o by (auto simp: vs_recover_def Let_def split: if_splits)
      with same show ?thesis by auto
    qed
  qed
qed

theorem failed_recovery_keeps_versions_witness:
  "\<exists>s save' vs' w'. vs_recover 9 False (sample_set mem_env 1) mem_empty = Some (s, save', vs', w') \<and> \<not> is_ok s \<and> \<not> save'
    \<and> vs_current vs' = Some 1"
proof -
  have run: "vs_recover 9 False (sample_set mem_env 1) mem_empty
      = Some (not_found (cstr ''db/CURRENT'') [], False, sample_set mem_env 1, mem_empty)"
    by (simp add: vs_recover_def read_file_to_string_def mem_env_def sample_set_def mem_files_def mem_empty_def current_file_name_def)
  have err: "\<not> is_ok (not_found (cstr ''db/CURRENT'') [])" by simp
  from failed_recovery_keeps_versions[OF sample_set_ok run err]
  obtain cps n where "sample_set mem_env 1 = (sample_set mem_env 1)\<lparr>vs_compact_pointer := cps, vs_next_file_number := n\<rparr>" by blast
  then have "vs_current (sample_set mem_env 1) = Some 1" by (subst \<open>sample_set mem_env 1 = _\<close>) (simp add: sample_set_def)
  with run err show ?thesis by blast
qed


text \<open>Two files that together fill level 1 twice over, while level 0 holds twelve.\<close>

definition full_version :: version where
  "full_version = version_ctor\<lparr>ver_files := (replicate kNumLevels [])[0 := replicate 12 file_meta_data_ctor,
     1 := [file_meta_data_ctor\<lparr>file_size := 15728640\<rparr>, file_meta_data_ctor\<lparr>file_size := 5242880\<rparr>]]\<rparr>"


text \<open>
  C13. \<open>log_any_apply\<close> returns no status but OK: whatever goes wrong on the way, also a write that
  fails, ends in a crash.  When it returns, the new version is current, the list of versions is well
  formed, the log numbers are the edit's, the other numbers are unchanged, and the new version
  holds no file, although the edit may have added some.
\<close>

theorem log_any_apply_outcome:
  assumes "versions_ok vs xs" and "vs_heap vs a = None" and "log_any_apply a e vs w = Some (s, e1, vs1, w1)"
  shows "is_ok s \<and> complete_edit e vs = Some e1 \<and> vs_current vs1 = Some a \<and> files_of (vs_heap vs1) a = {}
    \<and> (\<exists>xs'. versions_ok vs1 xs' \<and> set xs' \<subseteq> insert a (set xs))
    \<and> vs_log_number vs1 = log_number e1 \<and> vs_prev_log_number vs1 = prev_log_number e1
    \<and> vs_next_file_number vs1 = vs_next_file_number vs \<and> vs_last_sequence vs1 = vs_last_sequence vs
    \<and> vs_manifest_file_number vs1 = vs_manifest_file_number vs"
proof -
  obtain c where c: "vs_heap vs (last xs) = Some c" using versions_okD(5)[OF assms(1)] by blast
  obtain b vs' f l h where o: "is_ok s" "complete_edit e vs = Some e1" "builder_apply e1 (fresh_builder (last xs)) vs = Some (b, vs')"
    "vs1 = vs'\<lparr>vs_descriptor_file := f, vs_descriptor_log := l, vs_heap := h, vs_current := Some a,
            vs_log_number := log_number e1, vs_prev_log_number := prev_log_number e1\<rparr>"
    "versions_ok vs1 ((if ver_refs c = 1 then butlast xs else xs) @ [a])" "files_of h a = {}"
    using log_outcome[OF assms(1,2) c assms(3)] by blast
  obtain cps where "vs' = vs\<lparr>vs_compact_pointer := cps\<rparr>" using builder_apply_frame[OF o(3)] by blast
  moreover have "set ((if ver_refs c = 1 then butlast xs else xs) @ [a]) \<subseteq> insert a (set xs)"
    by (auto dest: in_set_butlastD)
  then have "\<exists>xs'. versions_ok vs1 xs' \<and> set xs' \<subseteq> insert a (set xs)" using o(5) by blast
  ultimately show ?thesis using o(1,2,4,6) by simp
qed


definition sample_log_edit :: version_edit where
  "sample_log_edit = set_log_number 3 version_edit_ctor"

lemma sample_completed:
  "complete_edit sample_log_edit (sample_set mem_env m)
     = Some (set_last_sequence 0 (set_next_file 4 (set_prev_log_number 0 sample_log_edit)))"
  by (simp add: complete_edit_def sample_log_edit_def sample_set_def set_log_number_def version_edit_ctor_def ve_clear_def)

lemma sample_encoded:
  "ve_encode_to (set_last_sequence 0 (set_next_file 4 (set_prev_log_number 0 sample_log_edit))) [] = Some [2, 3, 9, 0, 3, 4, 4, 0]"
  by (simp add: ve_encode_to_def put_flagged_def sample_log_edit_def set_last_sequence_def set_next_file_def set_prev_log_number_def
      set_log_number_def version_edit_ctor_def ve_clear_def tag_defs put_varint32_def put_varint64_def encode_varint32_def encode_varint64.simps)

lemma sample_snapshot:
  assumes "ver_files c = replicate kNumLevels []"
  shows "ve_encode_to (snapshot_edit (sample_set mem_env m) c) [] = Some (1 # 34 # cstr ''simple_leveldb.bytewise_comparator'')"
proof -
  have "snapshot_edit (sample_set mem_env m) c = set_comparator_name (cstr ''simple_leveldb.bytewise_comparator'') version_edit_ctor"
    using snapshot_blank[OF assms, of "sample_set mem_env m"]
    by (simp add: sample_set_def bytewise_comparator_def)
  then show ?thesis
    by (simp add: ve_encode_to_def put_flagged_def set_comparator_name_def version_edit_ctor_def ve_clear_def tag_defs
        put_varint32_def put_length_prefixed_slice_def slice_size_def slice_to_string_def encode_varint32_def)
qed


theorem log_any_apply_outcome_witness:
  "\<exists>e1 vs1 w1. log_any_apply 2 sample_log_edit (sample_set mem_env 2) mem_empty = Some (Status_Ok, e1, vs1, w1)
    \<and> vs_current vs1 = Some 2 \<and> (\<exists>xs'. versions_ok vs1 xs')"
proof -
  let ?e1 = "set_last_sequence 0 (set_next_file 4 (set_prev_log_number 0 sample_log_edit))"
  have plain: "plain_edit ?e1" "new_files ?e1 = []"
    by (simp_all add: plain_edit_def sample_log_edit_def set_log_number_def version_edit_ctor_def ve_clear_def
        set_last_sequence_def set_next_file_def set_prev_log_number_def)
  have ap: "builder_apply ?e1 (fresh_builder (last [1])) (sample_set mem_env 2) \<noteq> None"
    by (simp add: builder_apply_plain[OF plain(1)] plain(2))
  have env: "working_env (vs_env (sample_set mem_env 2)) mem_files" using mem_working by (simp add: sample_set_def)
  have "\<exists>vs1 w1. log_any_apply 2 sample_log_edit (sample_set mem_env 2) mem_empty = Some (Status_Ok, ?e1, vs1, w1)"
    using first_edit_outcome[OF env sample_set_ok _ _ _ _ sample_completed ap _ _ sample_snapshot sample_encoded, of 2 _ mem_empty] plain(1)
    by (auto simp: sample_set_def plain_edit_def version_ctor_def)
  then obtain vs1 w1 where run: "log_any_apply 2 sample_log_edit (sample_set mem_env 2) mem_empty = Some (Status_Ok, ?e1, vs1, w1)" by blast
  have fresh: "vs_heap (sample_set mem_env 2) 2 = None" by (simp add: sample_set_def)
  show ?thesis using log_any_apply_outcome[OF sample_set_ok fresh run] run by blast
qed

end
