(* ===== verification/Builder_Types.thy ===== *)
theory Builder_Types
  imports Version_Recovery
begin

text \<open>
  Version edits and builders are well typed: every level of a decoded edit is an index of the
  builder's array, and every level of a builder holds its files in the order of \<open>by_smallest_key\<close>.
\<close>

section \<open>Decoded edits\<close>

definition edit_typed :: "version_edit \<Rightarrow> bool" where
  "edit_typed e \<longleftrightarrow> (\<forall>p\<in>set (compact_pointers e). level_index (fst p) \<noteq> None \<and> snd p \<noteq> [])
     \<and> (\<forall>p\<in>deleted_files e. level_index (fst p) \<noteq> None)
     \<and> (\<forall>p\<in>set (new_files e). level_index (fst p) \<noteq> None \<and> smallest (snd p) \<noteq> [] \<and> largest (snd p) \<noteq> [])"

lemma get_level_index: "get_level inp = (Some level, rest) \<Longrightarrow> level_index level \<noteq> None"
proof -
  assume "get_level inp = (Some level, rest)"
  then obtain v :: u32 where v: "level = sint v" "v < 7" by (auto simp: get_level_def kNumLevels_def split: option.splits if_splits)
  then have u: "0 \<le> uint v" "uint v < 7" by (simp_all add: word_less_def)
  have "signed_take_bit 31 (uint v) = uint v" 
    by (rule signed_take_bit_int_eq_self) (rule order_trans[OF _ u(1)], simp, rule less_trans[OF u(2)], simp)
  then have "sint v = uint v" by (simp add: sint_uint)
  then show ?thesis using v(1) u by (simp add: level_index_def kNumLevels_def)
qed

lemma get_internal_key_nonempty: "get_internal_key inp = (Some k, rest) \<Longrightarrow> k \<noteq> []"
  by (auto simp: get_internal_key_def internal_key_decode_from_def split: option.splits prod.splits if_splits)

lemma decode_number_result: "decode_number store m inp e = (r, e', rest) \<Longrightarrow> e' = e \<or> (\<exists>v. e' = store v e)"
  by (auto simp: decode_number_def split: option.splits)

lemma decode_new_file_typed:
  assumes "decode_new_file inp e = (r, e', rest)" and "edit_typed e"
  shows "edit_typed e'"
proof (cases "e' = e")
  case False
  then obtain level r1 n r2 sz r3 small r4 large r5 where "get_level inp = (Some level, r1)" "get_internal_key r3 = (Some small, r4)"
    "get_internal_key r4 = (Some large, r5)"
    "e' = e\<lparr>new_files := new_files e @ [(level, file_meta_data_ctor\<lparr>fnumber := n, file_size := sz, smallest := small, largest := large\<rparr>)]\<rparr>"
    using assms(1) by (auto simp: decode_new_file_def split: option.splits prod.splits)
  then show ?thesis using assms(2) by (auto simp: edit_typed_def dest: get_level_index get_internal_key_nonempty)
qed (use assms(2) in simp)

lemma decode_deletion_typed:
  assumes "decode_field kTagCompactPointer inp e = (r, e', rest)" and "edit_typed e"
  shows "edit_typed e'"
proof (cases "e' = e")
  case False
  then obtain level r1 where l: "get_level inp = (Some level, r1)"
    "decode_number (\<lambda>v e. e\<lparr>deleted_files := insert (level, v) (deleted_files e)\<rparr>) ''deleted file'' r1 e = (r, e', rest)"
    using assms(1) by (auto simp: decode_field_def tag_defs split: option.splits prod.splits)
  then obtain v where "e' = e\<lparr>deleted_files := insert (level, v) (deleted_files e)\<rparr>" using decode_number_result[OF l(2)] False by blast
  then show ?thesis using assms(2) get_level_index[OF l(1)] by (simp add: edit_typed_def)
qed (use assms(2) in simp)

lemma decode_field_typed:
  assumes "decode_field t inp e = (r, e', rest)" and "edit_typed e"
  shows "edit_typed e'"
proof (cases "t = kTagCompactPointer \<or> t = kTagNewFile")
  case True
  then show ?thesis using assms decode_deletion_typed[of inp e r e' rest] decode_new_file_typed[of inp e r e' rest]
    by (auto simp: decode_field_def tag_defs)
next
  case False
  then have "compact_pointers e' = compact_pointers e \<and> deleted_files e' = deleted_files e \<and> new_files e' = new_files e"
    using assms(1) by (auto simp: decode_field_def split: option.splits prod.splits if_splits dest!: decode_number_result)
  then show ?thesis using assms(2) by (simp add: edit_typed_def)
qed

lemma decoded_typed:
  assumes "ve_decode_from src e0 = (s, e)"
  shows "edit_typed e \<and> compact_pointers e = []"
proof -
  obtain m inp where d: "decode_loop src (ve_clear e0) = (m, e, inp)"
    using assms by (auto simp: ve_decode_from_def Let_def split: prod.splits option.splits if_splits)
  have "edit_typed (ve_clear e0)" by (simp add: edit_typed_def ve_clear_def)
  then have "edit_typed e" by (rule decode_loop_keeps[where P = edit_typed, OF _ d, rotated]) (rule decode_field_typed)
  with decode_loop_effect[OF d] show ?thesis by (simp add: ve_clear_def)
qed

section \<open>The order of files\<close>

text \<open>\<open>by_smallest_key\<close> as a three-way comparison.\<close>

definition file_compare :: "comparator \<Rightarrow> file_meta_data \<Rightarrow> file_meta_data \<Rightarrow> int option" where
  "file_compare u f g =
     map_option (\<lambda>r. if r \<noteq> 0 then r else if fnumber f < fnumber g then -1 else if fnumber g < fnumber f then 1 else 0)
       (internal_compare_keys u (smallest f) (smallest g))"

lemma by_smallest_key_compare: "by_smallest_key u f g = map_option (\<lambda>r. r < 0) (file_compare u f g)"
  by (auto simp: by_smallest_key_def file_compare_def option.map_comp comp_def intro!: arg_cong2[where f = map_option])

definition valid_file :: "file_meta_data \<Rightarrow> bool" where
  "valid_file f \<longleftrightarrow> valid_ikey (smallest f)"

lemma file_compare_valid:
  "valid_file f \<Longrightarrow> valid_file g \<Longrightarrow> file_compare u f g =
     map_option (\<lambda>r. if r \<noteq> 0 then r else if fnumber f < fnumber g then -1 else if fnumber g < fnumber f then 1 else 0)
       (internal_compare u (smallest f) (smallest g))"
  by (cases "smallest f = []"; cases "smallest g = []")
    (simp_all add: file_compare_def internal_compare_keys_def internal_key_encode_def valid_file_def valid_ikey_def)

sublocale user_comparator \<subseteq> files: key_order valid_file "file_compare u"
proof (unfold_locales, goal_cases)
  case (1 f g)
  then show ?case using internal.defined[of "smallest f" "smallest g"] by (auto simp: file_compare_valid valid_file_def)
next
  case (2 f g r s)
  obtain i j where "internal_compare u (smallest f) (smallest g) = Some i"
    "internal_compare u (smallest g) (smallest f) = Some j" "sgn j = - sgn i"
    using 2(1,2) by (auto simp: valid_file_def intro: internal.sign_cases[of "smallest f" "smallest g"])
  with 2 show ?case by (auto simp: file_compare_valid sgn_if split: if_splits)
next
  case (3 f g h r s t)
  let ?k = smallest
  have v: "valid_ikey (?k f)" "valid_ikey (?k g)" "valid_ikey (?k h)" using 3(1-3) by (simp_all add: valid_file_def)
  obtain i i' where i: "internal_compare u (?k f) (?k g) = Some i" "internal_compare u (?k g) (?k f) = Some i'" "sgn i' = - sgn i"
    using v by (auto intro: internal.sign_cases[of "?k f" "?k g"])
  obtain j j' where j: "internal_compare u (?k g) (?k h) = Some j" "internal_compare u (?k h) (?k g) = Some j'" "sgn j' = - sgn j"
    using v by (auto intro: internal.sign_cases[of "?k g" "?k h"])
  obtain k k' where k: "internal_compare u (?k f) (?k h) = Some k" "internal_compare u (?k h) (?k f) = Some k'" "sgn k' = - sgn k"
    using v by (auto intro: internal.sign_cases[of "?k f" "?k h"])
  have "i \<le> 0" "j \<le> 0" using 3 i j by (auto simp: file_compare_valid split: if_splits)
  then have "k \<le> 0" using i j k v internal.le_le[where a = "?k f" and b = "?k g" and c = "?k h"] by simp
  show ?case
  proof (cases "k = 0")
    case True
    then have "k' = 0" using k by (simp add: sgn_if split: if_splits)
    have "i = 0" using internal.le_le[where a = "?k g" and b = "?k h" and c = "?k f"] \<open>j \<le> 0\<close> \<open>k' = 0\<close> i j k v \<open>i \<le> 0\<close>
      by (auto simp: sgn_if split: if_splits)
    moreover have "j = 0" using internal.le_le[where a = "?k h" and b = "?k f" and c = "?k g"] \<open>i \<le> 0\<close> \<open>k' = 0\<close> i j k v \<open>j \<le> 0\<close>
      by (auto simp: sgn_if split: if_splits)
    ultimately show ?thesis using 3 i j k True by (auto simp: file_compare_valid split: if_splits)
  next
    case False
    with \<open>k \<le> 0\<close> 3 k show ?thesis by (auto simp: file_compare_valid)
  qed
qed

section \<open>The sets of added files\<close>

context user_comparator begin

abbreviation file_lt :: "file_meta_data \<Rightarrow> file_meta_data \<Rightarrow> bool" where
  "file_lt \<equiv> key_lt (file_compare u)"

lemma by_smallest_key_lt: "valid_file f \<Longrightarrow> valid_file g \<Longrightarrow> by_smallest_key u f g = Some (file_lt f g)"
  using files.defined[of f g] by (auto simp: by_smallest_key_compare key_lt_def)

text \<open>Insertion keeps the order; a file that is equivalent to one in the set is not inserted.\<close>

lemma file_set_insert_sorted:
  assumes "sorted_wrt file_lt fs" and "\<forall>g\<in>set fs. valid_file g" and "valid_file f"
  shows "\<exists>fs'. file_set_insert u f fs = Some fs' \<and> sorted_wrt file_lt fs'
    \<and> set fs' = (if \<exists>g\<in>set fs. key_eqv (file_compare u) f g then set fs else insert f (set fs))"
  using assms(1,2)
proof (induction fs)
  case (Cons g gs)
  have v: "valid_file g" "\<forall>h\<in>set gs. valid_file h" "\<forall>h\<in>set gs. file_lt g h" using Cons.prems by simp_all
  consider "file_lt f g" | "key_eqv (file_compare u) f g" | "file_lt g f"
    using files.trichotomy[OF assms(3) v(1)] by blast
  then show ?case
  proof cases
    case 1
    have lt: "\<forall>h\<in>set (g # gs). file_lt f h" using 1 v assms(3) files.lt_trans[OF assms(3) v(1)] by auto
    then have "\<not> (\<exists>h\<in>set (g # gs). key_eqv (file_compare u) f h)" by (auto simp: key_lt_def key_eqv_def)
    then show ?thesis using lt Cons.prems(1) by_smallest_key_lt[OF assms(3) v(1)] 1 by auto
  next
    case 2
    then have "\<not> file_lt f g" "\<not> file_lt g f"
      using files.eqv_sym[OF assms(3) v(1)] by (auto simp: key_lt_def key_eqv_def)
    then show ?thesis using 2 Cons.prems(1) by_smallest_key_lt[OF assms(3) v(1)] by_smallest_key_lt[OF v(1) assms(3)] by auto
  next
    case 3
    then have "\<not> file_lt f g" using files.lt_not_sym[OF v(1) assms(3)] by blast
    moreover from this 3 have "\<not> key_eqv (file_compare u) f g"
      using files.eqv_sym[OF assms(3) v(1)] by (auto simp: key_lt_def key_eqv_def)
    moreover obtain fs' where "file_set_insert u f gs = Some fs'" "sorted_wrt file_lt fs'"
      "set fs' = (if \<exists>h\<in>set gs. key_eqv (file_compare u) f h then set gs else insert f (set gs))"
      using Cons.IH Cons.prems by auto
    ultimately show ?thesis using 3 v(3) by_smallest_key_lt[OF assms(3) v(1)] by_smallest_key_lt[OF v(1) assms(3)]
      by (auto split: if_splits)
  qed
qed simp

end

text \<open>A builder: an array of the right length, each entry sorted, each file with the counts \<open>apply\<close> gives it.\<close>

definition level_typed :: "comparator \<Rightarrow> level_state \<Rightarrow> bool" where
  "level_typed u l \<longleftrightarrow> sorted_wrt (key_lt (file_compare u)) (b_added l)
     \<and> (\<forall>f\<in>set (b_added l). valid_file f \<and> refs f = 1 \<and> 100 \<le> allowed_seeks f)"

definition builder_typed :: "comparator \<Rightarrow> level_state list \<Rightarrow> bool" where
  "builder_typed u ls \<longleftrightarrow> length ls = kNumLevels \<and> list_all (level_typed u) ls"

context user_comparator begin

lemma add_level_typed:
  assumes "level_typed u l" and "valid_file f" and "refs f = 1" and "100 \<le> allowed_seeks f"
  shows "\<exists>fs. file_set_insert u f (b_added l) = Some fs \<and> level_typed u \<lparr>b_deleted = b_deleted l - {fnumber f}, b_added = fs\<rparr>"
  using assms file_set_insert_sorted[of "b_added l" f] by (auto simp: level_typed_def split: if_splits)

lemma apply_new_files_typed:
  assumes "builder_typed u ls" and "\<forall>p\<in>set fs. level_index (fst p) \<noteq> None \<and> valid_file (snd p)"
  shows "\<exists>ls'. apply_new_files u fs ls = Some ls' \<and> builder_typed u ls'"
  using assms
proof (induction fs arbitrary: ls)
  case (Cons p fs)
  obtain level f where p: "p = (level, f)" by force
  obtain i where i: "level_index level = Some i" "i < kNumLevels"
    using Cons.prems(2) p by (auto simp: level_index_def split: if_splits)
  let ?f = "f\<lparr>refs := 1, allowed_seeks := initial_allowed_seeks (file_size f)\<rparr>"
  have l: "level_typed u (ls ! i)" using Cons.prems(1) i(2) by (simp add: builder_typed_def list_all_length)
  have f: "valid_file ?f" "refs ?f = 1" "100 \<le> allowed_seeks ?f"
    using Cons.prems(2) p by (auto simp: valid_file_def initial_allowed_seeks_def Let_def)
  obtain added where a: "file_set_insert u ?f (b_added (ls ! i)) = Some added"
    "level_typed u \<lparr>b_deleted = b_deleted (ls ! i) - {fnumber ?f}, b_added = added\<rparr>" using add_level_typed[OF l f] by blast
  let ?ls = "ls[i := \<lparr>b_deleted = b_deleted (ls ! i) - {fnumber ?f}, b_added = added\<rparr>]"
  have "builder_typed u ?ls" using Cons.prems(1) a(2) i(2) by (auto simp: builder_typed_def list_all_length nth_list_update)
  with Cons.IH[of ?ls] Cons.prems(2) show ?case using a(1) i(1) p by (simp add: Let_def)
qed simp

end

lemma apply_deletions_typed:
  assumes "builder_typed u ls" and "\<forall>p\<in>dels. level_index (fst p) \<noteq> None"
  shows "\<exists>ls'. apply_deletions dels ls = Some ls' \<and> builder_typed u ls' \<and> map b_added ls' = map b_added ls"
proof -
  have "map b_added (map (\<lambda>(i, l). l\<lparr>b_deleted := b_deleted l \<union> snd ` {p \<in> dels. fst p = int i}\<rparr>) (zip [0..<length ls] ls)) = map b_added ls"
    by (rule nth_equalityI) auto
  moreover have "builder_typed u ls'" if "map b_added ls' = map b_added ls" for ls'
  proof -
    have "length ls' = length ls" using that by (rule map_eq_imp_length_eq)
    moreover have "b_added (ls' ! i) = b_added (ls ! i)" if "i < length ls" for i
      using \<open>map b_added ls' = map b_added ls\<close> that calculation by (metis nth_map)
    ultimately show ?thesis using assms(1) by (simp add: builder_typed_def list_all_length level_typed_def)
  qed
  ultimately show ?thesis using assms(2) by (simp add: apply_deletions_def)
qed

lemma fresh_builder_typed: "builder_typed u (b_levels (fresh_builder base))"
  by (simp add: builder_typed_def fresh_builder_def level_typed_def list_all_iff)

section \<open>Properties\<close>


definition one_file_edit :: version_edit where
  "one_file_edit = add_file 6 5 100 (replicate 9 1) (replicate 9 2) version_edit_ctor"


end
