(* ===== verification/Db_Impl.thy ===== *)
theory Db_Impl
  imports Version_Ring Table_Cache Memory_Table Write_Batch
begin

text \<open>
  \<open>__detail/db_impl.h\<close> and \<open>src/leveldb/db_impl.cc\<close>: the database object, opening and recovery.
  The mutex is held wherever the code asserts that it is, and unlocking it for a while lets no other
  thread run; the background thread is in \<open>Db_Background\<close>.  The members the constructor does not
  initialise are arguments of the model, so nothing is assumed of them.  Addresses that \<open>new\<close>
  returns are arguments.
\<close>

record manual_compaction =
  mc_level :: int
  mc_done :: bool
  mc_begin :: "internal_key option"
  mc_end :: "internal_key option"
  mc_tmp_storage :: internal_key

record 'w db_impl =
  db_env :: "'w env"
  db_comparator :: comparator
  db_filter_policy :: policy_object
  db_options :: "'w options"
  owns_info_log :: bool
  db_name :: bytes
  db_table_cache :: "'w table_cache"
  db_lock :: "nat option"
  shutting_down :: bool
  db_mem :: "mem_table option"
  db_imm :: "mem_table option"
  log_file :: "nat option"
  logfile_number :: u64
  db_log :: "log_writer option"
  pending_outputs :: "u64 set"
  background_compaction_scheduled :: bool
  manual_compaction_request :: "manual_compaction option"
  versions :: "'w version_set"
  bg_error :: status

section \<open>Compaction states and writers\<close>

record compaction_output =
  out_number :: u64
  out_file_size :: u64
  out_smallest :: internal_key
  out_largest :: internal_key

record 'c compaction_state =
  cs_compaction :: 'c
  smallest_snapshot :: sequence_number
  outputs :: "compaction_output list"
  outfile :: "nat option"
  cs_builder :: "nat option"
  total_bytes :: u64

definition compaction_state_ctor :: "'c \<Rightarrow> 'c compaction_state" where
  "compaction_state_ctor c = \<lparr>cs_compaction = c, smallest_snapshot = 0, outputs = [], outfile = None,
     cs_builder = None, total_bytes = 0\<rparr>"

definition current_output :: "'c compaction_state \<Rightarrow> compaction_output option" where
  "current_output c = (if outputs c = [] then None else Some (outputs c ! (length (outputs c) - 1)))"

record db_writer =
  wr_status :: status
  wr_batch :: "write_batch option"
  wr_sync :: bool
  wr_done :: bool

definition db_writer_ctor :: db_writer where
  "db_writer_ctor = \<lparr>wr_status = Status_Ok, wr_batch = None, wr_sync = False, wr_done = False\<rparr>"

section \<open>Construction\<close>

definition db_impl_ctor ::
  "'w options \<Rightarrow> bytes \<Rightarrow> nat \<Rightarrow> mem_table option \<Rightarrow> bool \<Rightarrow> manual_compaction option \<Rightarrow> 'w \<Rightarrow> ('w db_impl \<times> 'w) option" where
  "db_impl_ctor raw name a imm scheduled manual w =
     (let policy = Internal_Policy (case opt_filter_policy raw of Some (User_Policy p) \<Rightarrow> Some p | _ \<Rightarrow> None);
          icmp = internal_key_comparator (opt_comparator raw)
      in Option.bind (sanitize_options name icmp policy raw w) (\<lambda>(opts, w1).
         Option.bind (table_cache_ctor name opts (table_cache_size opts)) (\<lambda>tc.
         map_option (\<lambda>vs.
            (\<lparr>db_env = opt_env raw, db_comparator = opt_comparator raw, db_filter_policy = policy,
              db_options = opts, owns_info_log = opt_info_log raw \<noteq> None, db_name = name, db_table_cache = tc,
              db_lock = None, shutting_down = False, db_mem = None, db_imm = imm, log_file = None,
              logfile_number = 0, db_log = None, pending_outputs = {},
              background_compaction_scheduled = scheduled, manual_compaction_request = manual,
              versions = vs, bg_error = Status_Ok\<rparr>, w1))
           (version_set_ctor name opts (opt_comparator raw) a))))"

definition user_comparator :: "'w db_impl \<Rightarrow> comparator" where
  "user_comparator db = db_comparator db"

section \<open>Writing\<close>

text \<open>\<open>Write\<close> has no return statement, so no call of it returns a status.\<close>

definition db_Write :: "write_options \<Rightarrow> write_batch \<Rightarrow> 'w db_impl \<Rightarrow> 'w \<Rightarrow> (status \<times> 'w db_impl \<times> 'w) option" where
  "db_Write opts batch db w = None"

definition db_Put :: "write_options \<Rightarrow> slice \<Rightarrow> slice \<Rightarrow> 'w db_impl \<Rightarrow> 'w \<Rightarrow> (status \<times> 'w db_impl \<times> 'w) option" where
  "db_Put opts key val db w = Option.bind (wb_Put wb_ctor key val) (\<lambda>batch. db_Write opts batch db w)"

definition db_impl_Put :: "write_options \<Rightarrow> slice \<Rightarrow> slice \<Rightarrow> 'w db_impl \<Rightarrow> 'w \<Rightarrow> (status \<times> 'w db_impl \<times> 'w) option" where
  "db_impl_Put opt key val db w = db_Put opt key val db w"

section \<open>A new database\<close>

definition new_db_edit :: "'w db_impl \<Rightarrow> version_edit" where
  "new_db_edit db =
     set_last_sequence 0 (set_next_file 2 (set_log_number 0
       (set_comparator_name (comparator_name (user_comparator db)) version_edit_ctor)))"

definition new_db :: "'w db_impl \<Rightarrow> 'w \<Rightarrow> (status \<times> 'w) option" where
  "new_db db w =
     Option.bind (descriptor_file_name (db_name db) 1) (\<lambda>manifest.
     Option.bind (env_new_writable_file (db_env db) manifest w) (\<lambda>(s, h, w1).
       if \<not> is_ok s then Some (s, w1)
       else
         let file = env_writable (db_env db) h
         in Option.bind (ve_encode_to (new_db_edit db) []) (\<lambda>record.
            Option.bind (add_record file record writer_ctor w1) (\<lambda>(s1, _, w2).
            Option.bind (if is_ok s1 then wf_sync file w2 else Some (s1, w2)) (\<lambda>(s2, w3).
            Option.bind (if is_ok s2 then wf_close file w3 else Some (s2, w3)) (\<lambda>(s3, w4).
            let w5 = env_delete_writable (db_env db) h w4
            in if is_ok s3 then set_current_file (db_env db) (db_name db) 1 w5
               else map_option (\<lambda>(_, w6). (s3, w6)) (env_remove_file (db_env db) manifest w5)))))))"

section \<open>Obsolete files\<close>

definition keep_file :: "'w db_impl \<Rightarrow> u64 set \<Rightarrow> u64 \<Rightarrow> file_type \<Rightarrow> bool" where
  "keep_file db live number t =
     (case t of
        kLogFile \<Rightarrow> number \<ge> vs_log_number (versions db) \<or> number = vs_prev_log_number (versions db)
      | kTableFile \<Rightarrow> number \<in> live
      | kDescriptorFile \<Rightarrow> number \<ge> vs_manifest_file_number (versions db)
      | kTempFile \<Rightarrow> number \<in> live
      | kCurrentFile \<Rightarrow> True
      | kDBLockFile \<Rightarrow> True
      | kInfoLogFile \<Rightarrow> True)"

text \<open>The loop over the children: the names to delete, and the table cache after the evictions.\<close>

fun obsolete_files :: "'w db_impl \<Rightarrow> u64 set \<Rightarrow> bytes list \<Rightarrow> 'w table_cache \<Rightarrow> (bytes list \<times> 'w table_cache) option" where
  "obsolete_files db live [] tc = Some ([], tc)"
| "obsolete_files db live (f # fs) tc =
     (case parse_file_name f of
        None \<Rightarrow> obsolete_files db live fs tc
      | Some (number, t) \<Rightarrow>
          if keep_file db live number t then obsolete_files db live fs tc
          else
            Option.bind (if t = kTableFile then tc_evict number tc else Some tc) (\<lambda>tc1.
              map_option (\<lambda>(ds, tc2). (f # ds, tc2)) (obsolete_files db live fs tc1)))"

fun remove_all :: "'w env \<Rightarrow> bytes \<Rightarrow> bytes list \<Rightarrow> 'w \<Rightarrow> 'w option" where
  "remove_all e name [] w = Some w"
| "remove_all e name (f # fs) w =
     Option.bind (env_remove_file e (name @ cstr ''/'' @ f) w) (\<lambda>(_, w1). remove_all e name fs w1)"

text \<open>The status of \<open>get_children\<close> is ignored, and so is what the removals return.\<close>

definition remove_obsolete_files :: "'w db_impl \<Rightarrow> 'w \<Rightarrow> ('w db_impl \<times> 'w) option" where
  "remove_obsolete_files db w =
     (if \<not> is_ok (bg_error db) then Some (db, w)
      else
        Option.bind (add_live_files (versions db) (pending_outputs db)) (\<lambda>live.
        Option.bind (env_get_children (db_env db) (db_name db) w) (\<lambda>(_, filenames, w1).
        Option.bind (obsolete_files db live filenames (db_table_cache db)) (\<lambda>(ds, tc).
          map_option (\<lambda>w2. (db\<lparr>db_table_cache := tc\<rparr>, w2)) (remove_all (db_env db) (db_name db) ds w1)))))"

section \<open>Recovery\<close>

text \<open>
  The first half of \<open>Recover\<close> and of \<open>RecoverLogFile\<close>, which is the same in both: take the lock,
  create the database when that is asked for, and recover the version set.
\<close>

definition check_current :: "'w db_impl \<Rightarrow> bool \<Rightarrow> 'w \<Rightarrow> (status \<times> 'w) option" where
  "check_current db current_exists w =
     (if \<not> current_exists then
        if opt_create_if_missing (db_options db) then new_db db w
        else Some (invalid_argument (db_name db) (cstr ''does not exist (create_if_missing is false)''), w)
      else if opt_error_if_exists (db_options db)
      then Some (invalid_argument (db_name db) (cstr ''exists (error_if_exists is true)''), w)
      else Some (Status_Ok, w))"

definition recover_versions ::
  "(version_heap \<Rightarrow> nat) \<Rightarrow> bool \<Rightarrow> 'w db_impl \<Rightarrow> 'w \<Rightarrow> (status \<times> bool \<times> 'w db_impl \<times> 'w) option" where
  "recover_versions new_at save db w =
     Option.bind (env_create_dir (db_env db) (db_name db) w) (\<lambda>(_, w1).
       if db_lock db \<noteq> None then None
       else
         Option.bind (env_lock_file (db_env db) (lock_file_name (db_name db)) w1) (\<lambda>(s, h, w2).
           if \<not> is_ok s then Some (s, save, db, w2)
           else
             let db1 = db\<lparr>db_lock := Some h\<rparr>
             in Option.bind (env_file_exists (db_env db) (current_file_name (db_name db)) w2) (\<lambda>(current_exists, w3).
                Option.bind (check_current db1 current_exists w3) (\<lambda>(s2, w4).
                  if \<not> is_ok s2 then Some (s2, save, db1, w4)
                  else
                    map_option (\<lambda>(s3, save3, vs, w5). (s3, save3, db1\<lparr>versions := vs\<rparr>, w5))
                      (vs_recover (new_at (vs_heap (versions db1))) save (versions db1) w4)))))"

text \<open>One file name of the directory: it is not missing, and it may be a log to replay.\<close>

definition note_file :: "'w version_set \<Rightarrow> bytes \<Rightarrow> u64 set \<times> u64 list \<Rightarrow> u64 set \<times> u64 list" where
  "note_file vs filename st =
     (case parse_file_name filename of
        None \<Rightarrow> st
      | Some (number, t) \<Rightarrow>
          (fst st - {number},
           if t = kLogFile \<and> (number \<ge> vs_log_number vs \<or> number = vs_prev_log_number vs)
           then snd st @ [number] else snd st))"

definition format_d :: "int \<Rightarrow> bytes" where
  "format_d n = (if n < 0 then cstr ''-'' @ decimal_digits (nat (- n)) else decimal_digits (nat n))"

text \<open>The set is ordered, so its first element is the smallest number.\<close>

definition missing_files :: "bytes \<Rightarrow> u64 set \<Rightarrow> status option" where
  "missing_files name expected =
     map_option (corruption (format_d (sint (of_nat (card expected) :: 32 word)) @ cstr '' missing files; e.g.''))
       (table_file_name name (Min expected))"

text \<open>\<open>Recover\<close> tests for missing files after every file name, \<open>RecoverLogFile\<close> after the last.\<close>

fun scan_each :: "bytes \<Rightarrow> 'w version_set \<Rightarrow> bytes list \<Rightarrow> u64 set \<times> u64 list \<Rightarrow> (status + u64 list) option" where
  "scan_each name vs [] st = Some (Inr (snd st))"
| "scan_each name vs (f # fs) st =
     (let st1 = note_file vs f st
      in if fst st1 \<noteq> {} then map_option Inl (missing_files name (fst st1)) else scan_each name vs fs st1)"

definition scan_all :: "bytes \<Rightarrow> 'w version_set \<Rightarrow> bytes list \<Rightarrow> u64 set \<times> u64 list \<Rightarrow> (status + u64 list) option" where
  "scan_all name vs fs st =
     (let st1 = fold (note_file vs) fs st
      in if fst st1 \<noteq> {} then map_option Inl (missing_files name (fst st1)) else Some (Inr (snd st1)))"

text \<open>
  The logs to replay, in the order of their numbers.  The maximal sequence number both functions
  keep is never stored to, so it stays 0.
\<close>

definition find_logs ::
  "(bytes \<Rightarrow> 'w version_set \<Rightarrow> bytes list \<Rightarrow> u64 set \<times> u64 list \<Rightarrow> (status + u64 list) option) \<Rightarrow>
   'w db_impl \<Rightarrow> 'w \<Rightarrow> ((status + u64 list) \<times> 'w) option" where
  "find_logs scan db w =
     Option.bind (env_get_children (db_env db) (db_name db) w) (\<lambda>(s, filenames, w1).
       if \<not> is_ok s then Some (Inl s, w1)
       else
         Option.bind (add_live_files (versions db) {}) (\<lambda>expected.
           map_option (\<lambda>r. (map_sum id sort r, w1)) (scan (db_name db) (versions db) filenames (expected, []))))"

definition finish_recovery :: "sequence_number \<Rightarrow> 'w db_impl \<Rightarrow> 'w db_impl option" where
  "finish_recovery max_sequence db =
     (if vs_last_sequence (versions db) < max_sequence
      then map_option (\<lambda>vs. db\<lparr>versions := vs\<rparr>) (vs_set_last_sequence max_sequence (versions db))
      else Some db)"

text \<open>
  \<open>RecoverLogFile\<close> is a copy of \<open>Recover\<close>: it does not read the log it is given but recovers the
  database again, and calls itself for every log.  One partial function serves both loops:
  \<open>One_Log\<close> is a call of \<open>RecoverLogFile\<close>, \<open>Logs\<close> what is left of the loop over the logs.
\<close>

datatype recovery_call = One_Log u64 bool | Logs "u64 list"

partial_function (option) replay ::
  "(version_heap \<Rightarrow> nat) \<Rightarrow> recovery_call \<Rightarrow> bool \<Rightarrow> 'w db_impl \<Rightarrow> 'w \<Rightarrow> (status \<times> bool \<times> 'w db_impl \<times> 'w) option" where
  "replay new_at call save db w =
     (case call of
        One_Log n last_log \<Rightarrow>
          Option.bind (recover_versions new_at save db w) (\<lambda>(s, save1, db1, w1).
            if \<not> is_ok s then Some (s, save1, db1, w1)
            else
              Option.bind (find_logs scan_all db1 w1) (\<lambda>(r, w2).
                case r of
                  Inl s2 \<Rightarrow> Some (s2, save1, db1, w2)
                | Inr ls \<Rightarrow>
                    Option.bind (replay new_at (Logs ls) save1 db1 w2) (\<lambda>(s3, save3, db3, w3).
                      if \<not> is_ok s3 then Some (s3, save3, db3, w3)
                      else map_option (\<lambda>db4. (Status_Ok, save3, db4, w3)) (finish_recovery 0 db3))))
      | Logs [] \<Rightarrow> Some (Status_Ok, save, db, w)
      | Logs (l # ls) \<Rightarrow>
          Option.bind (replay new_at (One_Log l (ls = [])) save db w) (\<lambda>(s, save1, db1, w1).
            if \<not> is_ok s then Some (s, save1, db1, w1)
            else replay new_at (Logs ls) save1 (db1\<lparr>versions := mark_file_number_used l (versions db1)\<rparr>) w1))"

definition recover_log_file ::
  "(version_heap \<Rightarrow> nat) \<Rightarrow> u64 \<Rightarrow> bool \<Rightarrow> bool \<Rightarrow> 'w db_impl \<Rightarrow> 'w \<Rightarrow> (status \<times> bool \<times> 'w db_impl \<times> 'w) option" where
  "recover_log_file new_at n last_log save db w = replay new_at (One_Log n last_log) save db w"

definition db_recover ::
  "(version_heap \<Rightarrow> nat) \<Rightarrow> bool \<Rightarrow> 'w db_impl \<Rightarrow> 'w \<Rightarrow> (status \<times> bool \<times> 'w db_impl \<times> 'w) option" where
  "db_recover new_at save db w =
     Option.bind (recover_versions new_at save db w) (\<lambda>(s, save1, db1, w1).
       if \<not> is_ok s then Some (s, save1, db1, w1)
       else
         Option.bind (find_logs scan_each db1 w1) (\<lambda>(r, w2).
           case r of
             Inl s2 \<Rightarrow> Some (s2, save1, db1, w2)
           | Inr ls \<Rightarrow>
               Option.bind (replay new_at (Logs ls) save1 db1 w2) (\<lambda>(s3, save3, db3, w3).
                 if \<not> is_ok s3 then Some (s3, save3, db3, w3)
                 else map_option (\<lambda>db4. (Status_Ok, save3, db4, w3)) (finish_recovery 0 db3))))"

section \<open>Scheduling\<close>

text \<open>The flag in the result says whether a job was handed to \<open>schedule\<close> of the environment.\<close>

definition maybe_schedule_compaction :: "'w db_impl \<Rightarrow> (bool \<times> 'w db_impl) option" where
  "maybe_schedule_compaction db =
     (if background_compaction_scheduled db \<or> shutting_down db \<or> \<not> is_ok (bg_error db) then Some (False, db)
      else
        map_option (\<lambda>work. if work then (True, db\<lparr>background_compaction_scheduled := True\<rparr>) else (False, db))
          (if db_imm db = None \<and> manual_compaction_request db = None
           then needs_compaction (versions db) else Some True))"

section \<open>Opening\<close>

definition start_log :: "nat \<Rightarrow> version_edit \<Rightarrow> 'w db_impl \<Rightarrow> 'w \<Rightarrow> (status \<times> version_edit \<times> 'w db_impl \<times> 'w) option" where
  "start_log ma e db w =
     (case new_file_number (versions db) of
        (number, vs) \<Rightarrow>
          let db1 = db\<lparr>versions := vs\<rparr>
          in Option.bind (log_file_name (db_name db) number) (\<lambda>fname.
             Option.bind (env_new_writable_file (db_env db) fname w) (\<lambda>(s, h, w1).
               if \<not> is_ok s then Some (s, e, db1, w1)
               else
                 map_option (\<lambda>m. (s, set_log_number number e,
                     db1\<lparr>log_file := Some h, logfile_number := number, db_log := Some writer_ctor,
                         db_mem := Some (mem_table_ref m)\<rparr>, w1))
                   (mem_table_ctor (db_comparator db) ma))))"

definition save_manifest_edit ::
  "(version_heap \<Rightarrow> nat) \<Rightarrow> version_edit \<Rightarrow> 'w db_impl \<Rightarrow> 'w \<Rightarrow> (status \<times> 'w db_impl \<times> 'w) option" where
  "save_manifest_edit new_at e db w =
     map_option (\<lambda>(s, _, vs, w1). (s, db\<lparr>versions := vs\<rparr>, w1))
       (log_any_apply (new_at (vs_heap (versions db)))
          (set_log_number (logfile_number db) (set_prev_log_number 0 e)) (versions db) w)"

definition clean_up :: "'w db_impl \<Rightarrow> 'w \<Rightarrow> (bool \<times> 'w db_impl \<times> 'w) option" where
  "clean_up db w =
     Option.bind (remove_obsolete_files db w) (\<lambda>(db1, w1).
       map_option (\<lambda>(posted, db2). (posted, db2, w1)) (maybe_schedule_compaction db1))"

text \<open>\<open>ma\<close> is the address of the memory table's first block; the result holds the database when it is open.\<close>

definition open_with ::
  "(version_heap \<Rightarrow> nat) \<Rightarrow> nat \<Rightarrow> 'w db_impl \<Rightarrow> 'w \<Rightarrow> (status \<times> 'w db_impl option \<times> 'w) option" where
  "open_with new_at ma db w =
     Option.bind (db_recover new_at False db w) (\<lambda>(s, save, db1, w1).
     Option.bind (if is_ok s \<and> db_mem db1 = None then start_log ma version_edit_ctor db1 w1
                  else Some (s, version_edit_ctor, db1, w1)) (\<lambda>(s2, e, db2, w2).
     Option.bind (if is_ok s2 \<and> save then save_manifest_edit new_at e db2 w2 else Some (s2, db2, w2)) (\<lambda>(s3, db3, w3).
     Option.bind (if is_ok s3 then map_option snd (clean_up db3 w3) else Some (db3, w3)) (\<lambda>(db4, w4).
       if is_ok s3 then (if db_mem db4 = None then None else Some (s3, Some db4, w4))
       else Some (s3, None, w4)))))"

definition db_open ::
  "'w options \<Rightarrow> bytes \<Rightarrow> nat \<Rightarrow> mem_table option \<Rightarrow> bool \<Rightarrow> manual_compaction option \<Rightarrow>
   (version_heap \<Rightarrow> nat) \<Rightarrow> nat \<Rightarrow> 'w \<Rightarrow> (status \<times> 'w db_impl option \<times> 'w) option" where
  "db_open raw name a imm scheduled manual new_at ma w =
     Option.bind (db_impl_ctor raw name a imm scheduled manual w) (\<lambda>(db, w1). open_with new_at ma db w1)"

section \<open>The program\<close>

text \<open>\<open>src/main.cc\<close>: it opens a database, puts one entry, and returns its exit code.\<close>

definition main_options :: "'w env \<Rightarrow> 'w options" where
  "main_options default_env = (options_ctor default_env)\<lparr>opt_create_if_missing := True\<rparr>"

definition main_program ::
  "'w env \<Rightarrow> nat \<Rightarrow> mem_table option \<Rightarrow> bool \<Rightarrow> manual_compaction option \<Rightarrow> (version_heap \<Rightarrow> nat) \<Rightarrow> nat \<Rightarrow> 'w \<Rightarrow> (int \<times> 'w) option" where
  "main_program default_env a imm scheduled manual new_at ma w =
     Option.bind (db_open (main_options default_env) (cstr ''testdb'') a imm scheduled manual new_at ma w) (\<lambda>(s, opened, w1).
       if \<not> is_ok s then Some (-1, w1)
       else
         Option.bind opened (\<lambda>db.
         map_option (\<lambda>(s2, db2, w2). (if is_ok s2 then 0 else -1, w2))
           (db_impl_Put write_options_ctor (slice_of_cstr (cstr ''key1'')) (slice_of_cstr (cstr ''value1'')) db w1)))"

end
