(* ===== verification/Db_Spec.thy ===== *)
theory Db_Spec
  imports Db_Impl Version_Spec
begin

text \<open>
  The properties of the database object: opening it, creating a database and recovering one.
\<close>

section \<open>Constructing a version set\<close>

lemma append_to_unlinked:
  assumes "vs_current vs = None" and "vs_heap vs a = Some version_ctor" and "vs_heap vs 0 = Some version_ctor"
  shows "append_version a vs = None"
proof -
  let ?v = "version_ctor\<lparr>ver_refs := 1\<rparr>"
  have ref: "version_ref a (vs_heap vs) = Some ((vs_heap vs)(a \<mapsto> ?v))" using assms(2) by (simp add: version_ref_def version_ctor_def)
  obtain z where z: "((vs_heap vs)(a \<mapsto> ?v)) 0 = Some z" "ver_prev z = None"
    using assms(3) by (cases "a = 0") (auto simp: version_ctor_def)
  have n: "set_ver_next None n h = None" for n h by (simp add: set_ver_next_def)
  have "ver_refs version_ctor = 0" by (simp add: version_ctor_def)
  then show ?thesis using assms(1,2) ref z
    by (simp add: append_version_def dummy_versions_def n bind_eq_None_conv del: fun_upd_apply)
qed

lemma version_set_ctor_none: "version_set_ctor name opts cmp a = None"
  unfolding version_set_ctor_def
  by (rule append_to_unlinked) (simp_all add: new_version_def dummy_versions_def)

text \<open>
  C7. No database can be opened: whatever the options, the name, the environment and the memory, the
  constructor of the version set dereferences a null pointer, so \<open>Open\<close> never returns, neither with
  a database nor with an error, and neither does the program.
\<close>

theorem opening_never_succeeds:
  "db_open raw name a imm scheduled manual new_at ma w = None
   \<and> main_program default_env a imm scheduled manual new_at ma w = None"
proof -
  have "db_impl_ctor raw name a imm scheduled manual w = None" for raw name
    by (simp add: db_impl_ctor_def version_set_ctor_none Let_def bind_eq_None_conv split_beta)
  then have "db_open raw name a imm scheduled manual new_at ma w = None" for raw name by (simp add: db_open_def)
  then show ?thesis by (simp add: main_program_def)
qed

section \<open>Creating a database\<close>

lemma new_db_edit_numbers:
  "has_comparator (new_db_edit db)" "comparator_str (new_db_edit db) = comparator_name (db_comparator db)"
  "note_numbers (new_db_edit db) no_numbers
     = \<lparr>r_next_file = Some 2, r_last_sequence = Some 0, r_log_number = Some 0, r_prev_log_number = None\<rparr>"
  "new_files (new_db_edit db) = []"
  by (simp_all add: new_db_edit_def set_comparator_name_def set_log_number_def set_next_file_def set_last_sequence_def
      version_edit_ctor_def ve_clear_def slice_to_string_def user_comparator_def note_numbers_def no_numbers_def)

lemma new_db_edit_plain:
  "length (comparator_name (db_comparator db)) < 2 ^ 32 \<Longrightarrow> plain_edit (new_db_edit db)"
  by (simp add: plain_edit_def new_db_edit_def set_comparator_name_def set_log_number_def set_next_file_def set_last_sequence_def
      version_edit_ctor_def ve_clear_def slice_to_string_def user_comparator_def)

lemma new_db_works:
  assumes env: "working_env (db_env db) files" and r: "ve_encode_to (new_db_edit db) [] = Some r"
  shows "\<exists>w'. new_db db w = Some (Status_Ok, w')
    \<and> files w' = (files w)(db_name db @ cstr ''/'' @ manifest_base 1 \<mapsto> layout 0 (log_pieces 0 [r]),
        the (temp_file_name (db_name db) 1) := None, current_file_name (db_name db) \<mapsto> manifest_base 1 @ [10])"
proof -
  let ?man = "db_name db @ cstr ''/'' @ manifest_base 1"
  have name: "descriptor_file_name (db_name db) 1 = Some ?man" by (rule descriptor_name) simp
  obtain h w1 good where o: "env_new_writable_file (db_env db) ?man w = Some (Status_Ok, h, w1)" "files w1 = (files w)(?man \<mapsto> [])"
    and opn: "open_for_writing (db_env db) files h ?man w1 good" using working_writable[OF env] by blast
  have sink: "byte_sink (env_writable (db_env db) h) good (\<lambda>w. the (files w ?man))" and g1: "good w1"
    and after: "\<And>w2. good w2 \<Longrightarrow> files w2 = (files w1)(?man \<mapsto> the (files w2 ?man))"
    and sync: "\<And>w2. good w2 \<Longrightarrow> \<exists>w3. wf_sync (env_writable (db_env db) h) w2 = Some (Status_Ok, w3) \<and> good w3 \<and> files w3 = files w2"
    and close: "\<And>w2. good w2 \<Longrightarrow> \<exists>w3. wf_close (env_writable (db_env db) h) w2 = Some (Status_Ok, w3) \<and> files w3 = files w2"
    using opn unfolding open_for_writing_def by blast+
  obtain l w2 where w2: "add_record (env_writable (db_env db) h) r writer_ctor w1 = Some (Status_Ok, l, w2)" "good w2"
    "the (files w2 ?man) = the (files w1 ?man) @ layout 0 (pieces True 0 r)"
    using byte_sink.add_record_works[OF sink g1 writer_ctor_ok(1), of r] by (auto simp: writer_ctor_def)
  obtain w3 where w3: "wf_sync (env_writable (db_env db) h) w2 = Some (Status_Ok, w3)" "good w3" "files w3 = files w2" using sync[OF w2(2)] by blast
  obtain w4 where w4: "wf_close (env_writable (db_env db) h) w3 = Some (Status_Ok, w4)" "files w4 = files w3" using close[OF w3(2)] by blast
  let ?w5 = "env_delete_writable (db_env db) h w4"
  have "files w2 = (files w1)(?man \<mapsto> layout 0 (log_pieces 0 [r]))" using after[OF w2(2)] w2(3) o(2) by simp
  then have f5: "files ?w5 = (files w)(?man \<mapsto> layout 0 (log_pieces 0 [r]))" using w3(3) w4(2) o(2) env by (simp add: fun_upd_def fun_eq_iff)
  obtain w6 where w6: "set_current_file (db_env db) (db_name db) 1 ?w5 = Some (Status_Ok, w6)"
    "files w6 = (files ?w5)(the (temp_file_name (db_name db) 1) := None, current_file_name (db_name db) \<mapsto> manifest_base 1 @ [10])"
    using set_current_works[OF env, of 1] by auto
  have "new_db db w = Some (Status_Ok, w6)"
    using name o(1) r w2(1) w3(1) w4(1) w6(1) by (simp add: new_db_def Let_def del: cstr_Cons)
  with w6(2) f5 show ?thesis by simp
qed

text \<open>A database object over a well-formed version set, as the constructor was meant to make it.\<close>

definition db_ready :: "'w db_impl \<Rightarrow> nat list \<Rightarrow> bool" where
  "db_ready db xs \<longleftrightarrow> versions_ok (versions db) xs \<and> (\<forall>x\<in>set xs. files_of (vs_heap (versions db)) x = {})
     \<and> vs_env (versions db) = db_env db \<and> vs_dbname (versions db) = db_name db
     \<and> vs_comparator (versions db) = db_comparator db \<and> \<not> opt_reuse_logs (vs_options (versions db))"

lemma parse_fixed_names:
  "parse_file_name (cstr ''CURRENT'') = Some (0, kCurrentFile)"
  "parse_file_name (cstr ''LOCK'') = Some (0, kDBLockFile)"
  by (simp_all add: parse_file_name_def del: cstr_Cons) (simp_all)

lemma parse_manifest: "parse_file_name (manifest_base n) = Some (n, kDescriptorFile)"
  unfolding manifest_base_def by (rule parse_formatted(1))

lemma first_manifest: "manifest_base 1 = cstr ''MANIFEST-000001''"
  by (simp add: manifest_base_def format_06llu_def decimal_digits.simps[of "Suc 0"] numeral_eq_Suc Let_def)

text \<open>Recovering the versions of a database that does not exist yet.\<close>

lemma recover_new_versions:
  assumes env: "working_env (db_env db) files" and ready: "db_ready db xs" and lock: "db_lock db = None"
    and new: "opt_create_if_missing (db_options db)" "files w (current_file_name (db_name db)) = None"
    and a: "vs_heap (versions db) (new_at (vs_heap (versions db))) = None"
    and r: "ve_encode_to (new_db_edit db) [] = Some r" "length r + kHeaderSize \<le> kBlockSize"
    and name: "length (comparator_name (db_comparator db)) < 2 ^ 32"
  shows "\<exists>h vs' w'. recover_versions new_at save db w = Some (Status_Ok, True, db\<lparr>db_lock := Some h, versions := vs'\<rparr>, w')
    \<and> vs_log_number vs' = 0 \<and> vs_prev_log_number vs' = 0 \<and> vs_last_sequence vs' = 0
    \<and> vs_manifest_file_number vs' = 2 \<and> vs_next_file_number vs' = 3
    \<and> (\<exists>ys. versions_ok vs' ys \<and> (\<forall>x\<in>set ys. files_of (vs_heap vs') x = {}))
    \<and> (\<forall>f. f \<noteq> lock_file_name (db_name db) \<longrightarrow> files w' f = ((files w)(db_name db @ cstr ''/'' @ manifest_base 1 \<mapsto> layout 0 (log_pieces 0 [r]),
        the (temp_file_name (db_name db) 1) := None, current_file_name (db_name db) \<mapsto> manifest_base 1 @ [10])) f)"
proof -
  let ?name = "db_name db" and ?vs = "versions db" and ?e = "new_db_edit db"
  let ?man = "?name @ cstr ''/'' @ manifest_base 1"
  let ?F = "\<lambda>F. F(?man \<mapsto> layout 0 (log_pieces 0 [r]), the (temp_file_name ?name 1) := None, current_file_name ?name \<mapsto> manifest_base 1 @ [10])"
  note rd = ready[unfolded db_ready_def]
  obtain w1 where w1: "env_create_dir (db_env db) ?name w = Some (Status_Ok, w1)" "files w1 = files w"
    using working_create_dir[OF env] by blast
  obtain h w2 where w2: "env_lock_file (db_env db) (lock_file_name ?name) w1 = Some (Status_Ok, h, w2)"
    "\<forall>g. g \<noteq> lock_file_name ?name \<longrightarrow> files w2 g = files w1 g" using working_lock[OF env] by blast
  let ?db = "db\<lparr>db_lock := Some h\<rparr>"
  have "current_file_name ?name \<noteq> lock_file_name ?name" by (simp add: current_file_name_def lock_file_name_def)
  then have "files w2 (current_file_name ?name) = None" using w2(2) w1(2) new(2) by simp
  then obtain w3 where w3: "env_file_exists (db_env db) (current_file_name ?name) w2 = Some (False, w3)" "files w3 = files w2"
    using working_exists[OF env, of "current_file_name ?name" w2] by auto
  have "new_db_edit ?db = ?e" by (simp add: new_db_edit_def user_comparator_def)
  then obtain w4 where w4: "new_db ?db w3 = Some (Status_Ok, w4)" "files w4 = ?F (files w3)"
    using new_db_works[of ?db files r w3] env r(1) by auto
  have names: "?man \<noteq> current_file_name ?name" "?man \<noteq> the (temp_file_name ?name 1)"
    using manifest_names[of 1 ?name] by (auto simp: temp_file_name_def)
  have plain: "plain_edit ?e" by (rule new_db_edit_plain[OF name])
  have enc: "encodes r ?e" using encodes_plain[OF plain] r(1) by auto
  have fits: "unfragmented 0 [r]" using r(2) by (simp add: start_of_def log_sizes)
  have holds: "manifest_holds files (vs_dbname ?vs) (manifest_base 1) [?e] w4"
    unfolding manifest_holds_def using w4(2) names rd fits enc
    by (intro conjI exI[of _ "[r]"]) (simp_all del: cstr_Cons log_pieces.simps unfragmented.simps)
  obtain c where c: "vs_heap ?vs (last xs) = Some c" using rd versions_okD(5) by blast
  have app: "apply_edits [?e] (fresh_builder (last xs)) ?vs
      = Some ((fresh_builder (last xs))\<lparr>b_levels := b_levels (fresh_builder (last xs))\<rparr>, ?vs)"
    by (simp add: builder_apply_plain[OF plain] new_db_edit_numbers(4))
  have match: "list_all (comparator_matches (vs_comparator ?vs)) [?e]"
    using new_db_edit_numbers(1,2)[of db] rd by (simp add: comparator_matches_def)
  let ?r = "fold note_numbers [?e] no_numbers" and ?a = "new_at (vs_heap ?vs)"
  have rn: "?r = \<lparr>r_next_file = Some 2, r_last_sequence = Some 0, r_log_number = Some 0, r_prev_log_number = None\<rparr>"
    using new_db_edit_numbers(3)[of db] by simp
  have some: "r_next_file ?r \<noteq> None" "r_log_number ?r \<noteq> None" "r_last_sequence ?r \<noteq> None" unfolding rn by simp_all
  have env': "working_env (vs_env ?vs) files" and ok: "versions_ok ?vs xs" and reuse: "\<not> opt_reuse_logs (vs_options ?vs)"
    using rd env by auto
  let ?ys = "(if ver_refs c = 1 then butlast xs else xs) @ [?a]"
  obtain k w5 where rec: "vs_recover ?a save ?vs w4 = Some (Status_Ok, True, recovered_set ?a ?r (vs_compact_pointer ?vs) k ?vs, w5)"
    "files w5 = files w4" "versions_ok (recovered_set ?a ?r (vs_compact_pointer ?vs) k ?vs) ?ys" "files_of k ?a = {}"
    "\<forall>x. x \<noteq> ?a \<longrightarrow> k x \<noteq> None \<longrightarrow> files_of k x = files_of (vs_heap ?vs) x"
    using recover_installs[OF env' ok a holds match app refl some reuse c, of save] by blast
  let ?vs' = "recovered_set ?a ?r (vs_compact_pointer ?vs) k ?vs"
  have run: "recover_versions new_at save db w = Some (Status_Ok, True, db\<lparr>db_lock := Some h, versions := ?vs'\<rparr>, w5)"
    using w1(1) w2(1) w3(1) w4(1) rec(1) lock new(1) by (simp add: recover_versions_def check_current_def Let_def)
  have nums: "vs_log_number ?vs' = 0" "vs_prev_log_number ?vs' = 0" "vs_last_sequence ?vs' = 0" "vs_manifest_file_number ?vs' = 2"
    "vs_next_file_number ?vs' = 3"
    unfolding rn by (simp_all add: recovered_set_def number_of_def)
  have empty: "files_of (vs_heap ?vs') x = {}" if "x \<in> set ?ys" for x
  proof (cases "x = ?a")
    case True
    then show ?thesis using rec(4) by (simp add: recovered_set_def)
  next
    case False
    then have "x \<in> set xs" using that by (auto split: if_splits dest: in_set_butlastD)
    moreover have "k x \<noteq> None"
      using versions_okD(4)[OF rec(3)] that by (auto simp: recovered_set_def dom_def set_eq_iff simp del: set_append)
    ultimately show ?thesis using rec(5) False rd by (simp add: recovered_set_def)
  qed
  have final: "files w5 f = ?F (files w) f" if "f \<noteq> lock_file_name ?name" for f
    using that rec(2) w4(2) w3(2) w2(2) w1(2) by simp
  show ?thesis using run nums empty rec(3) final by blast
qed

section \<open>Looking for logs\<close>

lemma note_file_no_log:
  assumes "\<And>n t. parse_file_name f = Some (n, t) \<Longrightarrow> t \<noteq> kLogFile"
  shows "note_file vs f ({}, ls) = ({}, ls)"
  using assms by (cases "parse_file_name f") (auto simp: note_file_def split: prod.splits)

lemma scan_each_no_log:
  assumes "\<And>f n t. f \<in> set fs \<Longrightarrow> parse_file_name f = Some (n, t) \<Longrightarrow> t \<noteq> kLogFile"
  shows "scan_each name vs fs ({}, ls) = Some (Inr ls)"
  using assms
proof (induction fs)
  case (Cons f fs)
  have head: "note_file vs f ({}, ls) = ({}, ls)" by (rule note_file_no_log) (use Cons.prems in auto)
  have "scan_each name vs fs ({}, ls) = Some (Inr ls)" by (rule Cons.IH) (use Cons.prems in auto)
  with head show ?case by (simp add: Let_def)
qed simp

lemma note_file_fst: "fst (note_file vs f ({}, ls)) = {}"
  by (auto simp: note_file_def split: option.splits prod.splits)

text \<open>With no file missing, every log that is not too old is found.\<close>

lemma scan_each_finds:
  "\<exists>ls'. scan_each name vs fs ({}, ls) = Some (Inr ls') \<and> set ls \<subseteq> set ls' \<and>
     (\<forall>f n. f \<in> set fs \<longrightarrow> parse_file_name f = Some (n, kLogFile) \<longrightarrow> n \<ge> vs_log_number vs \<or> n = vs_prev_log_number vs \<longrightarrow> n \<in> set ls')"
proof (induction fs arbitrary: ls)
  case (Cons f fs)
  obtain ls1 where ls1: "note_file vs f ({}, ls) = ({}, ls1)"
    using note_file_fst[of vs f ls] by (cases "note_file vs f ({}, ls)") auto
  then have here: "set ls \<subseteq> set ls1" "\<And>n. parse_file_name f = Some (n, kLogFile) \<Longrightarrow> n \<ge> vs_log_number vs \<or> n = vs_prev_log_number vs \<Longrightarrow> n \<in> set ls1"
    by (auto simp: note_file_def split: option.splits prod.splits if_splits)
  obtain ls' where ls': "scan_each name vs fs ({}, ls1) = Some (Inr ls')" "set ls1 \<subseteq> set ls'"
    "\<forall>f n. f \<in> set fs \<longrightarrow> parse_file_name f = Some (n, kLogFile) \<longrightarrow> n \<ge> vs_log_number vs \<or> n = vs_prev_log_number vs \<longrightarrow> n \<in> set ls'"
    using Cons.IH[of ls1] by blast
  have "scan_each name vs (f # fs) ({}, ls) = Some (Inr ls')" using ls1 ls'(1) by simp
  then show ?case using here ls'(2,3) by (intro exI[of _ ls']) auto
qed simp

lemma live_none:
  assumes "versions_ok vs ys" and "\<forall>x\<in>set ys. files_of (vs_heap vs) x = {}"
  shows "add_live_files vs live = Some live"
  using add_live_ring[OF versions_okD(1)[OF assms(1)], of live] assms(2) by simp

text \<open>The lock is taken once: a call that finds it taken fails its assertion.\<close>

lemma replay_locked: "db_lock db \<noteq> None \<Longrightarrow> replay new_at (Logs (l # ls)) save db w = None"
  by (subst replay.simps, subst replay.simps)
    (cases "env_create_dir (db_env db) (db_name db) w"; simp add: recover_versions_def split_beta)

lemma find_no_logs:
  assumes env: "working_env (db_env db) files" and ok: "versions_ok (versions db) ys" "\<forall>x\<in>set ys. files_of (vs_heap (versions db)) x = {}"
    and none: "\<And>g n t. files w (db_name db @ cstr ''/'' @ g) \<noteq> None \<Longrightarrow> parse_file_name g = Some (n, t) \<Longrightarrow> t \<noteq> kLogFile"
  shows "\<exists>w'. find_logs scan_each db w = Some (Inr [], w') \<and> files w' = files w"
proof -
  obtain names w1 where c: "env_get_children (db_env db) (db_name db) w = Some (Status_Ok, names, w1)" "files w1 = files w"
    "\<forall>g. g \<in> set names \<longleftrightarrow> files w (db_name db @ cstr ''/'' @ g) \<noteq> None" using working_children[OF env] by blast
  have "scan_each (db_name db) (versions db) names ({}, []) = Some (Inr [])"
    by (rule scan_each_no_log) (use none c(3) in blast)
  then show ?thesis using c live_none[OF ok] by (simp add: find_logs_def)
qed

text \<open>A log that is there is found, and its replay cannot return.\<close>

lemma find_some_log:
  assumes env: "working_env (db_env db) files" and ok: "versions_ok (versions db) ys" "\<forall>x\<in>set ys. files_of (vs_heap (versions db)) x = {}"
    and log_there: "files w (db_name db @ cstr ''/'' @ g) \<noteq> None" "parse_file_name g = Some (n, kLogFile)"
      "n \<ge> vs_log_number (versions db) \<or> n = vs_prev_log_number (versions db)"
  shows "\<exists>l ls w'. find_logs scan_each db w = Some (Inr (l # ls), w')"
proof -
  obtain names w1 where c: "env_get_children (db_env db) (db_name db) w = Some (Status_Ok, names, w1)" "files w1 = files w"
    "\<forall>g. g \<in> set names \<longleftrightarrow> files w (db_name db @ cstr ''/'' @ g) \<noteq> None" using working_children[OF env] by blast
  obtain ls where ls: "scan_each (db_name db) (versions db) names ({}, []) = Some (Inr ls)"
    "\<forall>f n. f \<in> set names \<longrightarrow> parse_file_name f = Some (n, kLogFile) \<longrightarrow>
       n \<ge> vs_log_number (versions db) \<or> n = vs_prev_log_number (versions db) \<longrightarrow> n \<in> set ls"
    using scan_each_finds[of "db_name db" "versions db" names "[]"] by blast
  have "set (sort ls) \<noteq> {}" using ls(2) c(3) log_there by auto
  then obtain l ls' where "sort ls = l # ls'" by (cases "sort ls") auto
  then show ?thesis using c ls(1) live_none[OF ok] by (simp add: find_logs_def)
qed

lemma recover_versions_locks:
  assumes "recover_versions new_at save db w = Some (s, save1, db1, w1)" and "is_ok s"
  shows "db_lock db1 \<noteq> None \<and> db_env db1 = db_env db \<and> db_name db1 = db_name db"
proof -
  obtain s1 wa where "env_create_dir (db_env db) (db_name db) w = Some (s1, wa)" "db_lock db = None"
    using assms(1) by (auto simp: recover_versions_def bind_eq_Some_conv split: if_splits)
  moreover from this obtain s2 h wb where "env_lock_file (db_env db) (lock_file_name (db_name db)) wa = Some (s2, h, wb)" "is_ok s2"
    using assms by (auto simp: recover_versions_def bind_eq_Some_conv split: if_splits)
  moreover from calculation obtain b wc where "env_file_exists (db_env db) (current_file_name (db_name db)) wb = Some (b, wc)"
    using assms by (auto simp: recover_versions_def bind_eq_Some_conv Let_def)
  moreover from calculation obtain s3 wd where "check_current (db\<lparr>db_lock := Some h\<rparr>) b wc = Some (s3, wd)" "is_ok s3"
    using assms by (auto simp: recover_versions_def bind_eq_Some_conv Let_def split: if_splits)
  moreover from calculation obtain vs where "db1 = db\<lparr>db_lock := Some h, versions := vs\<rparr>"
    using assms by (auto simp: recover_versions_def Let_def)
  ultimately show ?thesis by simp
qed

section \<open>Properties\<close>

text \<open>
  C9. Recovering a database that does not exist, when it may be created, in an environment that works
  and a directory without logs: \<open>Recover\<close> returns OK and asks for a manifest, it holds the lock,
  CURRENT names the first manifest, and the numbers are the ones \<open>NewDB\<close> wrote.
\<close>

theorem new_database_recovers:
  assumes "working_env (db_env db) files" and "db_ready db xs" and "db_lock db = None"
    and "opt_create_if_missing (db_options db)" and "files w (current_file_name (db_name db)) = None"
    and "vs_heap (versions db) (new_at (vs_heap (versions db))) = None"
    and "ve_encode_to (new_db_edit db) [] = Some r" and "length r + kHeaderSize \<le> kBlockSize"
    and "length (comparator_name (db_comparator db)) < 2 ^ 32"
    and "\<And>g n t. files w (db_name db @ cstr ''/'' @ g) \<noteq> None \<Longrightarrow> parse_file_name g = Some (n, t) \<Longrightarrow> t \<noteq> kLogFile"
  shows "\<exists>h vs' w'. db_recover new_at save db w = Some (Status_Ok, True, db\<lparr>db_lock := Some h, versions := vs'\<rparr>, w')
    \<and> vs_log_number vs' = 0 \<and> vs_prev_log_number vs' = 0 \<and> vs_last_sequence vs' = 0
    \<and> vs_manifest_file_number vs' = 2 \<and> vs_next_file_number vs' = 3
    \<and> files w' (current_file_name (db_name db)) = Some (cstr ''MANIFEST-000001'' @ [10])"
proof -
  let ?name = "db_name db"
  obtain h vs' w' ys where rec: "recover_versions new_at save db w = Some (Status_Ok, True, db\<lparr>db_lock := Some h, versions := vs'\<rparr>, w')"
    and nums: "vs_log_number vs' = 0" "vs_prev_log_number vs' = 0" "vs_last_sequence vs' = 0" "vs_manifest_file_number vs' = 2" "vs_next_file_number vs' = 3"
    and ok: "versions_ok vs' ys" "\<forall>x\<in>set ys. files_of (vs_heap vs') x = {}"
    and fs: "\<forall>f. f \<noteq> lock_file_name ?name \<longrightarrow> files w' f = ((files w)(?name @ cstr ''/'' @ manifest_base 1 \<mapsto> layout 0 (log_pieces 0 [r]),
        the (temp_file_name ?name 1) := None, current_file_name ?name \<mapsto> manifest_base 1 @ [10])) f"
    using recover_new_versions[where save = save and new_at = new_at and w = w and files = files, OF assms(1-9)] by blast
  let ?db = "db\<lparr>db_lock := Some h, versions := vs'\<rparr>"
  have "t \<noteq> kLogFile" if there: "files w' (?name @ cstr ''/'' @ g) \<noteq> None" and parse: "parse_file_name g = Some (n, t)" for g n t
  proof -
    have "g = cstr ''LOCK'' \<or> g = cstr ''CURRENT'' \<or> g = manifest_base 1 \<or> files w (?name @ cstr ''/'' @ g) \<noteq> None"
      using there fs[rule_format, of "?name @ cstr ''/'' @ g"]
      by (auto simp: lock_file_name_def current_file_name_def split: if_splits)
    then show ?thesis using assms(10) parse parse_fixed_names parse_manifest by (auto simp del: cstr_Cons)
  qed
  then obtain w2 where w2: "find_logs scan_each ?db w' = Some (Inr [], w2)" "files w2 = files w'"
    using find_no_logs[of ?db files ys w'] assms(1) ok by auto
  have "replay new_at (Logs []) True ?db w2 = Some (Status_Ok, True, ?db, w2)" by (subst replay.simps) simp
  then have "db_recover new_at save db w = Some (Status_Ok, True, ?db, w2)"
    using rec w2(1) nums(3) by (simp add: db_recover_def finish_recovery_def)
  moreover have "files w2 (current_file_name ?name) = Some (cstr ''MANIFEST-000001'' @ [10])"
    using w2(2) fs by (simp add: first_manifest current_file_name_def lock_file_name_def)
  ultimately show ?thesis using nums by blast
qed

text \<open>A database object in the environment in memory, as the constructor was meant to make it.\<close>

definition sample_db :: "nat sharded_lru_cache \<Rightarrow> mem_world db_impl" where
  "sample_db c = \<lparr>db_env = mem_env, db_comparator = bytewise_comparator, db_filter_policy = Internal_Policy None,
     db_options = main_options mem_env, owns_info_log = False, db_name = cstr ''db'',
     db_table_cache = \<lparr>tc_env = mem_env, tc_dbname = cstr ''db'', tc_options = main_options mem_env, tc_cache = c\<rparr>,
     db_lock = None, shutting_down = False, db_mem = None, db_imm = None, log_file = None, logfile_number = 0,
     db_log = None, pending_outputs = {}, background_compaction_scheduled = False, manual_compaction_request = None,
     versions = sample_set mem_env 2, bg_error = Status_Ok\<rparr>"

lemma sample_no_files: "\<forall>x\<in>set [1]. files_of (vs_heap (sample_set e m)) x = {}"
  by (simp add: sample_set_def files_of_def version_ctor_def)

lemma sample_db_ready: "db_ready (sample_db c) [1]"
  using sample_set_ok[of mem_env 2] sample_no_files[of mem_env 2]
  by (simp add: db_ready_def sample_db_def) (simp add: sample_set_def options_ctor_def)

lemma sample_new_edit: "ve_encode_to (new_db_edit (sample_db c)) [] = Some (1 # 34 # cstr ''simple_leveldb.bytewise_comparator'' @ [2, 0, 3, 2, 4, 0])"
  by (simp add: sample_db_def new_db_edit_def user_comparator_def bytewise_comparator_def ve_encode_to_def put_flagged_def
      set_comparator_name_def set_log_number_def set_next_file_def set_last_sequence_def version_edit_ctor_def ve_clear_def
      tag_defs put_varint32_def put_varint64_def put_length_prefixed_slice_def slice_size_def slice_to_string_def
      encode_varint32_def encode_varint64.simps)

lemma sample_world_files:
  "mem_files (mem_empty\<lparr>mw_files := [(f, c)]\<rparr>) g = (if g = f then Some c else None)"
  by (simp add: mem_files_def)

theorem new_database_recovers_witness:
  "\<forall>c. \<exists>h vs' w'. db_recover (\<lambda>h. 2) False (sample_db c) mem_empty
      = Some (Status_Ok, True, (sample_db c)\<lparr>db_lock := Some h, versions := vs'\<rparr>, w')
    \<and> vs_next_file_number vs' = 3 \<and> mem_files w' (cstr ''db/CURRENT'') = Some (cstr ''MANIFEST-000001'' @ [10])"
proof
  fix c
  have f: "working_env (db_env (sample_db c)) mem_files" "db_lock (sample_db c) = None" "opt_create_if_missing (db_options (sample_db c))"
    "vs_heap (versions (sample_db c)) ((\<lambda>h. 2) (vs_heap (versions (sample_db c)))) = None"
    "length (comparator_name (db_comparator (sample_db c))) < 2 ^ 32" "db_name (sample_db c) = cstr ''db''"
    using mem_working by (simp_all add: sample_db_def main_options_def sample_set_def bytewise_comparator_def)
  have e: "mem_files mem_empty g = None" for g by (simp add: mem_files_def mem_empty_def)
  show "\<exists>h vs' w'. db_recover (\<lambda>h. 2) False (sample_db c) mem_empty
      = Some (Status_Ok, True, (sample_db c)\<lparr>db_lock := Some h, versions := vs'\<rparr>, w')
    \<and> vs_next_file_number vs' = 3 \<and> mem_files w' (cstr ''db/CURRENT'') = Some (cstr ''MANIFEST-000001'' @ [10])"
    using new_database_recovers[where save = False and w = mem_empty and new_at = "\<lambda>h. 2", OF f(1) sample_db_ready f(2,3) e f(4) sample_new_edit _ f(5)]
    by (auto simp: e log_sizes f(6) current_file_name_def)
qed

text \<open>
  C20. A database with a log to replay cannot be recovered: once the versions are recovered, the lock is
  held, and \<open>RecoverLogFile\<close>, which takes it again, fails its assertion; so \<open>Recover\<close> does not return.
\<close>

theorem log_replay_never_returns:
  assumes "working_env (db_env db) files" and "recover_versions new_at save db w = Some (s, save1, db1, w1)" and "is_ok s"
    and "versions_ok (versions db1) ys" and "\<forall>x\<in>set ys. files_of (vs_heap (versions db1)) x = {}"
    and "files w1 (db_name db @ cstr ''/'' @ g) \<noteq> None" and "parse_file_name g = Some (n, kLogFile)"
    and "n \<ge> vs_log_number (versions db1) \<or> n = vs_prev_log_number (versions db1)"
  shows "db_recover new_at save db w = None \<and> recover_log_file new_at n last_log save1 db1 w1 = None"
proof -
  note db1 = recover_versions_locks[OF assms(2,3)]
  obtain l ls w2 where "find_logs scan_each db1 w1 = Some (Inr (l # ls), w2)"
    using find_some_log[of db1 files ys w1 g n] assms(1,4-8) db1 by auto
  then have "db_recover new_at save db w = None"
    using assms(2,3) db1 by (simp add: db_recover_def replay_locked)
  moreover have "recover_versions new_at save1 db1 w1 = None"
    using db1 by (cases "env_create_dir (db_env db1) (db_name db1) w1") (auto simp: recover_versions_def)
  then have "recover_log_file new_at n last_log save1 db1 w1 = None"
    by (simp add: recover_log_file_def replay.simps[of _ "One_Log n last_log"])
  ultimately show ?thesis by simp
qed

theorem log_replay_never_returns_witness:
  "\<forall>c. db_recover (\<lambda>h. 2) False (sample_db c) (mem_empty\<lparr>mw_files := [(cstr ''db/000005.log'', [])]\<rparr>) = None"
proof
  fix c
  let ?w = "mem_empty\<lparr>mw_files := [(cstr ''db/000005.log'', [])]\<rparr>"
  let ?g = "format_06llu 5 @ cstr ''.'' @ cstr ''log''"
  have five: "format_06llu 5 = cstr ''000005''"
    by (simp add: format_06llu_def decimal_digits.simps[of 5] zeros5 Let_def)
  have f: "working_env (db_env (sample_db c)) mem_files" "db_lock (sample_db c) = None" "opt_create_if_missing (db_options (sample_db c))"
    "vs_heap (versions (sample_db c)) ((\<lambda>h. 2) (vs_heap (versions (sample_db c)))) = None"
    "length (comparator_name (db_comparator (sample_db c))) < 2 ^ 32" "db_name (sample_db c) = cstr ''db''"
    using mem_working by (simp_all add: sample_db_def main_options_def sample_set_def bytewise_comparator_def)
  have missing: "mem_files ?w (current_file_name (db_name (sample_db c))) = None"
    by (simp add: sample_world_files f(6) current_file_name_def)
  obtain h vs' w' ys where rec: "recover_versions (\<lambda>h. 2) False (sample_db c) ?w
      = Some (Status_Ok, True, (sample_db c)\<lparr>db_lock := Some h, versions := vs'\<rparr>, w')"
    and n0: "vs_log_number vs' = 0" and ok: "versions_ok vs' ys" "\<forall>x\<in>set ys. files_of (vs_heap vs') x = {}"
    and fs: "\<forall>f. f \<noteq> lock_file_name (cstr ''db'') \<longrightarrow> mem_files w' f = ((mem_files ?w)(cstr ''db'' @ cstr ''/'' @ manifest_base 1
        \<mapsto> layout 0 (log_pieces 0 [1 # 34 # cstr ''simple_leveldb.bytewise_comparator'' @ [2, 0, 3, 2, 4, 0]]),
        the (temp_file_name (cstr ''db'') 1) := None, current_file_name (cstr ''db'') \<mapsto> manifest_base 1 @ [10])) f"
    using recover_new_versions[where save = False and w = ?w and new_at = "\<lambda>h. 2", OF f(1) sample_db_ready f(2,3) missing f(4) sample_new_edit _ f(5)]
    by (auto simp: log_sizes f(6) simp del: cstr_Cons log_pieces.simps fun_upd_apply)
  have there: "mem_files w' (cstr ''db'' @ cstr ''/'' @ ?g) \<noteq> None"
    using fs[rule_format, of "cstr ''db'' @ cstr ''/'' @ ?g"]
    by (simp add: five lock_file_name_def current_file_name_def temp_file_name_def make_file_name_def first_manifest sample_world_files)
  show "db_recover (\<lambda>h. 2) False (sample_db c) ?w = None"
    using log_replay_never_returns[OF f(1) rec, of ys ?g 5] ok there parse_formatted(2)[of 5] n0 by (simp add: f(6))
qed

end
