(* ===== verification/Db_Files.thy ===== *)
theory Db_Files
  imports Db_Spec
begin

text \<open>
  \<open>RemoveObsoleteFiles\<close>: which files it removes, and what that means for a table that was just added.
\<close>

section \<open>Removing files\<close>

lemma evict_total:
  assumes "sharded_inv cap (tc_cache tc) cls"
  shows "\<exists>tc'. tc_evict n tc = Some tc' \<and> sharded_inv cap (tc_cache tc') cls"
proof -
  let ?h = "hash_slice (table_key n)"
  let ?i = "shard_of ?h"
  have reach: "cache_reach cap (shards (tc_cache tc) ! ?i) (cls ?i)" and len: "length (shards (tc_cache tc)) = kNumShards"
    using assms by (auto simp: sharded_inv_def)
  obtain c where c: "cache_erase (table_key n) ?h (shards (tc_cache tc) ! ?i) = Some c"
    using erase_inv cache_reach_inv[OF reach] by blast
  have "cache_reach cap c (cls ?i)" by (rule cache_reach.step[OF reach cache_step.erased[OF c]])
  then have "sharded_inv cap ((tc_cache tc)\<lparr>shards := (shards (tc_cache tc))[?i := c]\<rparr>) cls"
    using assms len by (auto simp: sharded_inv_def nth_list_update)
  then show ?thesis using c by (simp add: tc_evict_def sharded_erase_def on_shard_def Let_def)
qed

definition obsolete :: "'w db_impl \<Rightarrow> u64 set \<Rightarrow> bytes \<Rightarrow> bool" where
  "obsolete db live f \<longleftrightarrow> (\<exists>n t. parse_file_name f = Some (n, t) \<and> \<not> keep_file db live n t)"

lemma obsolete_files_total:
  "sharded_inv cap (tc_cache tc) cls \<Longrightarrow>
   \<exists>tc'. obsolete_files db live fs tc = Some (filter (obsolete db live) fs, tc') \<and> sharded_inv cap (tc_cache tc') cls"
proof (induction fs arbitrary: tc)
  case (Cons f fs)
  show ?case
  proof (cases "obsolete db live f")
    case True
    then obtain n t where nt: "parse_file_name f = Some (n, t)" "\<not> keep_file db live n t" by (auto simp: obsolete_def)
    obtain tc1 where tc1: "(if t = kTableFile then tc_evict n tc else Some tc) = Some tc1" "sharded_inv cap (tc_cache tc1) cls"
      using evict_total[OF Cons.prems, of n] Cons.prems by (cases "t = kTableFile") auto
    with Cons.IH[OF tc1(2)] nt True show ?thesis by auto
  next
    case False
    with Cons.IH[OF Cons.prems] show ?thesis by (auto simp: obsolete_def split: option.split)
  qed
qed auto

lemma remove_all_total:
  assumes "working_env e files"
  shows "\<exists>w'. remove_all e name fs w = Some w' \<and> files w' = (\<lambda>f. if \<exists>g\<in>set fs. f = name @ cstr ''/'' @ g then None else files w f)"
proof (induction fs arbitrary: w)
  case (Cons g fs)
  obtain s w1 where w1: "env_remove_file e (name @ cstr ''/'' @ g) w = Some (s, w1)" "files w1 = (files w)(name @ cstr ''/'' @ g := None)"
    using working_remove[OF assms] by blast
  then show ?case using Cons.IH[of w1] by (auto simp: fun_eq_iff)
qed (simp add: fun_eq_iff)

lemma remove_obsolete_effect:
  assumes env: "working_env (db_env db) files" and "is_ok (bg_error db)" and ok: "versions_ok (versions db) xs"
    and cache: "sharded_inv cap (tc_cache (db_table_cache db)) cls"
    and live: "live = pending_outputs db \<union> (\<Union>x\<in>set xs. files_of (vs_heap (versions db)) x)"
  shows "\<exists>tc w'. remove_obsolete_files db w = Some (db\<lparr>db_table_cache := tc\<rparr>, w')
    \<and> files w' = (\<lambda>f. if \<exists>g. f = db_name db @ cstr ''/'' @ g \<and> obsolete db live g then None else files w f)"
proof -
  have l: "add_live_files (versions db) (pending_outputs db) = Some live"
    using add_live_ring[OF versions_okD(1)[OF ok]] live by simp
  obtain names w1 where w1: "env_get_children (db_env db) (db_name db) w = Some (Status_Ok, names, w1)" "files w1 = files w"
    "\<forall>g. g \<in> set names \<longleftrightarrow> files w (db_name db @ cstr ''/'' @ g) \<noteq> None" using working_children[OF env] by blast
  obtain tc where tc: "obsolete_files db live names (db_table_cache db) = Some (filter (obsolete db live) names, tc)"
    using obsolete_files_total[OF cache] by blast
  obtain w2 where w2: "remove_all (db_env db) (db_name db) (filter (obsolete db live) names) w1 = Some w2"
    "files w2 = (\<lambda>f. if \<exists>g\<in>set (filter (obsolete db live) names). f = db_name db @ cstr ''/'' @ g then None else files w1 f)"
    using remove_all_total[OF env] by blast
  have "files w2 = (\<lambda>f. if \<exists>g. f = db_name db @ cstr ''/'' @ g \<and> obsolete db live g then None else files w f)"
    using w1(2,3) by (auto simp: w2(2) fun_eq_iff)
  moreover have "remove_obsolete_files db w = Some (db\<lparr>db_table_cache := tc\<rparr>, w2)"
    using assms(2) l w1(1) tc w2(1) by (simp add: remove_obsolete_files_def)
  ultimately show ?thesis by blast
qed

section \<open>Properties\<close>

text \<open>
  C10. \<open>RemoveObsoleteFiles\<close> removes exactly the obsolete files of the directory: logs older than the
  current one that are not the previous one, tables and temporary files that no version lists and no
  pending output names, and older manifests.  Files it cannot parse, CURRENT, the lock, the info
  logs and everything outside the directory stay, and nothing but the table cache changes in the object.
\<close>

theorem obsolete_files_are_removed:
  assumes "working_env (db_env db) files" and "is_ok (bg_error db)" and "versions_ok (versions db) xs"
    and "sharded_inv cap (tc_cache (db_table_cache db)) cls"
  shows "\<exists>tc w'. remove_obsolete_files db w = Some (db\<lparr>db_table_cache := tc\<rparr>, w')
    \<and> (\<forall>g. files w' (db_name db @ cstr ''/'' @ g) =
        (let live = pending_outputs db \<union> (\<Union>x\<in>set xs. files_of (vs_heap (versions db)) x) in
         case parse_file_name g of
           Some (n, kLogFile) \<Rightarrow> if n < vs_log_number (versions db) \<and> n \<noteq> vs_prev_log_number (versions db)
             then None else files w (db_name db @ cstr ''/'' @ g)
         | Some (n, kTableFile) \<Rightarrow> if n \<in> live then files w (db_name db @ cstr ''/'' @ g) else None
         | Some (n, kTempFile) \<Rightarrow> if n \<in> live then files w (db_name db @ cstr ''/'' @ g) else None
         | Some (n, kDescriptorFile) \<Rightarrow> if n < vs_manifest_file_number (versions db) then None else files w (db_name db @ cstr ''/'' @ g)
         | _ \<Rightarrow> files w (db_name db @ cstr ''/'' @ g)))
    \<and> (\<forall>f. (\<forall>g. f \<noteq> db_name db @ cstr ''/'' @ g) \<longrightarrow> files w' f = files w f)"
proof -
  obtain tc w' where r: "remove_obsolete_files db w = Some (db\<lparr>db_table_cache := tc\<rparr>, w')"
    "files w' = (\<lambda>f. if \<exists>g. f = db_name db @ cstr ''/'' @ g
        \<and> obsolete db (pending_outputs db \<union> (\<Union>x\<in>set xs. files_of (vs_heap (versions db)) x)) g then None else files w f)"
    using remove_obsolete_effect[OF assms refl] by blast
  show ?thesis
    by (intro exI[of _ tc] exI[of _ w'] conjI r(1))
      (auto simp: r(2) obsolete_def keep_file_def Let_def split: option.split prod.split file_type.split)
qed

lemma five_digits: "format_06llu 5 = cstr ''000005''"
  by (simp add: format_06llu_def decimal_digits.simps[of 5] zeros5 Let_def)

lemma sample_cache: "\<exists>c :: nat sharded_lru_cache. sharded_ctor 990 = Some c \<and> sharded_inv 62 c (\<lambda>_ _. 0)"
  using sharded_ctor_inv[of 990 0] by auto

lemma sample_db_fields:
  "db_env (sample_db c) = mem_env" "db_name (sample_db c) = cstr ''db''" "bg_error (sample_db c) = Status_Ok"
  "versions (sample_db c) = sample_set mem_env 2" "tc_cache (db_table_cache (sample_db c)) = c" "pending_outputs (sample_db c) = {}"
  by (simp_all add: sample_db_def)

theorem obsolete_files_are_removed_witness:
  "\<exists>c tc w'. remove_obsolete_files (sample_db c) (mem_empty\<lparr>mw_files := [(cstr ''db/000005.ldb'', [1]), (cstr ''db/CURRENT'', [2])]\<rparr>)
      = Some ((sample_db c)\<lparr>db_table_cache := tc\<rparr>, w')
    \<and> mem_files w' (cstr ''db/000005.ldb'') = None \<and> mem_files w' (cstr ''db/CURRENT'') = Some [2]"
proof -
  let ?w = "mem_empty\<lparr>mw_files := [(cstr ''db/000005.ldb'', [1]), (cstr ''db/CURRENT'', [2])]\<rparr>"
  obtain c :: "nat sharded_lru_cache" where c: "sharded_inv 62 c (\<lambda>_ _. 0)" using sample_cache by blast
  note f = sample_db_fields[of c]
  have pre: "working_env (db_env (sample_db c)) mem_files" "is_ok (bg_error (sample_db c))" "versions_ok (versions (sample_db c)) [1]"
    "sharded_inv 62 (tc_cache (db_table_cache (sample_db c))) (\<lambda>_ _. 0)"
    using mem_working sample_set_ok[of mem_env 2] c by (simp_all add: f)
  have nums: "vs_log_number (sample_set mem_env 2) = 0" "vs_prev_log_number (sample_set mem_env 2) = 0"
    "vs_manifest_file_number (sample_set mem_env 2) = 2"
    "{} \<union> (\<Union>x\<in>set [1]. files_of (vs_heap (sample_set mem_env 2)) x) = {}"
    using sample_no_files[of mem_env 2] by (simp_all add: sample_set_def)
  obtain tc w' where r: "remove_obsolete_files (sample_db c) ?w = Some ((sample_db c)\<lparr>db_table_cache := tc\<rparr>, w')"
    and g: "\<forall>g. mem_files w' (cstr ''db'' @ cstr ''/'' @ g) =
        (case parse_file_name g of
           Some (n, kLogFile) \<Rightarrow> if n < 0 \<and> n \<noteq> 0 then None else mem_files ?w (cstr ''db'' @ cstr ''/'' @ g)
         | Some (n, kTableFile) \<Rightarrow> if n \<in> {} then mem_files ?w (cstr ''db'' @ cstr ''/'' @ g) else None
         | Some (n, kTempFile) \<Rightarrow> if n \<in> {} then mem_files ?w (cstr ''db'' @ cstr ''/'' @ g) else None
         | Some (n, kDescriptorFile) \<Rightarrow> if n < 2 then None else mem_files ?w (cstr ''db'' @ cstr ''/'' @ g)
         | _ \<Rightarrow> mem_files ?w (cstr ''db'' @ cstr ''/'' @ g))"
    using obsolete_files_are_removed[OF pre, of ?w] unfolding f nums Let_def by blast
  have "mem_files w' (cstr ''db'' @ cstr ''/'' @ format_06llu 5 @ cstr ''.'' @ cstr ''ldb'') = None"
    using g[rule_format, of "format_06llu 5 @ cstr ''.'' @ cstr ''ldb''"] parse_formatted(3)[of 5] by simp
  moreover have "mem_files w' (cstr ''db'' @ cstr ''/'' @ cstr ''CURRENT'') = Some [2]"
    using g[rule_format, of "cstr ''CURRENT''"] parse_fixed_names(1) by (simp add: mem_files_def)
  ultimately show ?thesis using r five_digits by auto
qed

lemma log_any_apply_ok:
  "versions_ok vs xs \<Longrightarrow> vs_heap vs a = None \<Longrightarrow> log_any_apply a e vs w = Some (s, e1, vs1, w1) \<Longrightarrow> is_ok s"
  using versions_okD(5)[of vs xs] log_outcome[of vs xs a _ e w s e1 vs1 w1] by blast

text \<open>After an edit is applied, a file no version held before is in no version, whatever the edit adds.\<close>

lemma applied_files:
  assumes ok: "versions_ok vs xs" and a: "vs_heap vs a = None" and run: "log_any_apply a e vs w = Some (s, e1, vs1, w1)"
    and old: "\<forall>x\<in>set xs. n \<notin> files_of (vs_heap vs) x"
  shows "\<exists>ys. versions_ok vs1 ys \<and> (\<forall>x\<in>set ys. n \<notin> files_of (vs_heap vs1) x)"
proof -
  obtain c where c: "vs_heap vs (last xs) = Some c" using versions_okD(5)[OF ok] by blast
  let ?ys = "(if ver_refs c = 1 then butlast xs else xs) @ [a]"
  obtain b vs' f l h where o: "vs1 = vs'\<lparr>vs_descriptor_file := f, vs_descriptor_log := l, vs_heap := h, vs_current := Some a,
            vs_log_number := log_number e1, vs_prev_log_number := prev_log_number e1\<rparr>"
    and ys: "versions_ok vs1 ?ys" and new: "files_of h a = {}"
    and others: "\<forall>x. x \<noteq> a \<longrightarrow> x \<noteq> last xs \<longrightarrow> body h x = body (vs_heap vs) x"
    and kept: "ver_refs c \<noteq> 1 \<longrightarrow> (\<exists>c'. h (last xs) = Some c' \<and> ver_files c' = ver_files c)"
    using log_outcome[OF ok a c run] by blast
  have h: "vs_heap vs1 = h" by (simp add: o)
  have xs: "distinct xs" "xs \<noteq> []" using versions_okD[OF ok] by auto
  have "n \<notin> files_of h x" if "x \<in> set ?ys" for x
  proof (cases "x = a")
    case True
    then show ?thesis using new by simp
  next
    case False
    then have x: "x \<in> set xs" using that by (auto split: if_splits dest: in_set_butlastD)
    show ?thesis
    proof (cases "x = last xs")
      case True
      have "last xs \<notin> set (butlast xs)" using xs by (metis append_butlast_last_id distinct_append disjoint_iff list.set_intros(1))
      then have "ver_refs c \<noteq> 1" using that True False by (auto split: if_splits)
      then show ?thesis using kept c old x True by (auto simp: files_of_def)
    next
      case b: False
      then show ?thesis using others False old x files_of_body[of h x "vs_heap vs"] by auto
    qed
  qed
  with ys h show ?thesis by blast
qed

text \<open>
  C21. A table that an edit adds is lost: once the edit has been logged and applied, with status OK, the
  next \<open>RemoveObsoleteFiles\<close> deletes the table's file.
\<close>

theorem added_table_is_deleted:
  assumes "working_env (db_env db) files" and "is_ok (bg_error db)" and "sharded_inv cap (tc_cache (db_table_cache db)) cls"
    and "versions_ok (versions db) xs" and "vs_heap (versions db) a = None"
    and "log_any_apply a (add_file level n fsize small large e) (versions db) w = Some (s, e1, vs1, w1)"
    and "table_file_name (db_name db) n = Some t"
    and "n \<notin> pending_outputs db" and "\<forall>x\<in>set xs. n \<notin> files_of (vs_heap (versions db)) x"
  shows "is_ok s \<and> (\<exists>db2 w2. remove_obsolete_files (db\<lparr>versions := vs1\<rparr>) w1 = Some (db2, w2) \<and> files w2 t = None)"
proof -
  let ?db = "db\<lparr>versions := vs1\<rparr>" and ?g = "format_06llu n @ cstr ''.'' @ cstr ''ldb''"
  obtain ys where ys: "versions_ok vs1 ys" "\<forall>x\<in>set ys. n \<notin> files_of (vs_heap vs1) x" using applied_files[OF assms(4,5,6,9)] by blast
  let ?live = "pending_outputs ?db \<union> (\<Union>x\<in>set ys. files_of (vs_heap (versions ?db)) x)"
  have dead: "obsolete ?db ?live ?g" using ys(2) assms(8) parse_formatted(3)[of n] by (auto simp: obsolete_def keep_file_def)
  have t: "t = db_name ?db @ cstr ''/'' @ ?g" using assms(7) by (auto simp: table_file_name_def make_file_name_def split: if_splits)
  have pre: "working_env (db_env ?db) files" "is_ok (bg_error ?db)" "versions_ok (versions ?db) ys"
    "sharded_inv cap (tc_cache (db_table_cache ?db)) cls" using assms(1-3) ys(1) by simp_all
  obtain tc w2 where r: "remove_obsolete_files ?db w1 = Some (?db\<lparr>db_table_cache := tc\<rparr>, w2)"
    "files w2 = (\<lambda>f. if \<exists>g. f = db_name ?db @ cstr ''/'' @ g \<and> obsolete ?db ?live g then None else files w1 f)"
    using remove_obsolete_effect[OF pre refl] by blast
  have "files w2 t = None" unfolding r(2) using dead t by auto
  then show ?thesis using r(1) log_any_apply_ok[OF assms(4-6)] by blast
qed

text \<open>An edit that adds table 5 at level 0, with the numbers \<open>log_any_apply\<close> adds.\<close>

definition sample_table_edit :: version_edit where
  "sample_table_edit = add_file 0 5 100 (replicate 9 1) (replicate 9 2) sample_log_edit"

abbreviation completed_table_edit :: version_edit where
  "completed_table_edit \<equiv> set_last_sequence 0 (set_next_file 4 (set_prev_log_number 0 sample_table_edit))"

lemmas sample_edit_defs = sample_table_edit_def sample_log_edit_def add_file_def set_log_number_def version_edit_ctor_def
  ve_clear_def set_last_sequence_def set_next_file_def set_prev_log_number_def

lemma sample_table_applied:
  "\<exists>vs1 w1. log_any_apply 2 sample_table_edit (sample_set mem_env 2) w = Some (Status_Ok, completed_table_edit, vs1, w1)"
proof -
  let ?vs = "sample_set mem_env 2"
  have plain: "plain_edit completed_table_edit"
    by (simp add: plain_edit_def sample_edit_defs file_fits_def key_fits_def kNumLevels_def file_meta_data_ctor_def)
  have new: "new_files completed_table_edit = [(0, file_meta_data_ctor\<lparr>fnumber := 5, file_size := 100, smallest := replicate 9 1, largest := replicate 9 2\<rparr>)]"
    by (simp add: sample_edit_defs)
  have complete: "complete_edit sample_table_edit ?vs = Some completed_table_edit"
    by (simp add: complete_edit_def sample_edit_defs sample_set_def)
  have ap: "builder_apply completed_table_edit (fresh_builder (last [1])) ?vs \<noteq> None"
    by (simp add: builder_apply_plain[OF plain] new level_index_def kNumLevels_def fresh_builder_def Let_def)
  obtain r where r: "ve_encode_to completed_table_edit [] = Some r" using encodes_plain[OF plain] by blast
  have env: "working_env (vs_env ?vs) mem_files" using mem_working by (simp add: sample_set_def)
  let ?c = "version_ctor\<lparr>ver_next := Some 0, ver_prev := Some 0, ver_refs := 1\<rparr>"
  have c: "vs_heap ?vs (last [1]) = Some ?c" "ver_files ?c = replicate kNumLevels []" by (simp_all add: sample_set_def version_ctor_def)
  show ?thesis
    using first_edit_outcome[OF env sample_set_ok _ _ _ _ complete ap c(1) _ sample_snapshot[OF c(2)] r, of 2 w] plain
    by (auto simp: sample_set_def plain_edit_def)
qed

theorem added_table_is_deleted_witness:
  "\<exists>c vs1 w1 db2 w2. log_any_apply 2 sample_table_edit (versions (sample_db c)) (mem_empty\<lparr>mw_files := [(cstr ''db/000005.ldb'', [1])]\<rparr>)
      = Some (Status_Ok, completed_table_edit, vs1, w1)
    \<and> remove_obsolete_files ((sample_db c)\<lparr>versions := vs1\<rparr>) w1 = Some (db2, w2) \<and> mem_files w2 (cstr ''db/000005.ldb'') = None"
proof -
  let ?w = "mem_empty\<lparr>mw_files := [(cstr ''db/000005.ldb'', [1])]\<rparr>"
  obtain c :: "nat sharded_lru_cache" where c: "sharded_inv 62 c (\<lambda>_ _. 0)" using sample_cache by blast
  note f = sample_db_fields[of c]
  obtain vs1 w1 where run: "log_any_apply 2 sample_table_edit (versions (sample_db c)) ?w = Some (Status_Ok, completed_table_edit, vs1, w1)"
    using sample_table_applied[of ?w] f(4) by auto
  have pre: "working_env (db_env (sample_db c)) mem_files" "is_ok (bg_error (sample_db c))"
    "sharded_inv 62 (tc_cache (db_table_cache (sample_db c))) (\<lambda>_ _. 0)" "versions_ok (versions (sample_db c)) [1]"
    "vs_heap (versions (sample_db c)) 2 = None"
    using mem_working sample_set_ok[of mem_env 2] c by (simp_all add: f sample_set_def)
  have name: "table_file_name (db_name (sample_db c)) 5 = Some (cstr ''db/000005.ldb'')"
    by (simp add: table_file_name_def make_file_name_def f(2) five_digits)
  have "5 \<notin> pending_outputs (sample_db c)" "\<forall>x\<in>set [1]. 5 \<notin> files_of (vs_heap (versions (sample_db c))) x"
    using sample_no_files[of mem_env 2] by (simp_all add: f)
  then show ?thesis
    using added_table_is_deleted[OF pre run[unfolded sample_table_edit_def] name] run by blast
qed

end
