(* ===== verification/Db_Background.thy ===== *)
theory Db_Background
  imports Db_Files
begin

text \<open>
  The background job of \<open>src/leveldb/db_impl.cc\<close> and the interplay of the threads that schedule it.
  The members that are declared without a body, of \<open>db_impl\<close>, \<open>version_set\<close>, \<open>version_edit\<close> and
  \<open>compaction\<close>, are the fields of a record, an argument of everything that uses them; the type
  \<open>'c\<close> stands for \<open>compaction\<close>, whose members no modelled function reads but through these.
\<close>

record ('w, 'c) undefined_members =
  compact_mem_table :: "'w db_impl \<Rightarrow> 'w \<Rightarrow> ('w db_impl \<times> 'w) option"
  do_compaction_work :: "'c compaction_state \<Rightarrow> 'w db_impl \<Rightarrow> 'w \<Rightarrow> (status \<times> 'c compaction_state \<times> 'w db_impl \<times> 'w) option"
  cleanup_compaction :: "'c compaction_state \<Rightarrow> 'w db_impl \<Rightarrow> 'w \<Rightarrow> ('w db_impl \<times> 'w) option"
  record_background_error :: "status \<Rightarrow> 'w db_impl \<Rightarrow> 'w db_impl option"
  compact_range :: "int \<Rightarrow> internal_key option \<Rightarrow> internal_key option \<Rightarrow> 'w version_set \<Rightarrow> ('c option \<times> 'w version_set) option"
  pick_compaction :: "'w version_set \<Rightarrow> ('c option \<times> 'w version_set) option"
  cp_level :: "'c \<Rightarrow> int"
  cp_edit :: "'c \<Rightarrow> version_edit"
  cp_store_edit :: "version_edit \<Rightarrow> 'c \<Rightarrow> 'c"
  cp_num_input_files :: "'c \<Rightarrow> int \<Rightarrow> int"
  cp_input :: "'c \<Rightarrow> int \<Rightarrow> int \<Rightarrow> file_meta_data option"
  cp_is_trivial_move :: "'c \<Rightarrow> bool"
  cp_release_inputs :: "'c \<Rightarrow> 'w version_set \<Rightarrow> ('c \<times> 'w version_set) option"
  cp_delete :: "'c \<Rightarrow> 'w version_set \<Rightarrow> 'w version_set option"
  ve_remove_file :: "int \<Rightarrow> u64 \<Rightarrow> version_edit \<Rightarrow> version_edit"

section \<open>The job\<close>

text \<open>
  The compaction to run.  The message that reports a manual compaction dereferences \<open>begin\<close> when
  \<open>end\<close> is given, and the request stays with the database.
\<close>

definition choose_compaction :: "('w, 'c) undefined_members \<Rightarrow> 'w db_impl \<Rightarrow> ('c option \<times> 'w db_impl) option" where
  "choose_compaction ops db =
     (case manual_compaction_request db of
        Some m \<Rightarrow>
          Option.bind (compact_range ops (mc_level m) (mc_begin m) (mc_end m) (versions db)) (\<lambda>(c, vs).
            let db1 = db\<lparr>versions := vs, manual_compaction_request := Some (m\<lparr>mc_done := c = None\<rparr>)\<rparr>
            in Option.bind (case c of
                  None \<Rightarrow> Some ()
                | Some c' \<Rightarrow> map_option (\<lambda>_. ()) (cp_input ops c' 0 (cp_num_input_files ops c' 0 - 1))) (\<lambda>_.
                if mc_begin m = None \<and> mc_end m \<noteq> None then None else Some (c, db1)))
      | None \<Rightarrow> map_option (\<lambda>(c, vs). (c, db\<lparr>versions := vs\<rparr>)) (pick_compaction ops (versions db)))"

definition note_error :: "('w, 'c) undefined_members \<Rightarrow> status \<Rightarrow> 'w db_impl \<Rightarrow> 'w db_impl option" where
  "note_error ops s db = (if is_ok s then Some db else record_background_error ops s db)"

definition move_edit :: "('w, 'c) undefined_members \<Rightarrow> 'c \<Rightarrow> file_meta_data \<Rightarrow> version_edit" where
  "move_edit ops c f =
     add_file (cp_level ops c) (fnumber f) (file_size f) (smallest f) (largest f)
       (ve_remove_file ops (cp_level ops c) (fnumber f) (cp_edit ops c))"

definition trivial_move ::
  "('w, 'c) undefined_members \<Rightarrow> (version_heap \<Rightarrow> nat) \<Rightarrow> 'c \<Rightarrow> 'w db_impl \<Rightarrow> 'w \<Rightarrow> ('c \<times> 'w db_impl \<times> 'w) option" where
  "trivial_move ops new_at c db w =
     (if cp_num_input_files ops c 0 \<noteq> 1 then None
      else
        Option.bind (cp_input ops c 0 0) (\<lambda>f.
        Option.bind (log_any_apply (new_at (vs_heap (versions db))) (move_edit ops c f) (versions db) w) (\<lambda>(s, e1, vs, w1).
          map_option (\<lambda>db1. (cp_store_edit ops e1 c, db1, w1)) (note_error ops s (db\<lparr>versions := vs\<rparr>)))))"

definition run_compaction ::
  "('w, 'c) undefined_members \<Rightarrow> 'c \<Rightarrow> 'w db_impl \<Rightarrow> 'w \<Rightarrow> ('c \<times> 'w db_impl \<times> 'w) option" where
  "run_compaction ops c db w =
     Option.bind (do_compaction_work ops (compaction_state_ctor c) db w) (\<lambda>(s, compact, db1, w1).
     Option.bind (note_error ops s db1) (\<lambda>db2.
     Option.bind (cleanup_compaction ops compact db2 w1) (\<lambda>(db3, w2).
     Option.bind (cp_release_inputs ops (cs_compaction compact) (versions db3)) (\<lambda>(c1, vs).
       map_option (\<lambda>(db4, w3). (c1, db4, w3)) (remove_obsolete_files (db3\<lparr>versions := vs\<rparr>) w2)))))"

definition background_compaction ::
  "('w, 'c) undefined_members \<Rightarrow> (version_heap \<Rightarrow> nat) \<Rightarrow> 'w db_impl \<Rightarrow> 'w \<Rightarrow> ('w db_impl \<times> 'w) option" where
  "background_compaction ops new_at db w =
     (if db_imm db \<noteq> None then compact_mem_table ops db w
      else
        Option.bind (choose_compaction ops db) (\<lambda>(chosen, db1).
          case chosen of
            None \<Rightarrow> Some (db1, w)
          | Some c \<Rightarrow>
              Option.bind (if manual_compaction_request db = None \<and> cp_is_trivial_move ops c
                           then trivial_move ops new_at c db1 w else run_compaction ops c db1 w) (\<lambda>(c1, db2, w1).
                map_option (\<lambda>vs. (db2\<lparr>versions := vs\<rparr>, w1)) (cp_delete ops c1 (versions db2)))))"

text \<open>
  \<open>background_call\<close>, in two parts: the compaction, and what follows it.  The flag in the result says
  whether another job was posted.
\<close>

definition call_compaction ::
  "('w, 'c) undefined_members \<Rightarrow> (version_heap \<Rightarrow> nat) \<Rightarrow> 'w db_impl \<Rightarrow> 'w \<Rightarrow> ('w db_impl \<times> 'w) option" where
  "call_compaction ops new_at db w =
     (if shutting_down db \<or> \<not> is_ok (bg_error db) then Some (db, w) else background_compaction ops new_at db w)"

definition end_call :: "'w db_impl \<Rightarrow> (bool \<times> 'w db_impl) option" where
  "end_call db = maybe_schedule_compaction (db\<lparr>background_compaction_scheduled := False\<rparr>)"

definition background_call ::
  "('w, 'c) undefined_members \<Rightarrow> (version_heap \<Rightarrow> nat) \<Rightarrow> 'w db_impl \<Rightarrow> 'w \<Rightarrow> (bool \<times> 'w db_impl \<times> 'w) option" where
  "background_call ops new_at db w =
     (if \<not> background_compaction_scheduled db then None
      else Option.bind (call_compaction ops new_at db w) (\<lambda>(db1, w1).
             map_option (\<lambda>(posted, db2). (posted, db2, w1)) (end_call db1)))"

section \<open>Threads\<close>

text \<open>
  The threads take turns at the mutex, and the job lets others have it while it runs.  A turn is a
  client's, which changes what it likes but the flag and may call \<open>MaybeScheduleCompaction\<close> at its
  end, or one of a job's three: it starts, it compacts, it ends.  The environment may start a posted
  job at any time, also while another runs.
\<close>

record 'w threads =
  th_db :: "'w db_impl"
  th_world :: 'w
  th_posted :: nat
  th_running :: nat

inductive turn :: "('w, 'c) undefined_members \<Rightarrow> (version_heap \<Rightarrow> nat) \<Rightarrow> 'w threads \<Rightarrow> 'w threads \<Rightarrow> bool"
  for ops new_at where
  client: "background_compaction_scheduled db = background_compaction_scheduled (th_db t) \<Longrightarrow>
     turn ops new_at t (t\<lparr>th_db := db, th_world := w\<rparr>)"
| schedule: "maybe_schedule_compaction (th_db t) = Some (posted, db) \<Longrightarrow>
     turn ops new_at t (t\<lparr>th_db := db, th_posted := th_posted t + of_bool posted\<rparr>)"
| start: "th_posted t = Suc n \<Longrightarrow> turn ops new_at t (t\<lparr>th_posted := n, th_running := Suc (th_running t)\<rparr>)"
| compact: "0 < th_running t \<Longrightarrow> call_compaction ops new_at (th_db t) (th_world t) = Some (db, w) \<Longrightarrow>
     turn ops new_at t (t\<lparr>th_db := db, th_world := w\<rparr>)"
| finish: "th_running t = Suc n \<Longrightarrow> end_call (th_db t) = Some (posted, db) \<Longrightarrow>
     turn ops new_at t (t\<lparr>th_db := db, th_posted := th_posted t + of_bool posted, th_running := n\<rparr>)"

inductive turns :: "('w, 'c) undefined_members \<Rightarrow> (version_heap \<Rightarrow> nat) \<Rightarrow> 'w threads \<Rightarrow> 'w threads \<Rightarrow> bool"
  for ops new_at where
  stay: "turns ops new_at t t"
| go: "turns ops new_at t t1 \<Longrightarrow> turn ops new_at t1 t2 \<Longrightarrow> turns ops new_at t t2"

text \<open>A client alone, whose jobs the environment runs one after the other until none is posted.\<close>

partial_function (option) run_jobs ::
  "('w, 'c) undefined_members \<Rightarrow> (version_heap \<Rightarrow> nat) \<Rightarrow> bool \<Rightarrow> 'w db_impl \<Rightarrow> 'w \<Rightarrow> ('w db_impl \<times> 'w) option" where
  "run_jobs ops new_at posted db w =
     (if \<not> posted then Some (db, w)
      else Option.bind (background_call ops new_at db w) (\<lambda>(posted1, db1, w1). run_jobs ops new_at posted1 db1 w1))"

section \<open>What the job leaves alone\<close>

text \<open>
  A property of the database object that does not speak of the versions and the table cache, allows
  a manual compaction to be marked done, and is kept by the members without a body, is kept by the job.
\<close>

definition control_property :: "('w db_impl \<Rightarrow> bool) \<Rightarrow> bool" where
  "control_property P \<longleftrightarrow> (\<forall>db vs. P db \<longrightarrow> P (db\<lparr>versions := vs\<rparr>)) \<and> (\<forall>db tc. P db \<longrightarrow> P (db\<lparr>db_table_cache := tc\<rparr>))
     \<and> (\<forall>db m. P db \<longrightarrow> manual_compaction_request db \<noteq> None \<longrightarrow> P (db\<lparr>manual_compaction_request := Some m\<rparr>))"

definition members_keep :: "('w, 'c) undefined_members \<Rightarrow> ('w db_impl \<Rightarrow> bool) \<Rightarrow> bool" where
  "members_keep ops P \<longleftrightarrow>
     (\<forall>db w db' w'. P db \<longrightarrow> compact_mem_table ops db w = Some (db', w') \<longrightarrow> P db')
   \<and> (\<forall>c db w s c' db' w'. P db \<longrightarrow> do_compaction_work ops c db w = Some (s, c', db', w') \<longrightarrow> P db')
   \<and> (\<forall>c db w db' w'. P db \<longrightarrow> cleanup_compaction ops c db w = Some (db', w') \<longrightarrow> P db')
   \<and> (\<forall>s db db'. P db \<longrightarrow> record_background_error ops s db = Some db' \<longrightarrow> P db')"

lemma note_error_keeps:
  assumes "members_keep ops P" and "P db" and "note_error ops s db = Some db'"
  shows "P db'"
proof (cases "is_ok s")
  case True
  then have "db' = db" using assms(3) by (simp add: note_error_def)
  with assms(2) show ?thesis by simp
next
  case False
  then have e: "record_background_error ops s db = Some db'" using assms(3) by (simp add: note_error_def)
  have "\<forall>s db db'. P db \<longrightarrow> record_background_error ops s db = Some db' \<longrightarrow> P db'"
    using assms(1) unfolding members_keep_def by (elim conjE)
  from this[rule_format, OF assms(2) e] show ?thesis .
qed

lemma remove_obsolete_frame:
  "remove_obsolete_files db w = Some (db', w') \<Longrightarrow> db' = db \<or> (\<exists>tc. db' = db\<lparr>db_table_cache := tc\<rparr>)"
  by (cases "is_ok (bg_error db)") (auto simp: remove_obsolete_files_def bind_eq_Some_conv)

lemma remove_obsolete_keeps:
  "control_property P \<Longrightarrow> P db \<Longrightarrow> remove_obsolete_files db w = Some (db', w') \<Longrightarrow> P db'"
  using remove_obsolete_frame[of db w db' w'] unfolding control_property_def by metis

lemma choose_compaction_keeps:
  assumes "control_property P" and "P db" and "choose_compaction ops db = Some (c, db1)"
  shows "P db1"
proof (cases "manual_compaction_request db")
  case None
  then show ?thesis using assms by (auto simp: choose_compaction_def control_property_def)
next
  case (Some m)
  then obtain vs where "db1 = db\<lparr>versions := vs, manual_compaction_request := Some (m\<lparr>mc_done := c = None\<rparr>)\<rparr>"
    using assms(3) by (auto simp: choose_compaction_def bind_eq_Some_conv Let_def split: if_splits)
  then show ?thesis using assms(1,2) Some by (simp add: control_property_def)
qed

lemma trivial_move_keeps:
  assumes "control_property P" and "members_keep ops P" and "P db" and "trivial_move ops new_at c db w = Some (c1, db1, w1)"
  shows "P db1"
proof -
  obtain s vs where "note_error ops s (db\<lparr>versions := vs\<rparr>) = Some db1"
    using assms(4) by (auto simp: trivial_move_def bind_eq_Some_conv split: if_splits)
  then show ?thesis using note_error_keeps[OF assms(2)] assms(1,3) unfolding control_property_def by blast
qed

lemma run_compaction_keeps:
  assumes "control_property P" and "members_keep ops P" and "P db" and "run_compaction ops c db w = Some (c1, db1, w1)"
  shows "P db1"
proof -
  obtain s k dba wa dbb dbc wb c2 vs where r: "do_compaction_work ops (compaction_state_ctor c) db w = Some (s, k, dba, wa)"
    "note_error ops s dba = Some dbb" "cleanup_compaction ops k dbb wa = Some (dbc, wb)"
    "remove_obsolete_files (dbc\<lparr>versions := vs\<rparr>) wb = Some (db1, w1)"
    using assms(4) by (auto simp: run_compaction_def bind_eq_Some_conv)
  have "P dba" using assms(2,3) r(1) unfolding members_keep_def by blast
  then have "P dbb" using note_error_keeps[OF assms(2) _ r(2)] by blast
  then have "P dbc" using assms(2) r(3) unfolding members_keep_def by blast
  then show ?thesis using remove_obsolete_keeps[OF assms(1) _ r(4)] assms(1) unfolding control_property_def by blast
qed

lemma call_compaction_keeps:
  assumes ctl: "control_property P" and ops: "members_keep ops P" and P: "P db"
    and run: "call_compaction ops new_at db w = Some (db', w')"
  shows "P db'"
proof (cases "(shutting_down db \<or> \<not> is_ok (bg_error db)) \<or> db_imm db \<noteq> None")
  case True
  then have "db' = db \<or> compact_mem_table ops db w = Some (db', w')"
    using run by (auto simp: call_compaction_def background_compaction_def split: if_splits)
  then show ?thesis using P ops unfolding members_keep_def by blast
next
  case False
  then obtain c db1 where c: "choose_compaction ops db = Some (c, db1)"
    using run by (auto simp: call_compaction_def background_compaction_def bind_eq_Some_conv)
  have P1: "P db1" by (rule choose_compaction_keeps[OF ctl P c])
  have run: "background_compaction ops new_at db w = Some (db', w')" using run False by (simp add: call_compaction_def)
  show ?thesis
  proof (cases c)
    case None
    then show ?thesis using False c run P1 by (simp add: background_compaction_def)
  next
    case (Some k)
    then obtain c1 db2 w1 vs where r: "(if manual_compaction_request db = None \<and> cp_is_trivial_move ops k
        then trivial_move ops new_at k db1 w else run_compaction ops k db1 w) = Some (c1, db2, w1)" "db' = db2\<lparr>versions := vs\<rparr>"
      using False c run
      by (auto simp: background_compaction_def bind_eq_Some_conv simp del: if_split not_None_eq split: prod.splits)
    have "P db2" using r(1) trivial_move_keeps[OF ctl ops P1] run_compaction_keeps[OF ctl ops P1] by (auto split: if_splits)
    then show ?thesis using r(2) ctl unfolding control_property_def by blast
  qed
qed

section \<open>Scheduling\<close>

text \<open>Work the job would do.\<close>

definition work_due :: "'w db_impl \<Rightarrow> bool" where
  "work_due db \<longleftrightarrow> \<not> shutting_down db \<and> is_ok (bg_error db)
     \<and> (db_imm db \<noteq> None \<or> manual_compaction_request db \<noteq> None \<or> needs_compaction (versions db) = Some True)"

lemma maybe_schedule_result:
  assumes "maybe_schedule_compaction db = Some (p, db')"
  shows "db' = db\<lparr>background_compaction_scheduled := background_compaction_scheduled db \<or> p\<rparr>
    \<and> (p \<longleftrightarrow> \<not> background_compaction_scheduled db \<and> work_due db)"
  using assms by (auto simp: maybe_schedule_compaction_def work_due_def split: if_splits)

lemma work_due_flag [simp]: "work_due (db\<lparr>background_compaction_scheduled := b\<rparr>) = work_due db"
  by (simp add: work_due_def)

lemma end_call_result:
  "end_call db = Some (p, db') \<Longrightarrow> db' = db\<lparr>background_compaction_scheduled := p\<rparr> \<and> (p \<longleftrightarrow> work_due db)"
  using maybe_schedule_result[of "db\<lparr>background_compaction_scheduled := False\<rparr>" p db'] by (simp add: end_call_def)

definition one_job :: "'w threads \<Rightarrow> bool" where
  "one_job t \<longleftrightarrow> th_posted t + th_running t = of_bool (background_compaction_scheduled (th_db t))"

lemma flag_kept: "control_property (\<lambda>db. background_compaction_scheduled db = b)"
  by (simp add: control_property_def)

lemma turn_one_job:
  assumes "turn ops new_at t t'" and "one_job t" and "\<And>b. members_keep ops (\<lambda>db. background_compaction_scheduled db = b)"
  shows "one_job t'"
  using assms(1)
proof (cases rule: turn.cases)
  case (compact db w)
  then show ?thesis using assms(2) call_compaction_keeps[OF flag_kept assms(3) refl] by (simp add: one_job_def)
next
  case (schedule posted db)
  then show ?thesis using assms(2) maybe_schedule_result[OF schedule(2)] by (auto simp: one_job_def)
next
  case (finish n posted db)
  then show ?thesis using assms(2) end_call_result[OF finish(3)]
    by (cases "background_compaction_scheduled (th_db t)") (auto simp: one_job_def)
qed (use assms(2) in \<open>simp_all add: one_job_def\<close>)

lemma turns_one_job:
  "turns ops new_at t t' \<Longrightarrow> one_job t \<Longrightarrow> (\<And>b. members_keep ops (\<lambda>db. background_compaction_scheduled db = b)) \<Longrightarrow> one_job t'"
  by (induction rule: turns.induct) (auto intro: turn_one_job)

section \<open>Running the jobs\<close>

lemma end_call_total:
  assumes "needs_compaction (versions db) \<noteq> None"
  shows "end_call db = Some (work_due db, db\<lparr>background_compaction_scheduled := work_due db\<rparr>)"
proof -
  obtain n where "needs_compaction (versions db) = Some n" using assms by blast
  then have "end_call db \<noteq> None" by (simp add: end_call_def maybe_schedule_compaction_def del: not_None_eq)
  then obtain p db' where e: "end_call db = Some (p, db')" by (cases "end_call db") auto
  then show ?thesis using end_call_result[OF e] by simp
qed

lemma background_call_due:
  assumes "background_compaction_scheduled db" and "work_due db"
    and "background_compaction ops new_at db w = Some (db', w')" and "needs_compaction (versions db') \<noteq> None"
  shows "background_call ops new_at db w = Some (work_due db', db'\<lparr>background_compaction_scheduled := work_due db'\<rparr>, w')"
  using assms end_call_total[OF assms(4)] by (simp add: background_call_def call_compaction_def work_due_def)

lemma run_jobs_manual:
  assumes run: "run_jobs ops new_at posted db w = Some (db', w')"
    and ctl: "control_property P" "members_keep ops P" and P: "\<And>db b. P db \<Longrightarrow> P (db\<lparr>background_compaction_scheduled := b\<rparr>)"
    and manual: "\<And>db. P db \<Longrightarrow> manual_compaction_request db \<noteq> None \<and> \<not> shutting_down db"
    and start: "P db" "posted \<or> \<not> is_ok (bg_error db)"
  shows "\<not> is_ok (bg_error db')"
proof (rule run_jobs.raw_induct[where P = "\<lambda>o' n' posted db w (db', w'). o' = ops \<longrightarrow> P db \<longrightarrow> (posted \<or> \<not> is_ok (bg_error db)) \<longrightarrow> \<not> is_ok (bg_error db')",
      OF _ run, simplified prod.case, rule_format, OF _ refl start], goal_cases)
  case (1 rec o' n' posted db w y)
  show ?case
  proof (cases posted)
    case False
    then show ?thesis using 1(2) by (cases y) auto
  next
    case True
    then obtain p db1 w1 where c: "background_call o' n' db w = Some (p, db1, w1)" and rest: "rec o' n' p db1 w1 = Some y"
      using 1(2) by (auto simp: bind_eq_Some_conv)
    show ?thesis
    proof (cases y, clarify)
      fix db' w' assume y: "y = (db', w')" and o: "o' = ops" and db: "P db" and ok: "is_ok (bg_error db')"
      obtain dba wa where a: "call_compaction o' n' db w = Some (dba, wa)" "end_call dba = Some (p, db1)"
        using c by (auto simp: background_call_def bind_eq_Some_conv split: if_splits)
      have Pa: "P dba" using call_compaction_keeps[OF ctl db] a(1) o by blast
      have e: "db1 = dba\<lparr>background_compaction_scheduled := p\<rparr>" "p \<longleftrightarrow> work_due dba" using end_call_result[OF a(2)] by simp_all
      have "P db1" "p \<or> \<not> is_ok (bg_error db1)" using P[OF Pa] manual[OF Pa] unfolding e by (simp_all add: work_due_def)
      then show False using 1(1)[OF rest] y o ok by simp
    qed
  qed
qed

section \<open>Properties\<close>




text \<open>Members that do the least: nothing is ever compacted but the immutable memory table, which is dropped.\<close>

definition sample_ops :: "('w, unit) undefined_members" where
  "sample_ops = \<lparr>compact_mem_table = (\<lambda>db w. Some (db\<lparr>db_imm := None\<rparr>, w)),
     do_compaction_work = (\<lambda>c db w. Some (Status_Ok, c, db, w)), cleanup_compaction = (\<lambda>c db w. Some (db, w)),
     record_background_error = (\<lambda>s db. Some (db\<lparr>bg_error := s\<rparr>)), compact_range = (\<lambda>_ _ _ vs. Some (None, vs)),
     pick_compaction = (\<lambda>vs. Some (None, vs)), cp_level = (\<lambda>_. 0), cp_edit = (\<lambda>_. version_edit_ctor), cp_store_edit = (\<lambda>_ c. c),
     cp_num_input_files = (\<lambda>_ _. 0), cp_input = (\<lambda>_ _ _. None), cp_is_trivial_move = (\<lambda>_. False),
     cp_release_inputs = (\<lambda>c vs. Some (c, vs)), cp_delete = (\<lambda>_ vs. Some vs), ve_remove_file = (\<lambda>_ _ e. e)\<rparr>"

definition sample_request :: manual_compaction where
  "sample_request = \<lparr>mc_level = 0, mc_done = False, mc_begin = None, mc_end = None, mc_tmp_storage = []\<rparr>"

lemma sample_keeps:
  "members_keep sample_ops (\<lambda>db. background_compaction_scheduled db = b)"
  "members_keep sample_ops (\<lambda>db. manual_compaction_request db \<noteq> None \<and> \<not> shutting_down db)"
  by (auto simp: members_keep_def sample_ops_def)




end
