(* ===== verification/Posix_Default.thy ===== *)
theory Posix_Default
  imports Posix_Env Db_Impl
begin

text \<open>
  The default environment of \<open>__detail/posix_env.cc\<close> as an environment of the database.  Of its
  overrides only the two that open a file for reading have a body; the others that return a value
  have none, so a call of them has no defined result, and \<open>schedule\<close> and \<open>start_thread\<close> do nothing.
  It also holds the singleton that \<open>env::Default\<close> returns and the lock handle nobody makes.
\<close>

section \<open>The singleton\<close>

text \<open>
  \<open>Default\<close> makes its container at the first call and keeps it; the limits of mappings and open
  files are read then.  Its destructor is never run, that of the environment aborts.
\<close>

record singleton_env =
  env_storage :: "posix_env option"
  env_initialized :: bool

definition singleton_start :: singleton_env where
  "singleton_start = \<lparr>env_storage = None, env_initialized = False\<rparr>"

definition singleton_env_ctor :: "'k kernel \<Rightarrow> int \<Rightarrow> int \<Rightarrow> 'k \<Rightarrow> singleton_env \<Rightarrow> singleton_env option" where
  "singleton_env_ctor kern g_mmap_limit g_open_read_only_file_limit k se =
     map_option (\<lambda>e. se\<lparr>env_initialized := True, env_storage := Some e\<rparr>)
       (posix_env_ctor kern g_mmap_limit g_open_read_only_file_limit k)"

definition assert_env_not_initialized :: "singleton_env \<Rightarrow> unit option" where
  "assert_env_not_initialized se = (if env_initialized se then None else Some ())"

definition env_Default :: "'k kernel \<Rightarrow> int \<Rightarrow> int \<Rightarrow> 'k \<Rightarrow> singleton_env \<Rightarrow> (posix_env \<times> singleton_env) option" where
  "env_Default kern g_mmap_limit g_open_read_only_file_limit k se =
     Option.bind
       (if env_storage se = None then singleton_env_ctor kern g_mmap_limit g_open_read_only_file_limit k se else Some se)
       (\<lambda>se'. map_option (\<lambda>e. (e, se')) (env_storage se'))"

definition posix_env_dtor :: "posix_env \<Rightarrow> unit option" where
  "posix_env_dtor e = None"

text \<open>Every later call returns the environment of the first, whatever the kernel's limits are by then.\<close>

lemma default_env_is_one:
  assumes "env_Default kern m f k se = Some (e, se')"
  shows "env_Default kern' m' f' k' se' = Some (e, se')"
  using assms by (auto simp: env_Default_def singleton_env_ctor_def split: if_splits Option.bind_splits)

lemma default_env_forbids_test_settings:
  assumes "env_Default kern m f k singleton_start = Some (e, se')"
  shows "assert_env_not_initialized se' = None"
  using assms by (auto simp: env_Default_def singleton_env_ctor_def singleton_start_def assert_env_not_initialized_def split: Option.bind_splits)

record posix_file_lock =
  pl_fd :: int
  pl_filename :: bytes

definition posix_file_lock_ctor :: "int \<Rightarrow> bytes \<Rightarrow> posix_file_lock" where
  "posix_file_lock_ctor fd filename = \<lparr>pl_fd = fd, pl_filename = filename\<rparr>"

section \<open>As an environment of the database\<close>

record 'k posix_world =
  pw_env :: posix_env
  pw_kernel :: 'k
  pw_open :: "nat \<Rightarrow> posix_sequential_file option"
  pw_next :: nat

definition posix_open_sequential :: "'k kernel \<Rightarrow> bytes \<Rightarrow> 'k posix_world \<Rightarrow> (status \<times> nat \<times> 'k posix_world) option" where
  "posix_open_sequential kern filename w =
     (case posix_new_sequential_file kern filename (pw_kernel w) of
        (s, file, k) \<Rightarrow> Some (s, pw_next w,
          w\<lparr>pw_kernel := k, pw_open := (pw_open w)(pw_next w := file), pw_next := Suc (pw_next w)\<rparr>))"

text \<open>The functions of an open file run on the file and the kernel.\<close>

definition on_open_file ::
  "(posix_sequential_file \<times> 'k \<Rightarrow> ('r \<times> posix_sequential_file \<times> 'k) option) \<Rightarrow> nat \<Rightarrow> 'k posix_world \<Rightarrow> ('r \<times> 'k posix_world) option" where
  "on_open_file call h w =
     Option.bind (pw_open w h) (\<lambda>file.
       map_option (\<lambda>(r, file', k). (r, w\<lparr>pw_kernel := k, pw_open := (pw_open w)(h \<mapsto> file')\<rparr>)) (call (file, pw_kernel w)))"

definition posix_close_sequential :: "'k kernel \<Rightarrow> nat \<Rightarrow> 'k posix_world \<Rightarrow> 'k posix_world" where
  "posix_close_sequential kern h w =
     (case pw_open w h of
        None \<Rightarrow> w
      | Some file \<Rightarrow> w\<lparr>pw_kernel := snd (k_close kern (sq_fd file) (pw_kernel w)), pw_open := (pw_open w)(h := None)\<rparr>)"

definition posix_default_env :: "'k kernel \<Rightarrow> 'k posix_world env" where
  "posix_default_env kern =
     \<lparr>env_new_sequential_file = posix_open_sequential kern, env_new_writable_file = (\<lambda>_ _. None),
      env_new_appendable_file = (\<lambda>_ _. None), env_file_exists = (\<lambda>_ _. None), env_get_children = (\<lambda>_ _. None),
      env_remove_file = (\<lambda>_ _. None), env_create_dir = (\<lambda>_ _. None),
      env_get_file_size = (\<lambda>f w. map_option (\<lambda>(s, n, k). (s, n, w\<lparr>pw_kernel := k\<rparr>)) (posix_get_file_size f (pw_kernel w))),
      env_rename_file = (\<lambda>_ _ _. None), env_lock_file = (\<lambda>_ _. None), env_unlock_file = (\<lambda>_ _. None),
      env_new_logger = (\<lambda>_ _. None),
      env_writable = (\<lambda>_. \<lparr>wf_append = (\<lambda>_ _. None), wf_close = (\<lambda>_. None), wf_flush = (\<lambda>_. None), wf_sync = (\<lambda>_. None)\<rparr>),
      env_sequential = (\<lambda>h.
        \<lparr>sf_read = (\<lambda>n w. map_option (\<lambda>((s, d), w'). (s, d, w'))
           (on_open_file (\<lambda>f. map_option (\<lambda>(s, d, f'). ((s, d), f')) (sf_read (posix_sequential kern) n f)) h w)),
         sf_skip = (\<lambda>n. on_open_file (sf_skip (posix_sequential kern) n) h)\<rparr>),
      env_delete_writable = (\<lambda>_ w. w), env_delete_sequential = posix_close_sequential kern\<rparr>"

text \<open>
  So the default options cannot even be sanitized on it: there is no info log, and the call of
  \<open>create_dir\<close> that prepares opening one has no result.
\<close>

lemma default_options_stuck: "sanitize_options name icmp policy (options_ctor (posix_default_env kern)) w = None"
  by (simp add: sanitize_options_def open_info_log_def clipped_options_def options_ctor_def posix_default_env_def)

text \<open>What it can do is read: a file that opens is read through the kernel until it is closed.\<close>

lemma default_env_reads:
  assumes "k_open_rdonly kern f (pw_kernel w) = (fd, k)" and "0 \<le> fd"
    and "posix_sequential_read kern n \<lparr>sq_fd = fd, sq_filename = f\<rparr> k = Some (s, d, k')"
  shows "\<exists>h w1 w2. env_new_sequential_file (posix_default_env kern) f w = Some (Status_Ok, h, w1)
    \<and> sf_read (env_sequential (posix_default_env kern) h) n w1 = Some (s, d, w2) \<and> pw_kernel w2 = k'"
  using assms by (simp add: posix_default_env_def posix_open_sequential_def posix_new_sequential_file_def on_open_file_def posix_sequential_def)

end
