(* ===== verification/Port_Mutex.thy ===== *)
theory Port_Mutex
  imports Lru_Cache Posix_Env
begin

text \<open>
  The mutex and the condition variable of \<open>port/port_stdcxx.h\<close> and \<open>MutexLock\<close> of
  \<open>util/mutex_lock.h\<close>, and what they give the code that uses them: a function whose body runs under
  a \<open>MutexLock\<close> is atomic.  The body is a list of small steps on the shared data and the locals of
  the calling thread, the threads run in any interleaving, and the outcome is that of calling the
  functions one after another.  Threads are numbers and a mutex is its holder.
\<close>

section \<open>Mutex, condition variable and MutexLock\<close>

type_synonym port_mutex = "nat option"

text \<open>\<open>None\<close> means that the thread has to wait; unlocking a mutex the thread does not hold is undefined.\<close>

definition mutex_lock :: "nat \<Rightarrow> port_mutex \<Rightarrow> port_mutex option" where
  "mutex_lock t m = (if m = None then Some (Some t) else None)"

definition mutex_unlock :: "nat \<Rightarrow> port_mutex \<Rightarrow> port_mutex option" where
  "mutex_unlock t m = (if m = Some t then Some None else None)"

definition mutex_assert_held :: "port_mutex \<Rightarrow> port_mutex" where
  "mutex_assert_held m = m"

text \<open>
  A condition variable is the set of the threads that wait for it.  \<open>wait\<close> gives the mutex up and
  waits in one step, and returns once the thread is woken and has the mutex again; \<open>signal\<close> wakes
  one of the waiting threads, if there is any.
\<close>

type_synonym cond_var = "nat set"

text \<open>The constructor asserts that there is a mutex.\<close>

definition cond_var_ctor :: "port_mutex option \<Rightarrow> cond_var option" where
  "cond_var_ctor mtx = (if mtx \<noteq> None then Some {} else None)"

definition cond_wait_begin :: "nat \<Rightarrow> port_mutex \<times> cond_var \<Rightarrow> (port_mutex \<times> cond_var) option" where
  "cond_wait_begin t = (\<lambda>(m, cv). map_option (\<lambda>m'. (m', insert t cv)) (mutex_unlock t m))"

definition cond_wait_end :: "nat \<Rightarrow> port_mutex \<times> cond_var \<Rightarrow> (port_mutex \<times> cond_var) option" where
  "cond_wait_end t = (\<lambda>(m, cv). if t \<in> cv then None else map_option (\<lambda>m'. (m', cv)) (mutex_lock t m))"

inductive cond_signal :: "cond_var \<Rightarrow> cond_var \<Rightarrow> bool" where
  nobody: "cond_signal {} {}"
| one: "t \<in> cv \<Longrightarrow> cond_signal cv (cv - {t})"

definition cond_signal_all :: "cond_var \<Rightarrow> cond_var" where
  "cond_signal_all cv = {}"

definition mutex_lock_ctor :: "nat \<Rightarrow> port_mutex \<Rightarrow> port_mutex option" where
  "mutex_lock_ctor t m = mutex_lock t m"

definition mutex_lock_dtor :: "nat \<Rightarrow> port_mutex \<Rightarrow> port_mutex option" where
  "mutex_lock_dtor t m = mutex_unlock t m"

lemmas mutex_defs = mutex_lock_def mutex_unlock_def mutex_lock_ctor_def mutex_lock_dtor_def

lemma waiting_keeps_holder:
  assumes "cond_wait_begin t (m, cv) = Some (m1, cv1)" and "cond_wait_end t (m1, cond_signal_all cv1) = Some (m2, cv2)"
  shows "m = Some t \<and> m1 = None \<and> m2 = Some t"
  using assms by (auto simp: cond_wait_begin_def cond_wait_end_def cond_signal_all_def mutex_defs split: if_splits)

section \<open>Functions that run under a MutexLock\<close>

datatype ('s, 'l) phase = Waiting | Inside "('s \<times> 'l \<Rightarrow> 's \<times> 'l) list" 'l | Left 'l

record ('s, 'l) guarded_state =
  gs_mutex :: port_mutex
  gs_data :: 's
  gs_phase :: "nat \<Rightarrow> ('s, 'l) phase"

definition guarded_start :: "'s \<Rightarrow> ('s, 'l) guarded_state" where
  "guarded_start s = \<lparr>gs_mutex = None, gs_data = s, gs_phase = (\<lambda>_. Waiting)\<rparr>"

text \<open>The constructor of the \<open>MutexLock\<close>, one step of the body, and the destructor.\<close>

inductive guarded_step ::
  "(nat \<Rightarrow> ('s \<times> 'l \<Rightarrow> 's \<times> 'l) list) \<Rightarrow> 'l \<Rightarrow> ('s, 'l) guarded_state \<Rightarrow> ('s, 'l) guarded_state \<Rightarrow> bool"
  for body and start where
  enter: "gs_phase c t = Waiting \<Longrightarrow> mutex_lock_ctor t (gs_mutex c) = Some m
    \<Longrightarrow> guarded_step body start c (c\<lparr>gs_mutex := m, gs_phase := (gs_phase c)(t := Inside (body t) start)\<rparr>)"
| work: "gs_phase c t = Inside (f # fs) l \<Longrightarrow> f (gs_data c, l) = (s, l')
    \<Longrightarrow> guarded_step body start c (c\<lparr>gs_data := s, gs_phase := (gs_phase c)(t := Inside fs l')\<rparr>)"
| leave: "gs_phase c t = Inside [] l \<Longrightarrow> mutex_lock_dtor t (gs_mutex c) = Some m
    \<Longrightarrow> guarded_step body start c (c\<lparr>gs_mutex := m, gs_phase := (gs_phase c)(t := Left l)\<rparr>)"

inductive_cases guarded_stepE: "guarded_step body start c c'"

text \<open>The reference: the calls one after another.\<close>

fun run_calls :: "(nat \<Rightarrow> 's \<Rightarrow> 'l \<times> 's) \<Rightarrow> nat list \<Rightarrow> 's \<Rightarrow> (nat \<times> 'l) list \<times> 's" where
  "run_calls call [] s = ([], s)"
| "run_calls call (t # ts) s = (case call t s of (l, s1) \<Rightarrow> case run_calls call ts s1 of (rs, s2) \<Rightarrow> ((t, l) # rs, s2))"

lemma run_calls_snoc:
  "run_calls call (ts @ [t]) s =
     (fst (run_calls call ts s) @ [(t, fst (call t (snd (run_calls call ts s))))], snd (call t (snd (run_calls call ts s))))"
  by (induction ts arbitrary: s) (auto split: prod.split)

lemma map_fst_run_calls [simp]: "map fst (fst (run_calls call ts s)) = ts"
proof (induction ts arbitrary: s)
  case (Cons t ts)
  then show ?case by (simp add: case_prod_unfold)
qed simp

definition has_left :: "('s, 'l) guarded_state \<Rightarrow> nat set" where
  "has_left c = {t. \<exists>l. gs_phase c t = Left l}"

text \<open>The interface: the steps of each body compute the function that models the call.\<close>

locale guarded_call =
  fixes body :: "nat \<Rightarrow> ('s \<times> 'l \<Rightarrow> 's \<times> 'l) list" and start :: 'l and call :: "nat \<Rightarrow> 's \<Rightarrow> 'l \<times> 's"
  assumes body_is_call: "fold id (body t) (s, start) = (snd (call t s), fst (call t s))"
begin

definition done_in_order :: "nat list \<Rightarrow> 's \<Rightarrow> ('s, 'l) guarded_state \<Rightarrow> bool" where
  "done_in_order ts s c \<longleftrightarrow> distinct ts \<and> set ts = has_left c
     \<and> (\<forall>t l. (t, l) \<in> set (fst (run_calls call ts s)) \<longrightarrow> gs_phase c t = Left l)
     \<and> (\<forall>t fs l. gs_phase c t = Inside fs l \<longrightarrow> gs_mutex c = Some t)
     \<and> (case gs_mutex c of
          None \<Rightarrow> gs_data c = snd (run_calls call ts s)
        | Some t \<Rightarrow> \<exists>fs l. gs_phase c t = Inside fs l
            \<and> fold id fs (gs_data c, l) = (snd (call t (snd (run_calls call ts s))), fst (call t (snd (run_calls call ts s)))))"

lemma inside_holds:
  assumes "done_in_order ts s c" and "gs_phase c t = Inside fs l"
  shows "gs_mutex c = Some t"
    and "fold id fs (gs_data c, l) = (snd (call t (snd (run_calls call ts s))), fst (call t (snd (run_calls call ts s))))"
proof -
  show holder: "gs_mutex c = Some t" using assms unfolding done_in_order_def by blast
  show "fold id fs (gs_data c, l) = (snd (call t (snd (run_calls call ts s))), fst (call t (snd (run_calls call ts s))))"
    using assms holder by (auto simp: done_in_order_def)
qed

lemma step_keeps_order:
  assumes step: "guarded_step body start c c'" and inv: "done_in_order ts s c"
  shows "\<exists>ts'. done_in_order ts' s c'"
  using step
proof (cases rule: guarded_step.cases)
  case (enter t m)
  then have "done_in_order ts s c'"
    using inv body_is_call
    by (auto simp: done_in_order_def has_left_def mutex_defs split: if_splits)
  then show ?thesis ..
next
  case (work t f fs l s' l')
  note held = inside_holds[OF inv work(2)]
  have "done_in_order ts s c'"
    using inv held work by (auto simp: done_in_order_def has_left_def)
  then show ?thesis ..
next
  case (leave t l m)
  note held = inside_holds[OF inv leave(2)]
  have alone: "gs_phase c u \<noteq> Inside fs l'" if "u \<noteq> t" for u fs l'
    using inside_holds(1)[OF inv] held(1) that by fastforce
  have "t \<notin> set ts" using inv leave(2) by (auto simp: done_in_order_def has_left_def)
  then have "done_in_order (ts @ [t]) s c'"
    using inv leave held alone by (auto simp: done_in_order_def has_left_def run_calls_snoc mutex_defs)
  then show ?thesis ..
qed

lemma calls_are_atomic:
  assumes "(guarded_step body start)\<^sup>*\<^sup>* (guarded_start s) c"
  shows "\<exists>ts. done_in_order ts s c"
  using assms
proof (induction rule: rtranclp_induct)
  case base
  have "done_in_order [] s (guarded_start s)"
    by (auto simp: done_in_order_def guarded_start_def has_left_def)
  then show ?case ..
next
  case (step y z)
  then show ?case using step_keeps_order by blast
qed

lemma result_in_order:
  assumes "done_in_order ts s c" and "gs_phase c t = Left l"
  shows "(t, l) \<in> set (fst (run_calls call ts s))"
proof -
  have "t \<in> set (map fst (fst (run_calls call ts s)))" using assms by (auto simp: done_in_order_def has_left_def)
  then obtain l' where l': "(t, l') \<in> set (fst (run_calls call ts s))" unfolding set_map by force
  then have "gs_phase c t = Left l'" using assms(1) unfolding done_in_order_def by blast
  then have "l' = l" using assms(2) by simp
  with l' show ?thesis by blast
qed

lemma results_in_order:
  assumes "(guarded_step body start)\<^sup>*\<^sup>* (guarded_start s) c"
  shows "\<exists>ts. distinct ts \<and> set ts = has_left c
    \<and> (\<forall>t l. gs_phase c t = Left l \<longrightarrow> (t, l) \<in> set (fst (run_calls call ts s)))"
proof -
  obtain ts where "done_in_order ts s c" using calls_are_atomic[OF assms] ..
  moreover from this have "distinct ts" and "set ts = has_left c" unfolding done_in_order_def by blast+
  ultimately show ?thesis using result_in_order by blast
qed

end

text \<open>A thread that finds the mutex free can run its call to the end.\<close>

lemma guarded_work:
  assumes "gs_phase c t = Inside fs l" and "fold id fs (gs_data c, l) = (s, l')"
  shows "(guarded_step body start)\<^sup>*\<^sup>* c (c\<lparr>gs_data := s, gs_phase := (gs_phase c)(t := Inside [] l')\<rparr>)"
  using assms
proof (induction fs arbitrary: c l)
  case Nil
  then have "c\<lparr>gs_data := s, gs_phase := (gs_phase c)(t := Inside [] l')\<rparr> = c" by (simp add: fun_upd_idem)
  then show ?case by (metis rtranclp.rtrancl_refl)
next
  case (Cons f fs)
  obtain s1 l1 where f: "f (gs_data c, l) = (s1, l1)" by fastforce
  let ?c = "c\<lparr>gs_data := s1, gs_phase := (gs_phase c)(t := Inside fs l1)\<rparr>"
  have "guarded_step body start c ?c" by (rule work[OF Cons.prems(1) f])
  moreover have "(guarded_step body start)\<^sup>*\<^sup>* ?c (?c\<lparr>gs_data := s, gs_phase := (gs_phase ?c)(t := Inside [] l')\<rparr>)"
    by (rule Cons.IH) (use Cons.prems f in simp_all)
  moreover have "?c\<lparr>gs_data := s, gs_phase := (gs_phase ?c)(t := Inside [] l')\<rparr>
      = c\<lparr>gs_data := s, gs_phase := (gs_phase c)(t := Inside [] l')\<rparr>"
    by (cases c) (simp add: fun_eq_iff)
  ultimately show ?case by (metis converse_rtranclp_into_rtranclp)
qed

lemma guarded_run:
  assumes "gs_phase c t = Waiting" and "gs_mutex c = None" and "fold id (body t) (gs_data c, start) = (s, l)"
  shows "(guarded_step body start)\<^sup>*\<^sup>* c (c\<lparr>gs_data := s, gs_phase := (gs_phase c)(t := Left l)\<rparr>)"
proof -
  let ?c1 = "c\<lparr>gs_mutex := Some t, gs_phase := (gs_phase c)(t := Inside (body t) start)\<rparr>"
  let ?c2 = "?c1\<lparr>gs_data := s, gs_phase := (gs_phase ?c1)(t := Inside [] l)\<rparr>"
  have "guarded_step body start c ?c1" using enter[OF assms(1)] assms(2) by (simp add: mutex_defs)
  moreover have "(guarded_step body start)\<^sup>*\<^sup>* ?c1 ?c2" by (rule guarded_work) (use assms(3) in simp_all)
  moreover have "guarded_step body start ?c2 (c\<lparr>gs_data := s, gs_phase := (gs_phase c)(t := Left l)\<rparr>)"
    using leave[of ?c2 t l None] assms(2) by (cases c) (simp add: mutex_defs)
  ultimately show ?thesis by (meson converse_rtranclp_into_rtranclp rtranclp.rtrancl_into_rtrancl)
qed

section \<open>The identifiers of the sharded cache\<close>

text \<open>\<open>++last_id_\<close> is a load, an addition and a store; the local is the returned value.\<close>

definition new_id_body :: "nat \<Rightarrow> ('v sharded_lru_cache \<times> u64 \<Rightarrow> 'v sharded_lru_cache \<times> u64) list" where
  "new_id_body t = [\<lambda>(s, l). (s, last_id s), \<lambda>(s, l). (s, l + 1), \<lambda>(s, l). (s\<lparr>last_id := l\<rparr>, l)]"

interpretation new_id_guard: guarded_call new_id_body 0 "\<lambda>_. sharded_new_id"
  by unfold_locales (simp add: new_id_body_def sharded_new_id_def)

lemma new_ids_in_order:
  "fst (run_calls (\<lambda>_. sharded_new_id) ts s) = zip ts (map (\<lambda>i. last_id s + of_nat (Suc i)) [0..<length ts])"
proof (induction ts rule: rev_induct)
  case (snoc t ts)
  have "last_id (snd (run_calls (\<lambda>_. sharded_new_id) ts s)) = last_id s + of_nat (length ts)" for ts
    by (induction ts arbitrary: s) (simp_all add: sharded_new_id_def case_prod_unfold)
  then show ?case by (simp add: run_calls_snoc snoc) (simp add: sharded_new_id_def)
qed simp

text \<open>
  C29. Identifiers of the block cache are unique: whatever the interleaving of the threads that call
  \<open>new_id\<close>, two calls that have returned gave different identifiers, and each is the identifier
  before plus the number of a call, as long as fewer than 2^64 calls have returned.
\<close>

theorem new_ids_are_unique:
  assumes "(guarded_step new_id_body 0)\<^sup>*\<^sup>* (guarded_start s) c"
    and "gs_phase c t = Left x" and "card (has_left c) < 2 ^ 64"
  shows "(\<exists>i \<le> card (has_left c). 0 < i \<and> x = last_id s + of_nat i) \<and> (\<forall>u y. gs_phase c u = Left y \<and> u \<noteq> t \<longrightarrow> y \<noteq> x)"
proof -
  obtain ts where ts: "distinct ts" "set ts = has_left c"
    and in_order: "\<And>t l. gs_phase c t = Left l \<Longrightarrow> (t, l) \<in> set (fst (run_calls (\<lambda>_. sharded_new_id) ts s))"
    using new_id_guard.results_in_order[OF assms(1)] by blast
  have len: "length ts = card (has_left c)" using ts distinct_card by metis
  have call: "\<exists>i. i < length ts \<and> ts ! i = u \<and> y = last_id s + of_nat (Suc i)" if "gs_phase c u = Left y" for u y
    using in_order[OF that] by (auto simp: new_ids_in_order in_set_zip)
  have inj: "i = j" if "i < length ts" "j < length ts" "last_id s + of_nat (Suc i) = last_id s + of_nat (Suc j)" for i j
    using that assms(3) len by (simp add: word_of_nat_eq_iff take_bit_nat_eq_self del: of_nat_Suc)
  show ?thesis using call[OF assms(2)] call inj len by (metis Suc_leI zero_less_Suc)
qed

theorem new_ids_are_unique_witness:
  "\<forall>s :: nat sharded_lru_cache. \<exists>c x y. (guarded_step new_id_body 0)\<^sup>*\<^sup>* (guarded_start s) c
     \<and> gs_phase c 0 = Left x \<and> gs_phase c 1 = Left y \<and> y \<noteq> x"
proof
  fix s :: "nat sharded_lru_cache"
  let ?n = "last_id s"
  let ?c1 = "(guarded_start s)\<lparr>gs_data := s\<lparr>last_id := ?n + 1\<rparr>, gs_phase := (gs_phase (guarded_start s))(0 := Left (?n + 1))\<rparr>"
  let ?c2 = "?c1\<lparr>gs_data := s\<lparr>last_id := ?n + 1 + 1\<rparr>, gs_phase := (gs_phase ?c1)(1 := Left (?n + 1 + 1))\<rparr>"
  have "(guarded_step new_id_body 0)\<^sup>*\<^sup>* (guarded_start s) ?c1"
    by (rule guarded_run) (simp_all add: guarded_start_def new_id_body_def)
  moreover have "(guarded_step new_id_body 0)\<^sup>*\<^sup>* ?c1 ?c2"
    by (rule guarded_run) (simp_all add: guarded_start_def new_id_body_def)
  ultimately have reach: "(guarded_step new_id_body 0)\<^sup>*\<^sup>* (guarded_start s) ?c2" by (rule rtranclp_trans)
  have left: "gs_phase ?c2 0 = Left (?n + 1)" "gs_phase ?c2 1 = Left (?n + 1 + 1)" by simp_all
  have at_most: "has_left ?c2 \<subseteq> {0, 1}" by (auto simp: has_left_def guarded_start_def split: if_splits)
  have few: "card (has_left ?c2) < 2 ^ 64" using card_mono[OF _ at_most] by simp
  obtain c where c: "(guarded_step new_id_body 0)\<^sup>*\<^sup>* (guarded_start s) c" "gs_phase c 0 = Left (?n + 1)"
    "gs_phase c 1 = Left (?n + 1 + 1)" "card (has_left c) < 2 ^ 64"
    using reach left few by blast
  have "?n + 1 + 1 \<noteq> ?n + 1" using conjunct2[OF new_ids_are_unique[OF c(1,2,4)], rule_format, of 1] c(3) by blast
  then show "\<exists>c x y. (guarded_step new_id_body 0)\<^sup>*\<^sup>* (guarded_start s) c \<and> gs_phase c 0 = Left x \<and> gs_phase c 1 = Left y \<and> y \<noteq> x"
    using c(1-3) by blast
qed

section \<open>The lock table\<close>

text \<open>
  \<open>posix_lock_table::insert\<close> looks the name up and inserts it between \<open>lock\<close> and \<open>unlock\<close>: of all
  the threads that insert one name at most one is told that it took it.
\<close>

definition lock_insert_body :: "(nat \<Rightarrow> bytes) \<Rightarrow> nat \<Rightarrow> (posix_lock_table \<times> bool \<Rightarrow> posix_lock_table \<times> bool) list" where
  "lock_insert_body name t = [\<lambda>(s, l). (s, name t \<notin> s), \<lambda>(s, l). (insert (name t) s, l)]"

interpretation lock_insert_guard: guarded_call "lock_insert_body name" False "\<lambda>t. lock_table_insert (name t)" for name
  by unfold_locales (simp add: lock_insert_body_def lock_table_insert_def)

lemma run_inserts_Cons:
  "set (fst (run_calls (\<lambda>t. lock_table_insert (name t)) (u # ts) s))
     = insert (u, name u \<notin> s) (set (fst (run_calls (\<lambda>t. lock_table_insert (name t)) ts (insert (name u) s))))"
  by (simp add: lock_table_insert_def case_prod_unfold)

lemma first_insert_wins:
  assumes "(t, True) \<in> set (fst (run_calls (\<lambda>t. lock_table_insert (name t)) ts s))"
  shows "name t \<notin> s"
  using assms
proof (induction ts arbitrary: s)
  case (Cons u ts)
  then show ?case unfolding run_inserts_Cons by blast
qed simp

lemma one_insert_wins:
  assumes "(t, True) \<in> set (fst (run_calls (\<lambda>t. lock_table_insert (name t)) ts s))"
    and "(u, True) \<in> set (fst (run_calls (\<lambda>t. lock_table_insert (name t)) ts s))" and "name t = name u"
  shows "t = u"
  using assms
proof (induction ts arbitrary: s)
  case (Cons v ts)
  have later: "name w \<noteq> name v"
    if "(w, True) \<in> set (fst (run_calls (\<lambda>t. lock_table_insert (name t)) ts (insert (name v) s)))" for w
    using first_insert_wins[OF that] by auto
  from Cons.prems Cons.IH[of "insert (name v) s"] later[of t] later[of u] show ?case
    unfolding run_inserts_Cons by auto
qed simp

lemma file_locked_once:
  assumes "(guarded_step (lock_insert_body name) False)\<^sup>*\<^sup>* (guarded_start s) c"
    and "gs_phase c t = Left True" and "gs_phase c u = Left True" and "name t = name u"
  shows "t = u"
  using lock_insert_guard.results_in_order[OF assms(1)] one_insert_wins assms by blast

end
