(* ===== verification/Spec2Isabelle.thy ===== *)
theory Spec2Isabelle
  imports Slice Coding Crc32c Murmur_Hash Lehmer_Random Status Status_Memory
    Key_Order Db_Format File_Names Write_Batch
    File_Interface Log_Format Log_Writer Log_Reader Log_Roundtrip Posix_File Posix_Env Environment
    Version_Edit Linked_Ring Handle_Table Handle_Chains Lru_Cache Lru_Cache_Inv Lru_Links Lru_Refinement
    Arena Skip_List Skip_List_Inv Skip_List_Spec Skip_List_Memory Options Version_Set Version_Ring Table_Cache
    Memory_Table Working_Env Version_Recovery Version_Spec Builder_Types Db_Impl Db_Spec Db_Files Db_Background Posix_Default Port_Mutex
begin

text \<open>
  A verification development for \<open>simple_leveldb\<close>, a C++ reimplementation of LevelDB in progress.

  \<^bold>\<open>The program.\<close>  A database is a directory: a log of write batches, tables, a manifest (a log of
  version edits) and the file \<open>CURRENT\<close> that names the manifest.  \<open>db_impl.cc\<close> opens and recovers it,
  keeps a \<open>version_set\<close> (\<open>version_set.cc\<close>) of the live files by level, a memory table over a skip
  list and an arena, a cache of open tables over a sharded LRU cache (\<open>cache.cc\<close>), and posts a
  background compaction.  Logs and manifests go through \<open>log_write.cc\<close> and \<open>log_reader.cc\<close>, file
  names through \<open>filename.cc\<close>, the operating system through the class \<open>env\<close>, whose default is
  \<open>posix_env.cc\<close>.  Below lie slices, status values, integer coding, CRC-32C, hashing and random
  numbers.

  \<^bold>\<open>How it is modelled.\<close>  A C++ class is a record of its members, an abstract class a record of its
  virtual functions, a \<open>uint32_t\<close> or \<open>uint64_t\<close> a word of its width, a byte string a list of 8-bit
  words.  A function that changes state returns the new state.  The value \<open>None\<close> stands for a run with
  no defined continuation: a failed assertion, a null or freed pointer, an index out of range, a
  function that flows off its end without a value, or a loop that never ends.  So a theorem that a
  call equals \<open>Some\<close> of a result says that it returns, and one that it equals \<open>None\<close> that it never
  returns properly.  Objects that are shared or linked (cache entries, list nodes, versions) live in a
  heap, a map from addresses; the address \<open>new\<close> or \<open>malloc\<close> returns is an argument.  The operating
  system (\<open>kernel\<close>), a client's environment (\<open>env\<close>), comparator and filter policy are arguments.

  \<^bold>\<open>The theories\<close>, from the bottom up (paths are under \<open>src/\<close>):
  \<^item> \<open>Prelude\<close>: machine types, string literals, shared facts on lists, options and words.
  \<^item> \<open>Slice\<close>, \<open>Status\<close>, \<open>Coding\<close>: \<open>include/leveldb/slice.h\<close>, \<open>status.h/.cc\<close>, \<open>util/coding.h/.cc\<close>.
    The heap array of a status implements the abstract status; \<open>Status_Memory\<close> shows that copies,
    moves and assignments of status objects neither leak these arrays nor use freed ones.  Every integer decodes from its
    encoding, with the rest of the input left over.
  \<^item> \<open>Crc32c_Tables\<close>, \<open>Crc32c\<close>, \<open>Murmur_Hash\<close>, \<open>Lehmer_Random\<close>: \<open>util/crc32c.cc\<close>, \<open>hash.cc\<close>,
    \<open>random.h\<close>.  The strided CRC with its five tables is the bit-by-bit CRC-32C.
  \<^item> \<open>Key_Order\<close>, \<open>Db_Format\<close>: the contract of a three-way comparison (a locale, interpreted for
    slices, internal keys and files) and the internal keys of \<open>db_format.h/.cc\<close>.
  \<^item> \<open>File_Names\<close>, \<open>Write_Batch\<close>: \<open>logging.cc\<close>, \<open>filename.cc\<close>, \<open>write_batch.cc\<close>,
    \<open>write_batch_internal.cc\<close>, with their round trips.
  \<^item> \<open>File_Interface\<close>: the file classes of \<open>env.h\<close>; the locales \<open>byte_sink\<close> and \<open>byte_source\<close> say what
    a working file promises.  \<open>Log_Format\<close>, \<open>Log_Writer\<close>, \<open>Log_Reader\<close>, \<open>Log_Roundtrip\<close>:
    \<open>log_format.h\<close>, \<open>log_write.cc\<close>, \<open>log_reader.cc\<close> over these files; what is written is read back if
    each record fits its block, a longer record is lost, and reading ends on every finite file.
  \<^item> \<open>Posix_File\<close>, \<open>Posix_Env\<close>, \<open>Posix_Default\<close>: the files, the descriptor limiter (also under
    interleaving threads), the lock table, the file openers, the singleton and the environment of
    \<open>posix_env.cc\<close>; the buffered file refines a byte sink whatever short writes the kernel makes.
  \<^item> \<open>Environment\<close>, \<open>Working_Env\<close>: \<open>env.h\<close>, \<open>env.cc\<close>, \<open>set_current_file\<close>; an environment in memory,
    and what it means that an environment works.
  \<^item> \<open>Linked_Ring\<close>: circular doubly linked lists and null-terminated chains, for \<open>cache.cc\<close> and
    \<open>version_set.cc\<close>.
  \<^item> \<open>Handle_Table\<close>, \<open>Lru_Cache\<close>, \<open>Lru_Cache_Inv\<close>: \<open>cache.cc\<close> on lists.  The hash table is a map; the
    invariant ties reference counts, lists, table and usage together, and a client that releases what
    it holds meets no assertion, no freed entry and no leak.  \<open>Handle_Chains\<close>, \<open>Lru_Links\<close>,
    \<open>Lru_Refinement\<close>: the same code with its pointers, in memory with arbitrary contents; every
    operation refines the one on lists, so what is proved on lists holds of the pointers.
  \<^item> \<open>Arena\<close>, \<open>Skip_List\<close>, \<open>Skip_List_Inv\<close>, \<open>Skip_List_Spec\<close>, \<open>Skip_List_Memory\<close>, \<open>Memory_Table\<close>:
    \<open>arena.cc\<close>, \<open>skip_list.h\<close>, \<open>memory_table.cc\<close>.  The skip list is an ordered set.  Readers take no
    lock: under the acquire, release and relaxed orders the code gives its loads and stores, and
    with any number of insertions running, they meet no node that is not initialised, go strictly
    forward, and miss no key that was inserted before they started.
  \<^item> \<open>Options\<close>, \<open>Table_Cache\<close>: \<open>options.h\<close>, \<open>sanitize_options\<close>, \<open>table_cache.cc\<close>.
  \<^item> \<open>Version_Edit\<close>, \<open>Builder_Types\<close>: \<open>version_edit.cc\<close>, its round trip, what is lost in it, and the
    types a decoded edit respects.
  \<^item> \<open>Version_Set\<close>, \<open>Version_Ring\<close>, \<open>Version_Recovery\<close>, \<open>Version_Spec\<close>: \<open>version_set.cc\<close>.  The circular
    list of versions stays well formed; the outcomes of \<open>log_any_apply\<close> and \<open>recover\<close>, on every path;
    an edit one version set logs is recovered by the next.
  \<^item> \<open>Db_Impl\<close>, \<open>Db_Spec\<close>, \<open>Db_Files\<close>, \<open>Db_Background\<close>: \<open>db_impl.cc\<close> and \<open>main.cc\<close>: opening, creating
    and recovering a database, removing obsolete files, and the background job as a step relation over
    the threads that schedule it.
  \<^item> \<open>Port_Mutex\<close>: the mutex, the condition variable and \<open>MutexLock\<close>; a function that runs under a
    \<open>MutexLock\<close> is atomic, used for the identifiers of the cache and the lock table.  The models of
    the cache and of the lock table take their operations as single steps for this reason.

  \<^bold>\<open>Loops and recursion.\<close>  Loops over lists are structural; loops with a decreasing counter are \<open>fun\<close>
  with a measure.  The loops that may run forever (retries on \<open>EINTR\<close> and short writes, reading a file,
  searching a list through pointers, the versions in their circle, \<open>remove_file\<close> and \<open>delete_file\<close>
  calling each other, the replay that recovers again) are \<open>partial_function (option)\<close>, and that they
  return, or that they never do, is proved.  No fuel is used.

  \<^bold>\<open>Assumptions of the model.\<close>  Addresses, charges and reference counts are natural numbers.  The host
  is little endian.  A load of the skip list may return any store that is not overwritten in the view
  of its thread, but none of the future (no values out of thin air).  The assertions are compiled in.
  The scores of \<open>finalize\<close>, doubles in the code, are rational numbers.  The mutex of the database is
  held wherever the code asserts it.  \<open>RemoveObsoleteFiles\<close> and \<open>log_any_apply\<close> give it up for a
  while and are modelled as one step: only \<open>db::Open\<close>, before any other thread knows the database, and
  \<open>background_call\<close> take the mutex, and at most one background job runs at a time, as is proved.
  Members a constructor leaves uninitialised are arguments, so that nothing is assumed of them.

  \<^bold>\<open>What it shows about the code.\<close>  The lower layers do what they promise.  The upper layers are not
  finished, and the development says where: no version set can be constructed, so \<open>db::Open\<close>
  and \<open>main\<close> never return; a record longer than a block is never read back; the manifest forgets
  deletions and turns compaction pointers into deletions; versions hold no files, so a table that was just
  added counts as obsolete and is deleted; replaying a log recovers the database again and never returns;
  a manual compaction is never finished.  The theorems on recovery and on the version list
  therefore start from a version set whose list is well formed, which is the state the constructor is
  meant to reach.

  \<^bold>\<open>Not modelled.\<close>  Members that are declared and have no body anywhere: the class \<open>compaction\<close>,
  \<open>pick_compaction\<close>, \<open>compact_range\<close>, \<open>compact_mem_table\<close>, \<open>do_compaction_work\<close>,
  \<open>cleanup_compaction\<close>, \<open>record_background_error\<close> (the background job takes them as arguments),
  \<open>append_internal_key\<close>, \<open>remove_file\<close> of a version edit, the iteration over a batch, the Bloom
  filter, the comparator of the memory table.  \<open>table_builder\<close> is an empty class, \<open>no_destructor\<close> and
  aligned storage are storage management, the calls that write to the info log have no effect on the
  database, and the build files, thread annotations and default destructors are not code to verify.
\<close>

end
